(* ===== verification/Prelude.thy ===== *)
theory Prelude
  imports Main "HOL-Library.Word" "HOL-Library.Multiset"
begin

text \<open>
  Shared vocabulary of the development: the C integer types of the source as words of their
  width, the errno values the code returns, the bit macros of \<^verbatim>\<open>onvm_common.h\<close>, and the
  generic facts on words, lists and multisets that the component theories use.
\<close>

unbundle bit_operations_syntax

section \<open>Integer types of the source\<close>

type_synonym u8 = "8 word"
type_synonym u16 = "16 word"
type_synonym u32 = "32 word"
type_synonym u64 = "64 word"
type_synonym i16 = "16 word"
type_synonym i32 = "32 word"

section \<open>Collections of facts\<close>

named_theorems word_nat "reading words as natural numbers"
named_theorems frame_rules "what an operation leaves unchanged"

section \<open>Error numbers\<close>

text \<open>The values of \<^verbatim>\<open>errno.h\<close> on Linux that the modelled code returns.\<close>

abbreviation ENOENT :: int where "ENOENT \<equiv> 2"
abbreviation ENOMEM :: int where "ENOMEM \<equiv> 12"
abbreviation ENODEV :: int where "ENODEV \<equiv> 19"
abbreviation EINVAL :: int where "EINVAL \<equiv> 22"
abbreviation ENOSPC :: int where "ENOSPC \<equiv> 28"
abbreviation EPROTONOSUPPORT :: int where "EPROTONOSUPPORT \<equiv> 93"
abbreviation ENOTSUP :: int where "ENOTSUP \<equiv> 95"
abbreviation ENOBUFS :: int where "ENOBUFS \<equiv> 105"

section \<open>Words\<close>

lemma ucast_up_down [simp]: "ucast (ucast x :: u64) = x" for x :: u32
  by (rule bit_word_eqI) (simp add: bit_simps)

lemma unat_less_2p: "unat x < 2 ^ LENGTH('a)" for x :: "'a::len word"
  by (rule unsigned_less)

lemma unat_ucast_small [word_nat]:
  "unat x < 2 ^ LENGTH('b) \<Longrightarrow> unat (ucast x :: 'b::len word) = unat x" for x :: "'a::len word"
  by (simp add: unsigned_ucast_eq take_bit_nat_eq_self)

lemma unat_ucast_up [word_nat]:
  "LENGTH('a) \<le> LENGTH('b) \<Longrightarrow> unat (ucast x :: 'b::len word) = unat x" for x :: "'a::len word"
  using unat_less_2p [of x] by (intro unat_ucast_small) (meson less_le_trans one_le_numeral power_increasing)

lemma unat_ucast_u64 [simp]: "unat (ucast x :: u64) = unat x" for x :: u32
  by (rule unat_ucast_up) simp

lemma unat_dec [word_nat]: "x \<noteq> 0 \<Longrightarrow> unat (x - 1) = unat x - 1" for x :: "'a::len word"
  by (rule unat_minus_one)

lemma unat_inc [word_nat]:
  "Suc (unat x) < 2 ^ LENGTH('a) \<Longrightarrow> unat (x + 1) = Suc (unat x)" for x :: "'a::len word"
  by (simp add: unat_word_ariths)

lemma unat_plus_exact [word_nat]:
  "unat x + unat y < 2 ^ LENGTH('a) \<Longrightarrow> unat (x + y) = unat x + unat y" for x y :: "'a::len word"
  by (simp add: unat_word_ariths)

lemma unat_minus_exact [word_nat]:
  "y \<le> x \<Longrightarrow> unat (x - y) = unat x - unat y" for x y :: "'a::len word"
  by (rule unat_sub)

lemma unat_of_nat_exact [word_nat]:
  "n < 2 ^ LENGTH('a) \<Longrightarrow> unat (of_nat n :: 'a::len word) = n"
  by (simp add: unat_of_nat)

lemma of_nat_eq_iff_exact:
  assumes "i < 2 ^ LENGTH('a)" "j < 2 ^ LENGTH('a)"
  shows "(of_nat i :: 'a::len word) = of_nat j \<longleftrightarrow> i = j"
  using assms by (metis unat_of_nat_exact)

lemma unat_min [word_nat]: "unat (min x y) = min (unat x) (unat y)" for x y :: "'a::len word"
  by (simp add: min_def word_le_nat_alt)

lemma idx_plus_Suc: "idx + of_nat (Suc i) = (idx + 1) + of_nat i" for idx :: "'a::len word"
  by (simp add: algebra_simps)

section \<open>Lists and multisets\<close>

lemma nth_update_if: "j < length xs \<Longrightarrow> xs[i := v] ! j = (if i = j then v else xs ! j)"
  by (cases "i = j") auto

lemma mset_take_Suc:
  "n < length xs \<Longrightarrow> mset (take (Suc n) xs) = add_mset (xs ! n) (mset (take n xs))"
  by (simp add: take_Suc_conv_app_nth)

lemma mset_take_drop: "mset (take n xs) + mset (drop n xs) = mset xs"
  by (metis append_take_drop_id mset_append)

lemma map_nth_upt_take:
  "n \<le> length xs \<Longrightarrow> map (\<lambda>i. xs ! i) [0..<n] = take n xs"
  by (simp add: list_eq_iff_nth_eq)

lemma nth_eq_take_map:
  assumes "\<And>i. i < n \<Longrightarrow> f i = xs ! i" and "n \<le> length xs"
  shows "map f [0..<n] = take n xs"
  using assms by (simp add: list_eq_iff_nth_eq)

lemma upt_map_Suc: "map f [0..<Suc n] = f 0 # map (\<lambda>i. f (Suc i)) [0..<n]"
  by (simp add: upt_conv_Cons map_Suc_upt [symmetric] comp_def del: upt_Suc)

section \<open>Runs of an allocator\<close>

text \<open>
  \<open>alloc_many\<close> calls an allocator a number of times and collects what it returned;
  \<open>free_many\<close> gives a list of items back one at a time and stops at the first refusal.
  The loops of the program over an allocator are shown to be such runs.
\<close>

primrec alloc_many :: "('s \<Rightarrow> 'f \<times> 's) \<Rightarrow> nat \<Rightarrow> 's \<Rightarrow> 'f list \<times> 's" where
  "alloc_many alloc 0 s = ([], s)"
| "alloc_many alloc (Suc n) s =
     (let (f, s1) = alloc s; (fs, s2) = alloc_many alloc n s1 in (f # fs, s2))"

primrec free_many :: "('s \<Rightarrow> 'f \<Rightarrow> 's option) \<Rightarrow> 's \<Rightarrow> 'f list \<Rightarrow> 's option" where
  "free_many free s [] = Some s"
| "free_many free s (f # fs) = Option.bind (free s f) (\<lambda>s1. free_many free s1 fs)"

lemma length_alloc_many [simp]: "length (fst (alloc_many alloc n s)) = n"
  by (induction n arbitrary: s) (auto simp: split_beta Let_def)

lemma free_many_append:
  "free_many free s (xs @ ys) = Option.bind (free_many free s xs) (\<lambda>s1. free_many free s1 ys)"
  by (induction xs arbitrary: s) (auto split: Option.bind_splits)

end
