(* ===== verification/AfxdpTypes.thy ===== *)
theory AfxdpTypes
  imports Prelude
begin

text \<open>
  Data of the AF\_XDP manager: the constants of \<^verbatim>\<open>onvm_afxdp_config.h\<close> and the structures of
  \<^verbatim>\<open>onvm_afxdp_types.h\<close>. The descriptor rings are objects of libxdp, which is not part of the
  repository: their types are the parameters \<open>'p\<close> (producer ring), \<open>'c\<close> (consumer ring) and
  \<open>'k\<close> (the kernel's socket behind \<^verbatim>\<open>struct xsk_socket\<close>).
\<close>

section \<open>Constants (onvm\_afxdp\_config.h)\<close>

definition AFXDP_NUM_FRAMES :: nat where "AFXDP_NUM_FRAMES = 32768"
definition AFXDP_FRAME_SIZE :: nat where "AFXDP_FRAME_SIZE = 4096"
definition AFXDP_INVALID_UMEM_FRAME :: u64 where "AFXDP_INVALID_UMEM_FRAME = -1"
definition AFXDP_RX_RING_SIZE :: nat where "AFXDP_RX_RING_SIZE = 8192"
definition AFXDP_TX_RING_SIZE :: nat where "AFXDP_TX_RING_SIZE = 8192"
definition AFXDP_FILL_RING_SIZE :: nat where "AFXDP_FILL_RING_SIZE = 8192"
definition AFXDP_COMP_RING_SIZE :: nat where "AFXDP_COMP_RING_SIZE = 8192"
definition AFXDP_RX_BATCH_SIZE :: nat where "AFXDP_RX_BATCH_SIZE = 64"
definition AFXDP_STATS_INTERVAL :: u32 where "AFXDP_STATS_INTERVAL = 2"
definition AFXDP_HUGEPAGE_SIZE :: u64 where "AFXDP_HUGEPAGE_SIZE = 2 * 1024 * 1024"

text \<open>\<open>AFXDP_FRAME_SIZE\<close> is libxdp's \<^verbatim>\<open>XSK_UMEM__DEFAULT_FRAME_SIZE\<close>, 4096.\<close>

definition AFXDP_UMEM_TOTAL_BYTES :: u64 where
  "AFXDP_UMEM_TOTAL_BYTES = of_nat AFXDP_NUM_FRAMES * of_nat AFXDP_FRAME_SIZE"

definition AFXDP_UMEM_HUGEPAGE_ALIGNED :: u64 where
  "AFXDP_UMEM_HUGEPAGE_ALIGNED =
     (AFXDP_UMEM_TOTAL_BYTES + AFXDP_HUGEPAGE_SIZE - 1) AND NOT (AFXDP_HUGEPAGE_SIZE - 1)"

lemmas afxdp_consts =
  AFXDP_NUM_FRAMES_def AFXDP_FRAME_SIZE_def AFXDP_RX_RING_SIZE_def AFXDP_TX_RING_SIZE_def
  AFXDP_FILL_RING_SIZE_def AFXDP_COMP_RING_SIZE_def AFXDP_RX_BATCH_SIZE_def

section \<open>Structures (onvm\_afxdp\_types.h)\<close>

text \<open>A descriptor of an RX or TX ring (\<^verbatim>\<open>struct xdp_desc\<close>); fill and completion rings use the address only.\<close>

record xdp_desc =
  addr :: u64
  len :: u32

record ('p, 'c) afxdp_umem_info =
  fq :: 'p
  cq :: 'c
  umem_handle :: nat
  umem_buffer :: u64

record afxdp_stats_record =
  timestamp :: u64
  rx_packets :: u64
  rx_bytes :: u64
  tx_packets :: u64
  tx_bytes :: u64
  rx_dropped :: u64

record ('p, 'c, 'k) afxdp_socket_info =
  rx :: 'c
  tx :: 'p
  umem :: "('p, 'c) afxdp_umem_info"
  xsk :: 'k
  umem_frame_addr :: "u64 list"
  umem_frame_free :: u32
  outstanding_tx :: u32
  stats :: afxdp_stats_record
  prev_stats :: afxdp_stats_record

datatype xdp_attach_mode = XDP_MODE_UNSPEC | XDP_MODE_NATIVE | XDP_MODE_SKB | XDP_MODE_HW

record afxdp_config =
  pkt_limit :: u64
  ifname :: string
  xdp_obj_file :: string
  xdp_prog_name :: string
  attach_mode :: xdp_attach_mode
  xdp_flags :: u32
  time_to_live :: u32
  ifindex :: int
  xsk_if_queue :: int
  stats_interval :: int
  xsk_bind_flags :: u16
  xsk_poll_mode :: bool
  custom_xdp_prog :: bool
  verbose :: bool

record ('p, 'c, 'k) afxdp_manager_ctx =
  ctx_cfg :: afxdp_config
  ctx_umem :: "('p, 'c) afxdp_umem_info option"
  packet_buffer :: u64
  xsk_socket :: "('p, 'c, 'k) afxdp_socket_info option"
  xdp_prog :: "(int + nat) option"
  packet_buffer_size :: u64
  packet_buffer_size_aligned :: u64
  xsk_map_fd :: int
  global_exit :: bool
  use_hugepages :: bool
  hugepage_preallocated :: bool

text \<open>
  The pointer \<^verbatim>\<open>xsk->umem\<close> of a socket aliases \<^verbatim>\<open>ctx->umem\<close>. The code changes the rings of the
  UMEM through the socket only, so the socket's record holds them once it exists; of \<open>ctx_umem\<close>
  only the handle is read afterwards, which never changes. \<open>xdp_prog\<close> is \<open>None\<close> for the null
  pointer and \<open>Inl err\<close> for an error pointer of libxdp.
\<close>

text \<open>All records start as zeroed memory (\<^verbatim>\<open>calloc\<close>, \<^verbatim>\<open>memset\<close>).\<close>

definition zero_stats :: afxdp_stats_record where
  "zero_stats = \<lparr>timestamp = 0, rx_packets = 0, rx_bytes = 0, tx_packets = 0, tx_bytes = 0, rx_dropped = 0\<rparr>"

definition zero_config :: afxdp_config where
  "zero_config = \<lparr>pkt_limit = 0, ifname = '''', xdp_obj_file = '''', xdp_prog_name = '''',
     attach_mode = XDP_MODE_UNSPEC, xdp_flags = 0, time_to_live = 0, ifindex = 0, xsk_if_queue = 0,
     stats_interval = 0, xsk_bind_flags = 0, xsk_poll_mode = False, custom_xdp_prog = False, verbose = False\<rparr>"

definition zero_ctx :: "('p, 'c, 'k) afxdp_manager_ctx" where
  "zero_ctx = \<lparr>ctx_cfg = zero_config, ctx_umem = None, packet_buffer = 0, xsk_socket = None, xdp_prog = None,
     packet_buffer_size = 0, packet_buffer_size_aligned = 0, xsk_map_fd = 0, global_exit = False,
     use_hugepages = False, hugepage_preallocated = False\<rparr>"

end
