(* ===== verification/UmemFrames.thy ===== *)
theory UmemFrames
  imports AfxdpTypes
begin

text \<open>
  The UMEM frame allocator of \<^verbatim>\<open>onvm_afxdp.c\<close>: a stack of free frame addresses in the array
  \<open>umem_frame_addr\<close> with \<open>umem_frame_free\<close> as its height. The locale \<open>frame_pool\<close> is the
  interface the datapath relies on (a stack with a capacity, an out-of-frames value and a
  refusal when full); its interpretation \<open>umem_pool\<close> discharges it for the code's allocator.
\<close>

section \<open>Operations\<close>

definition afxdp_alloc_umem_frame ::
  "('p, 'c, 'k) afxdp_socket_info \<Rightarrow> u64 \<times> ('p, 'c, 'k) afxdp_socket_info" where
  "afxdp_alloc_umem_frame x =
     (if umem_frame_free x = 0 then (AFXDP_INVALID_UMEM_FRAME, x)
      else
        let n = umem_frame_free x - 1;
            frame = umem_frame_addr x ! unat n
        in (frame, x\<lparr>umem_frame_free := n,
                      umem_frame_addr := (umem_frame_addr x)[unat n := AFXDP_INVALID_UMEM_FRAME]\<rparr>))"

text \<open>The assertion of \<^verbatim>\<open>afxdp_free_umem_frame\<close> aborts the process: \<open>None\<close>.\<close>

definition afxdp_free_umem_frame ::
  "('p, 'c, 'k) afxdp_socket_info \<Rightarrow> u64 \<Rightarrow> ('p, 'c, 'k) afxdp_socket_info option" where
  "afxdp_free_umem_frame x frame =
     (if \<not> umem_frame_free x < of_nat AFXDP_NUM_FRAMES then None
      else Some (x\<lparr>umem_frame_addr := (umem_frame_addr x)[unat (umem_frame_free x) := frame],
                   umem_frame_free := umem_frame_free x + 1\<rparr>))"

definition afxdp_umem_free_frames :: "('p, 'c, 'k) afxdp_socket_info \<Rightarrow> u64" where
  "afxdp_umem_free_frames x = ucast (umem_frame_free x)"

text \<open>The initialisation loop of \<^verbatim>\<open>afxdp_configure_socket\<close>: \<open>umem_frame_addr[i] = i * AFXDP_FRAME_SIZE\<close>.\<close>

definition init_frame_addrs :: "u64 list" where
  "init_frame_addrs = map (\<lambda>i. of_nat (i * AFXDP_FRAME_SIZE)) [0..<AFXDP_NUM_FRAMES]"

section \<open>Invariant and abstraction\<close>

definition umem_wf :: "('p, 'c, 'k) afxdp_socket_info \<Rightarrow> bool" where
  "umem_wf x \<longleftrightarrow> length (umem_frame_addr x) = AFXDP_NUM_FRAMES \<and> unat (umem_frame_free x) \<le> AFXDP_NUM_FRAMES"

definition free_frames :: "('p, 'c, 'k) afxdp_socket_info \<Rightarrow> u64 list" where
  "free_frames x = take (unat (umem_frame_free x)) (umem_frame_addr x)"

section \<open>The interface of a frame pool\<close>

locale frame_pool =
  fixes alloc :: "'s \<Rightarrow> 'f \<times> 's"
    and free :: "'s \<Rightarrow> 'f \<Rightarrow> 's option"
    and frames :: "'s \<Rightarrow> 'f list"
    and invar :: "'s \<Rightarrow> bool"
    and capacity :: nat
    and invalid :: 'f
  assumes alloc_empty: "invar s \<Longrightarrow> frames s = [] \<Longrightarrow> alloc s = (invalid, s)"
    and alloc_top: "invar s \<Longrightarrow> frames s \<noteq> [] \<Longrightarrow>
          fst (alloc s) = last (frames s) \<and> frames (snd (alloc s)) = butlast (frames s) \<and> invar (snd (alloc s))"
    and free_room: "invar s \<Longrightarrow> length (frames s) < capacity \<Longrightarrow>
          \<exists>t. free s f = Some t \<and> frames t = frames s @ [f] \<and> invar t"
    and free_full: "invar s \<Longrightarrow> length (frames s) \<ge> capacity \<Longrightarrow> free s f = None"
    and frames_bound: "invar s \<Longrightarrow> length (frames s) \<le> capacity"
begin

lemma alloc_many_enough:
  "invar s \<Longrightarrow> n \<le> length (frames s) \<Longrightarrow>
     invar (snd (alloc_many alloc n s))
     \<and> frames (snd (alloc_many alloc n s)) = take (length (frames s) - n) (frames s)
     \<and> fst (alloc_many alloc n s) = rev (drop (length (frames s) - n) (frames s))"
proof (induction n arbitrary: s)
  case 0
  then show ?case by simp
next
  case (Suc n)
  then have ne: "frames s \<noteq> []" by auto
  define t where "t = snd (alloc s)"
  have t: "fst (alloc s) = last (frames s)" "frames t = butlast (frames s)" "invar t"
    using alloc_top [OF Suc.prems(1) ne] by (simp_all add: t_def)
  let ?k = "length (frames s) - Suc n"
  have IH: "invar (snd (alloc_many alloc n t))"
    "frames (snd (alloc_many alloc n t)) = take (length (frames t) - n) (frames t)"
    "fst (alloc_many alloc n t) = rev (drop (length (frames t) - n) (frames t))"
    using Suc.IH [of t] t Suc.prems(2) by auto
  have split: "frames s = butlast (frames s) @ [last (frames s)]"
    using ne by simp
  have "drop ?k (frames s) = drop ?k (butlast (frames s)) @ [last (frames s)]"
    using Suc.prems(2) by (subst split) simp
  moreover have "take ?k (butlast (frames s)) = take ?k (frames s)"
    using ne by (simp add: take_butlast)
  ultimately show ?case
    using IH t by (simp add: split_beta Let_def t_def)
qed

lemma alloc_many_mset:
  assumes "invar s" "n \<le> length (frames s)"
  shows "mset (fst (alloc_many alloc n s)) + mset (frames (snd (alloc_many alloc n s))) = mset (frames s)"
  using alloc_many_enough [OF assms] mset_take_drop [of "length (frames s) - n" "frames s"]
  by (simp add: add.commute)

lemma alloc_many_empty: "invar s \<Longrightarrow> frames s = [] \<Longrightarrow> alloc_many alloc n s = (replicate n invalid, s)"
  by (induction n) (auto simp: alloc_empty)

lemma alloc_many_split:
  "alloc_many alloc (m + n) s =
     (let (xs, t) = alloc_many alloc m s; (ys, u) = alloc_many alloc n t in (xs @ ys, u))"
  by (induction m arbitrary: s) (auto simp: split_beta Let_def)

text \<open>Asking for more frames than there are hands out every frame and then invalid ones.\<close>

lemma alloc_many_exhausts:
  assumes "invar s" "length (frames s) \<le> n"
  shows "fst (alloc_many alloc n s) = rev (frames s) @ replicate (n - length (frames s)) invalid
         \<and> frames (snd (alloc_many alloc n s)) = [] \<and> invar (snd (alloc_many alloc n s))"
proof -
  let ?m = "length (frames s)"
  let ?t = "snd (alloc_many alloc ?m s)"
  have t: "invar ?t" "frames ?t = []" "fst (alloc_many alloc ?m s) = rev (frames s)"
    using alloc_many_enough [OF assms(1), of ?m] by simp_all
  have "alloc_many alloc n s = alloc_many alloc (?m + (n - ?m)) s"
    using assms(2) by simp
  also have "\<dots> = (rev (frames s) @ replicate (n - ?m) invalid, ?t)"
    unfolding alloc_many_split using t alloc_many_empty [OF t(1,2), of "n - ?m"]
    by (simp add: split_beta Let_def)
  finally show ?thesis using t by simp
qed

lemma free_many_room:
  "invar s \<Longrightarrow> length (frames s) + length fs \<le> capacity \<Longrightarrow>
     \<exists>t. free_many free s fs = Some t \<and> frames t = frames s @ fs \<and> invar t"
proof (induction fs arbitrary: s)
  case Nil
  then show ?case by simp
next
  case (Cons f fs)
  then obtain t where t: "free s f = Some t" "frames t = frames s @ [f]" "invar t"
    using free_room [of s f] by auto
  then obtain u where "free_many free t fs = Some u" "frames u = frames t @ fs" "invar u"
    using Cons.IH [of t] Cons.prems by auto
  with t show ?case by simp
qed

lemma free_many_full:
  "invar s \<Longrightarrow> length (frames s) + length fs > capacity \<Longrightarrow> free_many free s fs = None"
proof (induction fs arbitrary: s)
  case Nil
  then show ?case using frames_bound [of s] by simp
next
  case (Cons f fs)
  show ?case
  proof (cases "length (frames s) < capacity")
    case True
    then obtain t where "free s f = Some t" "frames t = frames s @ [f]" "invar t"
      using free_room [of s f] Cons.prems by auto
    then show ?thesis using Cons.IH [of t] Cons.prems by simp
  next
    case False
    then show ?thesis using free_full [of s f] Cons.prems by simp
  qed
qed

text \<open>What was just allocated can be given back, and the pool then holds the same frames.\<close>

lemma alloc_free_roundtrip:
  assumes "invar s" "n \<le> length (frames s)"
  shows "\<exists>t. free_many free (snd (alloc_many alloc n s)) (fst (alloc_many alloc n s)) = Some t
           \<and> mset (frames t) = mset (frames s) \<and> invar t"
proof -
  let ?u = "snd (alloc_many alloc n s)" and ?fs = "fst (alloc_many alloc n s)"
  have u: "invar ?u" "frames ?u = take (length (frames s) - n) (frames s)"
    using alloc_many_enough [OF assms] by simp_all
  have "length (frames ?u) + length ?fs \<le> capacity"
    using u assms(2) frames_bound [OF assms(1)] by simp
  then obtain t where t: "free_many free ?u ?fs = Some t" "frames t = frames ?u @ ?fs" "invar t"
    using free_many_room [OF u(1)] by blast
  have "mset (frames t) = mset (frames s)"
    using t(2) alloc_many_mset [OF assms] by (simp add: add.commute)
  with t show ?thesis by blast
qed

end

section \<open>The code's allocator is a frame pool\<close>

lemma unat_num_frames [simp]: "unat (of_nat AFXDP_NUM_FRAMES :: u32) = AFXDP_NUM_FRAMES"
  by (simp add: AFXDP_NUM_FRAMES_def)

lemma length_free_frames [simp]: "umem_wf x \<Longrightarrow> length (free_frames x) = unat (umem_frame_free x)"
  by (simp add: umem_wf_def free_frames_def)

lemma alloc_frame_empty:
  "umem_wf x \<Longrightarrow> free_frames x = [] \<Longrightarrow> afxdp_alloc_umem_frame x = (AFXDP_INVALID_UMEM_FRAME, x)"
  by (auto simp: umem_wf_def free_frames_def afxdp_alloc_umem_frame_def AFXDP_NUM_FRAMES_def unat_eq_zero)

lemma alloc_frame_top:
  assumes "umem_wf x" "free_frames x \<noteq> []"
  shows "fst (afxdp_alloc_umem_frame x) = last (free_frames x)
       \<and> free_frames (snd (afxdp_alloc_umem_frame x)) = butlast (free_frames x)
       \<and> umem_wf (snd (afxdp_alloc_umem_frame x))"
proof -
  let ?n = "unat (umem_frame_free x)"
  have pos: "umem_frame_free x \<noteq> 0" and nz: "0 < ?n"
    using assms(2) by (auto simp: free_frames_def unat_gt_0)
  have n1: "unat (umem_frame_free x - 1) = ?n - 1"
    by (rule unat_dec [OF pos])
  have lt: "?n - 1 < length (umem_frame_addr x)"
    using assms(1) nz unfolding umem_wf_def by linarith
  have "take ?n (umem_frame_addr x) = take (?n - 1) (umem_frame_addr x) @ [umem_frame_addr x ! (?n - 1)]"
    using take_Suc_conv_app_nth [OF lt] nz by simp
  then show ?thesis
    using pos nz lt n1 assms(1)
    by (simp add: afxdp_alloc_umem_frame_def free_frames_def umem_wf_def Let_def)
qed

lemma free_frame_room:
  assumes "umem_wf x" "length (free_frames x) < AFXDP_NUM_FRAMES"
  shows "\<exists>y. afxdp_free_umem_frame x f = Some y \<and> free_frames y = free_frames x @ [f] \<and> umem_wf y"
proof -
  let ?n = "unat (umem_frame_free x)"
  have lt: "?n < AFXDP_NUM_FRAMES" using assms by simp
  have len: "?n < length (umem_frame_addr x)" using assms(1) lt by (simp add: umem_wf_def)
  have inc: "unat (umem_frame_free x + 1) = Suc ?n"
    using lt by (intro unat_inc) (simp add: AFXDP_NUM_FRAMES_def)
  have "take (Suc ?n) ((umem_frame_addr x)[?n := f]) = take ?n (umem_frame_addr x) @ [f]"
    using len by (simp add: take_Suc_conv_app_nth)
  then show ?thesis
    using lt inc assms(1)
    by (simp add: afxdp_free_umem_frame_def word_less_nat_alt free_frames_def umem_wf_def)
qed

lemma free_frame_full:
  "umem_wf x \<Longrightarrow> length (free_frames x) \<ge> AFXDP_NUM_FRAMES \<Longrightarrow> afxdp_free_umem_frame x f = None"
  by (simp add: afxdp_free_umem_frame_def word_less_nat_alt)

lemma free_frames_bound: "umem_wf x \<Longrightarrow> length (free_frames x) \<le> AFXDP_NUM_FRAMES"
  by (simp add: umem_wf_def free_frames_def)

interpretation umem_pool: frame_pool afxdp_alloc_umem_frame afxdp_free_umem_frame free_frames umem_wf
  AFXDP_NUM_FRAMES AFXDP_INVALID_UMEM_FRAME
  by unfold_locales
    (fact alloc_frame_empty alloc_frame_top free_frame_room free_frame_full free_frames_bound)+

section \<open>The allocator touches nothing else\<close>

lemma alloc_frame_unchanged [frame_rules]:
  "rx (snd (afxdp_alloc_umem_frame x)) = rx x" "tx (snd (afxdp_alloc_umem_frame x)) = tx x"
  "umem (snd (afxdp_alloc_umem_frame x)) = umem x" "xsk (snd (afxdp_alloc_umem_frame x)) = xsk x"
  "outstanding_tx (snd (afxdp_alloc_umem_frame x)) = outstanding_tx x"
  "stats (snd (afxdp_alloc_umem_frame x)) = stats x"
  by (simp_all add: afxdp_alloc_umem_frame_def Let_def)

lemma free_frame_unchanged [frame_rules]:
  assumes "afxdp_free_umem_frame x f = Some y"
  shows "rx y = rx x" "tx y = tx x" "umem y = umem x" "xsk y = xsk x"
    "outstanding_tx y = outstanding_tx x" "stats y = stats x"
  using assms by (auto simp: afxdp_free_umem_frame_def split: if_splits)

section \<open>The initial frames\<close>

lemma length_init_frame_addrs [simp]: "length init_frame_addrs = AFXDP_NUM_FRAMES"
  by (simp add: init_frame_addrs_def)

lemma frame_addr_small: "i < AFXDP_NUM_FRAMES \<Longrightarrow> unat (of_nat (i * AFXDP_FRAME_SIZE) :: u64) = i * AFXDP_FRAME_SIZE"
  by (intro unat_of_nat_exact) (simp add: afxdp_consts)

lemma distinct_init_frame_addrs: "distinct init_frame_addrs"
proof -
  have "inj_on (\<lambda>i. of_nat (i * AFXDP_FRAME_SIZE) :: u64) {0..<AFXDP_NUM_FRAMES}"
  proof (rule inj_onI)
    fix i j
    assume "i \<in> {0..<AFXDP_NUM_FRAMES}" "j \<in> {0..<AFXDP_NUM_FRAMES}"
      and "(of_nat (i * AFXDP_FRAME_SIZE) :: u64) = of_nat (j * AFXDP_FRAME_SIZE)"
    then have "i * AFXDP_FRAME_SIZE = j * AFXDP_FRAME_SIZE"
      by (metis frame_addr_small atLeastLessThan_iff)
    then show "i = j" by (simp add: AFXDP_FRAME_SIZE_def)
  qed
  then show ?thesis by (simp add: init_frame_addrs_def distinct_map)
qed

lemma init_frame_addrs_valid: "AFXDP_INVALID_UMEM_FRAME \<notin> set init_frame_addrs"
proof
  assume "AFXDP_INVALID_UMEM_FRAME \<in> set init_frame_addrs"
  then obtain i where i: "i < AFXDP_NUM_FRAMES" "AFXDP_INVALID_UMEM_FRAME = (of_nat (i * AFXDP_FRAME_SIZE) :: u64)"
    by (auto simp: init_frame_addrs_def)
  have "unat AFXDP_INVALID_UMEM_FRAME = i * AFXDP_FRAME_SIZE"
    unfolding i(2) by (rule frame_addr_small [OF i(1)])
  then show False
    using i(1) by (simp add: AFXDP_INVALID_UMEM_FRAME_def afxdp_consts unsigned_minus_1_eq_mask mask_eq_exp_minus_1)
qed

section \<open>Properties\<close>

text \<open>
  C10. The UMEM allocator: while it has at least \<open>n\<close> free frames, \<open>n\<close> calls of
  \<^verbatim>\<open>afxdp_alloc_umem_frame\<close> hand out the \<open>n\<close> most recently freed frames, newest first, none
  twice; giving them back in any number of calls of \<^verbatim>\<open>afxdp_free_umem_frame\<close> never trips the
  assertion, and the pool then holds the frames it held before.
\<close>

theorem umem_alloc_free_roundtrip:
  assumes "umem_wf x" and "n \<le> length (free_frames x)" and "distinct (free_frames x)"
    and "alloc_many afxdp_alloc_umem_frame n x = (fs, y)"
  shows "fs = rev (drop (length (free_frames x) - n) (free_frames x)) \<and> distinct fs
    \<and> set fs \<inter> set (free_frames y) = {}
    \<and> (\<exists>z. free_many afxdp_free_umem_frame y fs = Some z \<and> umem_wf z
          \<and> mset (free_frames z) = mset (free_frames x))"
proof -
  let ?k = "length (free_frames x) - n"
  have y: "free_frames y = take ?k (free_frames x)" "fs = rev (drop ?k (free_frames x))"
    using umem_pool.alloc_many_enough [OF assms(1,2)] assms(4) by simp_all
  moreover have "set (take ?k (free_frames x)) \<inter> set (drop ?k (free_frames x)) = {}"
    using assms(3) by (rule set_take_disj_set_drop_if_distinct) simp
  moreover have "\<exists>z. free_many afxdp_free_umem_frame y fs = Some z \<and> mset (free_frames z) = mset (free_frames x) \<and> umem_wf z"
    using umem_pool.alloc_free_roundtrip [OF assms(1,2)] assms(4) by simp
  ultimately show ?thesis using assms(3) by auto
qed

definition full_pool :: "(unit, unit, unit) afxdp_socket_info" where
  "full_pool = \<lparr>rx = (), tx = (), umem = \<lparr>fq = (), cq = (), umem_handle = 1, umem_buffer = 0\<rparr>, xsk = (),
     umem_frame_addr = init_frame_addrs, umem_frame_free = of_nat AFXDP_NUM_FRAMES, outstanding_tx = 0,
     stats = zero_stats, prev_stats = zero_stats\<rparr>"

theorem umem_alloc_free_roundtrip_witness:
  "\<exists>fs y z. alloc_many afxdp_alloc_umem_frame 3 full_pool = (fs, y) \<and> distinct fs
     \<and> free_many afxdp_free_umem_frame y fs = Some z \<and> mset (free_frames z) = mset init_frame_addrs"
proof -
  have p: "umem_wf full_pool" "free_frames full_pool = init_frame_addrs"
    by (simp_all add: umem_wf_def free_frames_def full_pool_def)
  obtain fs y where a: "alloc_many afxdp_alloc_umem_frame 3 full_pool = (fs, y)" by (metis surj_pair)
  have "3 \<le> length (free_frames full_pool)" unfolding p(2) by (simp add: AFXDP_NUM_FRAMES_def)
  moreover have "distinct (free_frames full_pool)" using p(2) distinct_init_frame_addrs by simp
  ultimately show ?thesis using umem_alloc_free_roundtrip [OF p(1) _ _ a] a p(2) by auto
qed

end
