(* ===== verification/XskRings.thy ===== *)
theory XskRings
  imports AfxdpTypes
begin

text \<open>
  The libxdp ring interface used by \<^verbatim>\<open>onvm_afxdp.c\<close>. libxdp and the kernel are not part of the
  repository: their calls are the fields of the record \<open>xsk_api\<close>, a parameter of every
  definition that uses them. The locale \<open>xsk_rings\<close> states what the datapath relies on (the
  documented behaviour of the single-producer single-consumer rings of \<^verbatim>\<open>xsk.h\<close> and of
  \<^verbatim>\<open>sendto\<close> on an AF\_XDP socket); \<open>ref_api\<close> is a concrete bounded ring that satisfies it.
\<close>

section \<open>The calls\<close>

text \<open>
  A call that the C code makes through a pointer to a ring returns the ring as it is afterwards.
  \<^verbatim>\<open>xsk_ring_prod__fill_addr\<close> and \<^verbatim>\<open>xsk_ring_prod__tx_desc\<close> return pointers the code writes
  through, so they appear as the write they allow; \<^verbatim>\<open>xsk_ring_cons__comp_addr\<close> and
  \<^verbatim>\<open>xsk_ring_cons__rx_desc\<close> are only read.
\<close>

record ('p, 'c, 'k) xsk_api =
  cons_peek :: "'c \<Rightarrow> u32 \<Rightarrow> u32 \<times> u32 \<times> 'c"
  cons_comp_addr :: "'c \<Rightarrow> u32 \<Rightarrow> u64"
  cons_rx_desc :: "'c \<Rightarrow> u32 \<Rightarrow> xdp_desc"
  cons_release :: "'c \<Rightarrow> u32 \<Rightarrow> 'c"
  prod_nb_free :: "'p \<Rightarrow> u32 \<Rightarrow> u32 \<times> 'p"
  prod_reserve :: "'p \<Rightarrow> u32 \<Rightarrow> u32 \<times> u32 \<times> 'p"
  prod_set_fill_addr :: "'p \<Rightarrow> u32 \<Rightarrow> u64 \<Rightarrow> 'p"
  prod_set_tx_addr :: "'p \<Rightarrow> u32 \<Rightarrow> u64 \<Rightarrow> 'p"
  prod_set_tx_len :: "'p \<Rightarrow> u32 \<Rightarrow> u32 \<Rightarrow> 'p"
  prod_submit :: "'p \<Rightarrow> u32 \<Rightarrow> 'p"
  kick_tx :: "'k \<Rightarrow> 'p \<Rightarrow> 'c \<Rightarrow> 'k \<times> 'p \<times> 'c"

text \<open>Consecutive writes from an index on.\<close>

primrec fill_writes :: "('p, 'c, 'k) xsk_api \<Rightarrow> 'p \<Rightarrow> u32 \<Rightarrow> u64 list \<Rightarrow> 'p" where
  "fill_writes api p idx [] = p"
| "fill_writes api p idx (a # as) = fill_writes api (prod_set_fill_addr api p idx a) (idx + 1) as"

definition tx_write :: "('p, 'c, 'k) xsk_api \<Rightarrow> 'p \<Rightarrow> u32 \<Rightarrow> xdp_desc \<Rightarrow> 'p" where
  "tx_write api p idx d = prod_set_tx_len api (prod_set_tx_addr api p idx (addr d)) idx (len d)"

primrec tx_writes :: "('p, 'c, 'k) xsk_api \<Rightarrow> 'p \<Rightarrow> u32 \<Rightarrow> xdp_desc list \<Rightarrow> 'p" where
  "tx_writes api p idx [] = p"
| "tx_writes api p idx (d # ds) = tx_writes api (tx_write api p idx d) (idx + 1) ds"

section \<open>What the datapath relies on\<close>

text \<open>
  \<open>cents\<close> and \<open>pents\<close> are the entries of a consumer ring and of a producer ring, oldest first,
  \<open>pspace\<close> the number of free slots of a producer ring, \<open>kframes\<close> the frames the kernel has
  taken from the rings of the socket and not handed back.
\<close>

locale xsk_rings =
  fixes api :: "('p, 'c, 'k) xsk_api"
    and cents :: "'c \<Rightarrow> xdp_desc list"
    and pents :: "'p \<Rightarrow> xdp_desc list"
    and pspace :: "'p \<Rightarrow> nat"
    and kframes :: "'k \<Rightarrow> u64 multiset"
  assumes peek_bound: "cons_peek api c n = (k, idx, c') \<Longrightarrow> 
          unat k \<le> unat n \<and> unat k \<le> length (cents c) \<and> cents c' = cents c"
    and peek_empty: "cons_peek api c n = (0, idx, c') \<Longrightarrow> 0 < n \<Longrightarrow> cents c = []"
    and peek_desc: "cons_peek api c n = (k, idx, c') \<Longrightarrow> i < unat k \<Longrightarrow>
          cons_rx_desc api c' (idx + of_nat i) = cents c ! i
          \<and> cons_comp_addr api c' (idx + of_nat i) = addr (cents c ! i)"
    and peek_release: "cons_peek api c n = (k, idx, c') \<Longrightarrow>
          cents (cons_release api c' k) = drop (unat k) (cents c)"
    and nb_free_same: "prod_nb_free api p n = (k, p') \<Longrightarrow> pents p' = pents p \<and> pspace p' = pspace p"
    and nb_free_bound: "prod_nb_free api p n = (k, p') \<Longrightarrow> unat k \<le> pspace p"
    and nb_free_enough: "prod_nb_free api p n = (k, p') \<Longrightarrow> unat n \<le> pspace p \<Longrightarrow> n \<le> k"
    and nb_free_short: "prod_nb_free api p n = (k, p') \<Longrightarrow> pspace p < unat n \<Longrightarrow> unat k = pspace p"
    and reserve_room: "prod_reserve api p n = (r, idx, p') \<Longrightarrow> unat n \<le> pspace p \<Longrightarrow> r = n"
    and reserve_full: "prod_reserve api p n = (r, idx, p') \<Longrightarrow> pspace p < unat n \<Longrightarrow>
          r = 0 \<and> pents p' = pents p \<and> pspace p' = pspace p"
    and submit_fill: "prod_reserve api p n = (n, idx, p') \<Longrightarrow> unat n \<le> pspace p \<Longrightarrow> length as = unat n \<Longrightarrow>
          map addr (pents (prod_submit api (fill_writes api p' idx as) n)) = map addr (pents p) @ as
          \<and> pspace (prod_submit api (fill_writes api p' idx as) n) = pspace p - unat n"
    and submit_tx: "prod_reserve api p n = (n, idx, p') \<Longrightarrow> unat n \<le> pspace p \<Longrightarrow> length ds = unat n \<Longrightarrow>
          pents (prod_submit api (tx_writes api p' idx ds) n) = pents p @ ds
          \<and> pspace (prod_submit api (tx_writes api p' idx ds) n) = pspace p - unat n"
    and kick_conserves: "kick_tx api s p c = (s', p', c') \<Longrightarrow>
          image_mset addr (mset (pents p')) + image_mset addr (mset (cents c')) + kframes s' =
          image_mset addr (mset (pents p)) + image_mset addr (mset (cents c)) + kframes s"
    and kick_tx_room: "kick_tx api s p c = (s', p', c') \<Longrightarrow>
          length (pents p') + pspace p' = length (pents p) + pspace p"

section \<open>A concrete bounded ring\<close>

text \<open>
  A producer ring keeps its capacity, the submitted entries and the reserved slots; a consumer
  ring its entries. The kernel of this instance completes every queued transmission when kicked.
\<close>

record ref_prod =
  rp_cap :: nat
  rp_ents :: "xdp_desc list"
  rp_slots :: "xdp_desc list"

record ref_cons =
  rc_ents :: "xdp_desc list"

definition u32_of :: "nat \<Rightarrow> u32" where
  "u32_of n = of_nat (min n (2 ^ 32 - 1))"

definition zero_desc :: xdp_desc where
  "zero_desc = \<lparr>addr = 0, len = 0\<rparr>"

definition ref_space :: "ref_prod \<Rightarrow> nat" where
  "ref_space p = rp_cap p - length (rp_ents p)"

definition ref_api :: "(ref_prod, ref_cons, unit) xsk_api" where
  "ref_api = \<lparr>
     cons_peek = (\<lambda>c n. (u32_of (min (unat n) (length (rc_ents c))), 0, c)),
     cons_comp_addr = (\<lambda>c i. addr (rc_ents c ! unat i)),
     cons_rx_desc = (\<lambda>c i. rc_ents c ! unat i),
     cons_release = (\<lambda>c n. c\<lparr>rc_ents := drop (unat n) (rc_ents c)\<rparr>),
     prod_nb_free = (\<lambda>p n. (u32_of (ref_space p), p)),
     prod_reserve = (\<lambda>p n. if unat n \<le> ref_space p then (n, 0, p\<lparr>rp_slots := replicate (unat n) zero_desc\<rparr>)
                           else (0, 0, p)),
     prod_set_fill_addr = (\<lambda>p i a. p\<lparr>rp_slots := (rp_slots p)[unat i := \<lparr>addr = a, len = 0\<rparr>]\<rparr>),
     prod_set_tx_addr = (\<lambda>p i a. p\<lparr>rp_slots := (rp_slots p)[unat i := (rp_slots p ! unat i)\<lparr>addr := a\<rparr>]\<rparr>),
     prod_set_tx_len = (\<lambda>p i l. p\<lparr>rp_slots := (rp_slots p)[unat i := (rp_slots p ! unat i)\<lparr>len := l\<rparr>]\<rparr>),
     prod_submit = (\<lambda>p n. p\<lparr>rp_ents := rp_ents p @ take (unat n) (rp_slots p), rp_slots := []\<rparr>),
     kick_tx = (\<lambda>k p c. (k, p\<lparr>rp_ents := [], rp_cap := max (rp_cap p) (length (rp_ents p))\<rparr>, c\<lparr>rc_ents := rc_ents c @ rp_ents p\<rparr>))\<rparr>"

lemma unat_u32_of: "unat (u32_of n) = min n (2 ^ 32 - 1)"
  unfolding u32_of_def by (rule unat_of_nat_exact) simp

lemma unat_u32_of_min [simp]: "unat (u32_of (min (unat n) m)) = min (unat n) m" for n :: u32
proof -
  have "min (unat n) m \<le> 2 ^ 32 - 1" using unat_less_2p [of n] by simp
  then show ?thesis by (simp add: unat_u32_of)
qed

lemma desc_update_both [simp]: "r\<lparr>addr := addr d, len := len d\<rparr> = d" for r d :: xdp_desc
  by (cases r, cases d) simp

text \<open>Writing consecutive slots from the first one on overwrites them in order.\<close>

lemma ref_fill_writes_aux:
  "unat idx + length as \<le> length (rp_slots p) \<Longrightarrow> unat idx + length as < 2 ^ 32 \<Longrightarrow>
   fill_writes ref_api p idx as =
     p\<lparr>rp_slots := take (unat idx) (rp_slots p) @ map (\<lambda>a. \<lparr>addr = a, len = 0\<rparr>) as
                    @ drop (unat idx + length as) (rp_slots p)\<rparr>"
proof (induction as arbitrary: p idx)
  case Nil
  then show ?case by simp
next
  case (Cons a as)
  have "unat (idx + 1) = Suc (unat idx)"
    using Cons.prems by (intro unat_inc) simp
  then show ?case
    using Cons by (simp add: ref_api_def take_Suc_conv_app_nth)
qed

lemma ref_tx_writes_aux:
  "unat idx + length ds \<le> length (rp_slots p) \<Longrightarrow> unat idx + length ds < 2 ^ 32 \<Longrightarrow>
   tx_writes ref_api p idx ds =
     p\<lparr>rp_slots := take (unat idx) (rp_slots p) @ ds @ drop (unat idx + length ds) (rp_slots p)\<rparr>"
proof (induction ds arbitrary: p idx)
  case Nil
  then show ?case by simp
next
  case (Cons d ds)
  have "unat (idx + 1) = Suc (unat idx)"
    using Cons.prems by (intro unat_inc) simp
  moreover have "tx_write ref_api p idx d = p\<lparr>rp_slots := (rp_slots p)[unat idx := d]\<rparr>"
    using Cons.prems by (simp add: tx_write_def ref_api_def)
  ultimately show ?case
    using Cons by (simp add: take_Suc_conv_app_nth)
qed

lemma unat_u32_bound: "unat n \<le> 4294967295" for n :: u32
  using unat_less_2p [of n] by simp

interpretation ref_rings: xsk_rings ref_api rc_ents rp_ents ref_space "\<lambda>_. {#}"
proof
  fix c c' and n k idx :: u32 and i
  assume "cons_peek ref_api c n = (k, idx, c')" "i < unat k"
  moreover from this have "unat (of_nat i :: u32) = i"
    using unat_less_2p [of k] by (intro unat_of_nat_exact) simp
  ultimately show "cons_rx_desc ref_api c' (idx + of_nat i) = rc_ents c ! i
      \<and> cons_comp_addr ref_api c' (idx + of_nat i) = addr (rc_ents c ! i)"
    by (auto simp: ref_api_def)
next
  fix p p' and n k :: u32
  assume "prod_nb_free ref_api p n = (k, p')" "ref_space p < unat n"
  then show "unat k = ref_space p"
    using unat_less_2p [of n] by (auto simp: ref_api_def unat_u32_of)
next
  fix p p' and n idx :: u32 and as :: "u64 list"
  assume *: "prod_reserve ref_api p n = (n, idx, p')" "unat n \<le> ref_space p" "length as = unat n"
  then show "map addr (rp_ents (prod_submit ref_api (fill_writes ref_api p' idx as) n)) = map addr (rp_ents p) @ as
       \<and> ref_space (prod_submit ref_api (fill_writes ref_api p' idx as) n) = ref_space p - unat n"
    using ref_fill_writes_aux [of idx as p'] unat_less_2p [of n]
    by (auto simp: ref_api_def ref_space_def comp_def)
next
  fix p p' and n idx :: u32 and ds :: "xdp_desc list"
  assume *: "prod_reserve ref_api p n = (n, idx, p')" "unat n \<le> ref_space p" "length ds = unat n"
  then show "rp_ents (prod_submit ref_api (tx_writes ref_api p' idx ds) n) = rp_ents p @ ds
       \<and> ref_space (prod_submit ref_api (tx_writes ref_api p' idx ds) n) = ref_space p - unat n"
    using ref_tx_writes_aux [of idx ds p'] unat_less_2p [of n]
    by (auto simp: ref_api_def ref_space_def)
qed (auto simp: ref_api_def ref_space_def unat_u32_of word_le_nat_alt word_less_nat_alt unat_u32_bound
       min_def less_imp_le_nat dest: arg_cong [where f = unat] split: if_splits)

end
