(* ===== verification/AfxdpDatapath.thy ===== *)
theory AfxdpDatapath
  imports UmemFrames XskRings
begin

text \<open>
  The AF\_XDP datapath of \<^verbatim>\<open>onvm_afxdp.c\<close>: draining of the completion ring, transmission of one
  packet, the receive step (refill of the fill ring, batch transmission, release) and the
  polling loop. An assertion failure is \<open>None\<close>. The loops over ring entries are recursions on
  the number of entries left, with the C index variable advancing by one; they are shown equal
  to runs of the frame allocator and to consecutive ring writes, and the receive step is then
  specified by what it does to the entries of the rings and to the pool of free frames.
\<close>

section \<open>Operations\<close>

subsection \<open>afxdp\_complete\_tx\<close>

primrec comp_free_loop ::
  "('p, 'c, 'k) xsk_api \<Rightarrow> nat \<Rightarrow> u32 \<Rightarrow> ('p, 'c, 'k) afxdp_socket_info \<Rightarrow> ('p, 'c, 'k) afxdp_socket_info option" where
  "comp_free_loop api 0 idx_cq x = Some x"
| "comp_free_loop api (Suc n) idx_cq x =
     Option.bind (afxdp_free_umem_frame x (cons_comp_addr api (cq (umem x)) idx_cq))
       (comp_free_loop api n (idx_cq + 1))"

definition afxdp_complete_tx ::
  "('p, 'c, 'k) xsk_api \<Rightarrow> ('p, 'c, 'k) afxdp_socket_info \<Rightarrow> ('p, 'c, 'k) afxdp_socket_info option" where
  "afxdp_complete_tx api x =
     (if outstanding_tx x = 0 then Some x
      else
        let (k, t, c) = kick_tx api (xsk x) (tx x) (cq (umem x));
            (completed, idx_cq, c1) = cons_peek api c (of_nat AFXDP_COMP_RING_SIZE);
            x1 = x\<lparr>xsk := k, tx := t, umem := (umem x)\<lparr>cq := c1\<rparr>\<rparr>
        in if completed > 0 then
             Option.bind (comp_free_loop api (unat completed) idx_cq x1) (\<lambda>y.
               Some (y\<lparr>umem := (umem y)\<lparr>cq := cons_release api (cq (umem y)) completed\<rparr>,
                       outstanding_tx := outstanding_tx y
                         - (if completed < outstanding_tx y then completed else outstanding_tx y)\<rparr>))
           else Some x1)"

subsection \<open>afxdp\_process\_packet\<close>

definition add_tx_stats :: "u32 \<Rightarrow> afxdp_stats_record \<Rightarrow> afxdp_stats_record" where
  "add_tx_stats l st = st\<lparr>tx_bytes := tx_bytes st + ucast l, tx_packets := tx_packets st + 1\<rparr>"

definition afxdp_process_packet ::
  "('p, 'c, 'k) xsk_api \<Rightarrow> ('p, 'c, 'k) afxdp_socket_info \<Rightarrow> u64 \<Rightarrow> u32 \<Rightarrow> bool \<times> ('p, 'c, 'k) afxdp_socket_info" where
  "afxdp_process_packet api x a l =
     (let (ret, tx_idx, t) = prod_reserve api (tx x) 1 in
      if ret \<noteq> 1 then (False, x\<lparr>tx := t\<rparr>)
      else
        let t1 = prod_set_tx_addr api t tx_idx a;
            t2 = prod_set_tx_len api t1 tx_idx l;
            t3 = prod_submit api t2 1
        in (True, x\<lparr>tx := t3, outstanding_tx := outstanding_tx x + 1, stats := add_tx_stats l (stats x)\<rparr>))"

subsection \<open>afxdp\_handle\_receive\<close>

text \<open>Step 3: the refill of the fill ring, with its retry loop.\<close>

partial_function (option) reserve_retry ::
  "('p, 'c, 'k) xsk_api \<Rightarrow> 'p \<Rightarrow> u32 \<Rightarrow> (u32 \<times> 'p) option" where
  "reserve_retry api p n =
     (let (ret, idx, q) = prod_reserve api p n in
      if ret = n then Some (idx, q) else reserve_retry api q n)"

primrec fill_loop ::
  "('p, 'c, 'k) xsk_api \<Rightarrow> nat \<Rightarrow> u32 \<Rightarrow> ('p, 'c, 'k) afxdp_socket_info \<Rightarrow> ('p, 'c, 'k) afxdp_socket_info" where
  "fill_loop api 0 idx_fq x = x"
| "fill_loop api (Suc n) idx_fq x =
     (let (frame, x1) = afxdp_alloc_umem_frame x
      in fill_loop api n (idx_fq + 1)
           (x1\<lparr>umem := (umem x1)\<lparr>fq := prod_set_fill_addr api (fq (umem x1)) idx_fq frame\<rparr>\<rparr>))"

definition refill_fill_ring ::
  "('p, 'c, 'k) xsk_api \<Rightarrow> ('p, 'c, 'k) afxdp_socket_info \<Rightarrow> ('p, 'c, 'k) afxdp_socket_info option" where
  "refill_fill_ring api x =
     (let (stock_frames, p) = prod_nb_free api (fq (umem x)) (ucast (afxdp_umem_free_frames x)) in
      if stock_frames > 0 then
        Option.bind (reserve_retry api p stock_frames) (\<lambda>(idx_fq, q).
          let y = fill_loop api (unat stock_frames) idx_fq (x\<lparr>umem := (umem x)\<lparr>fq := q\<rparr>\<rparr>)
          in Some (y\<lparr>umem := (umem y)\<lparr>fq := prod_submit api (fq (umem y)) stock_frames\<rparr>\<rparr>))
      else Some (x\<lparr>umem := (umem x)\<lparr>fq := p\<rparr>\<rparr>))"

text \<open>Step 4: the batch transmission.\<close>

primrec tx_loop ::
  "('p, 'c, 'k) xsk_api \<Rightarrow> nat \<Rightarrow> u32 \<Rightarrow> u32 \<Rightarrow> ('p, 'c, 'k) afxdp_socket_info \<Rightarrow> ('p, 'c, 'k) afxdp_socket_info" where
  "tx_loop api 0 idx_rx idx_tx x = x"
| "tx_loop api (Suc n) idx_rx idx_tx x =
     (let a = addr (cons_rx_desc api (rx x) idx_rx);
          l = len (cons_rx_desc api (rx x) idx_rx);
          t = prod_set_tx_len api (prod_set_tx_addr api (tx x) idx_tx a) idx_tx l;
          st = stats x
      in tx_loop api n (idx_rx + 1) (idx_tx + 1)
           (x\<lparr>tx := t,
              stats := add_tx_stats l (st\<lparr>rx_bytes := rx_bytes st + ucast l\<rparr>)\<rparr>))"

definition batch_tx ::
  "('p, 'c, 'k) xsk_api \<Rightarrow> u32 \<Rightarrow> u32 \<Rightarrow> ('p, 'c, 'k) afxdp_socket_info \<Rightarrow> u32 \<times> ('p, 'c, 'k) afxdp_socket_info" where
  "batch_tx api rcvd idx_rx x =
     (let (tx_avail, t) = prod_nb_free api (tx x) rcvd;
          to_tx = (if tx_avail < rcvd then tx_avail else rcvd)
      in if to_tx > 0 then
           let (ret, idx_tx, t1) = prod_reserve api t to_tx;
               y = tx_loop api (unat to_tx) idx_rx idx_tx (x\<lparr>tx := t1\<rparr>)
           in (to_tx, y\<lparr>tx := prod_submit api (tx y) to_tx, outstanding_tx := outstanding_tx y + to_tx\<rparr>)
         else (to_tx, x\<lparr>tx := t\<rparr>))"

text \<open>The frames of the packets that did not fit in the TX ring go back to the pool.\<close>

primrec rx_free_loop ::
  "('p, 'c, 'k) xsk_api \<Rightarrow> nat \<Rightarrow> u32 \<Rightarrow> ('p, 'c, 'k) afxdp_socket_info \<Rightarrow> ('p, 'c, 'k) afxdp_socket_info option" where
  "rx_free_loop api 0 idx_rx x = Some x"
| "rx_free_loop api (Suc n) idx_rx x =
     (let a = addr (cons_rx_desc api (rx x) idx_rx);
          l = len (cons_rx_desc api (rx x) idx_rx)
      in Option.bind (afxdp_free_umem_frame x a) (\<lambda>y.
           rx_free_loop api n (idx_rx + 1)
             (y\<lparr>stats := (stats y)\<lparr>rx_bytes := rx_bytes (stats y) + ucast l\<rparr>\<rparr>)))"

definition receive_step ::
  "('p, 'c, 'k) xsk_api \<Rightarrow> ('p, 'c, 'k) afxdp_socket_info \<Rightarrow> ('p, 'c, 'k) afxdp_socket_info option" where
  "receive_step api x0 =
     Option.bind (afxdp_complete_tx api x0) (\<lambda>x.
       let (rcvd, idx_rx, c) = cons_peek api (rx x) (of_nat AFXDP_RX_BATCH_SIZE);
           x1 = x\<lparr>rx := c\<rparr>
       in if rcvd = 0 then Some x1
          else
            Option.bind (refill_fill_ring api x1) (\<lambda>x2.
              let (to_tx, x3) = batch_tx api rcvd idx_rx x2 in
              Option.bind (rx_free_loop api (unat (rcvd - to_tx)) (idx_rx + to_tx) x3) (\<lambda>x4.
                Some (x4\<lparr>rx := cons_release api (rx x4) rcvd,
                         stats := (stats x4)\<lparr>rx_packets := rx_packets (stats x4) + ucast rcvd\<rparr>\<rparr>))))"

definition afxdp_handle_receive ::
  "('p, 'c, 'k) xsk_api \<Rightarrow> ('p, 'c, 'k) afxdp_manager_ctx \<Rightarrow> ('p, 'c, 'k) afxdp_manager_ctx option" where
  "afxdp_handle_receive api ctx =
     Option.bind (xsk_socket ctx) (\<lambda>x.
       Option.bind (receive_step api x) (\<lambda>y. Some (ctx\<lparr>xsk_socket := Some y\<rparr>)))"

section \<open>The loops as allocator runs and ring writes\<close>

definition desc_bytes :: "xdp_desc list \<Rightarrow> u64" where
  "desc_bytes ds = (\<Sum>d\<leftarrow>ds. ucast (len d))"

lemma desc_bytes_simps [simp]:
  "desc_bytes [] = 0" "desc_bytes (d # ds) = ucast (len d) + desc_bytes ds"
  "desc_bytes (ds @ es) = desc_bytes ds + desc_bytes es"
  by (simp_all add: desc_bytes_def)

text \<open>The descriptors of a consumer ring from an index on.\<close>

definition descs_at :: "('p, 'c, 'k) xsk_api \<Rightarrow> 'c \<Rightarrow> u32 \<Rightarrow> nat \<Rightarrow> xdp_desc list" where
  "descs_at api c idx n = map (\<lambda>i. cons_rx_desc api c (idx + of_nat i)) [0..<n]"

lemma descs_at_0 [simp]: "descs_at api c idx 0 = []"
  by (simp add: descs_at_def)

lemma length_descs_at [simp]: "length (descs_at api c idx n) = n"
  by (simp add: descs_at_def)

lemma descs_at_Suc [simp]:
  "descs_at api c idx (Suc n) = cons_rx_desc api c idx # descs_at api c (idx + 1) n"
  unfolding descs_at_def upt_map_Suc by (simp add: add.assoc)

lemma alloc_umem_commute:
  "afxdp_alloc_umem_frame (x\<lparr>umem := u\<rparr>) =
     (fst (afxdp_alloc_umem_frame x), (snd (afxdp_alloc_umem_frame x))\<lparr>umem := u\<rparr>)"
  by (simp add: afxdp_alloc_umem_frame_def Let_def)

lemma alloc_many_umem_commute:
  "alloc_many afxdp_alloc_umem_frame n (x\<lparr>umem := u\<rparr>) =
     (fst (alloc_many afxdp_alloc_umem_frame n x), (snd (alloc_many afxdp_alloc_umem_frame n x))\<lparr>umem := u\<rparr>)"
  by (induction n arbitrary: x) (simp_all add: alloc_umem_commute split_beta Let_def)

lemma alloc_many_unchanged [frame_rules]:
  "rx (snd (alloc_many afxdp_alloc_umem_frame n x)) = rx x"
  "tx (snd (alloc_many afxdp_alloc_umem_frame n x)) = tx x"
  "umem (snd (alloc_many afxdp_alloc_umem_frame n x)) = umem x"
  "xsk (snd (alloc_many afxdp_alloc_umem_frame n x)) = xsk x"
  "outstanding_tx (snd (alloc_many afxdp_alloc_umem_frame n x)) = outstanding_tx x"
  "stats (snd (alloc_many afxdp_alloc_umem_frame n x)) = stats x"
  by (induction n arbitrary: x) (simp_all add: split_beta Let_def frame_rules)

lemma free_many_unchanged [frame_rules]:
  assumes "free_many afxdp_free_umem_frame x fs = Some y"
  shows "rx y = rx x" "tx y = tx x" "umem y = umem x" "xsk y = xsk x"
    "outstanding_tx y = outstanding_tx x" "stats y = stats x"
  using assms by (induction fs arbitrary: x) (auto split: Option.bind_splits simp: frame_rules)

lemma free_stats_commute:
  "afxdp_free_umem_frame (x\<lparr>stats := s\<rparr>) f = map_option (\<lambda>y. y\<lparr>stats := s\<rparr>) (afxdp_free_umem_frame x f)"
  by (simp add: afxdp_free_umem_frame_def)

lemma free_many_stats_commute:
  "free_many afxdp_free_umem_frame (x\<lparr>stats := s\<rparr>) fs =
     map_option (\<lambda>y. y\<lparr>stats := s\<rparr>) (free_many afxdp_free_umem_frame x fs)"
proof (induction fs arbitrary: x)
  case (Cons f fs)
  then show ?case by (cases "afxdp_free_umem_frame x f") (simp_all add: free_stats_commute)
qed simp

lemma comp_free_loop_run:
  "comp_free_loop api n idx x =
     free_many afxdp_free_umem_frame x (map (\<lambda>i. cons_comp_addr api (cq (umem x)) (idx + of_nat i)) [0..<n])"
proof (induction n arbitrary: idx x)
  case (Suc n)
  show ?case
    unfolding upt_map_Suc
    by (auto simp: Suc.IH frame_rules add.assoc intro!: bind_option_cong)
qed simp

lemma fill_loop_run:
  "fill_loop api n idx x =
     (let (fs, y) = alloc_many afxdp_alloc_umem_frame n x
      in y\<lparr>umem := (umem x)\<lparr>fq := fill_writes api (fq (umem x)) idx fs\<rparr>\<rparr>)"
  by (induction n arbitrary: idx x)
    (simp_all add: split_beta Let_def alloc_many_umem_commute frame_rules)

lemma tx_loop_run:
  "tx_loop api n idx_rx idx_tx x =
     (let ds = descs_at api (rx x) idx_rx n in
      x\<lparr>tx := tx_writes api (tx x) idx_tx ds,
        stats := (stats x)\<lparr>rx_bytes := rx_bytes (stats x) + desc_bytes ds,
                           tx_bytes := tx_bytes (stats x) + desc_bytes ds,
                           tx_packets := tx_packets (stats x) + of_nat n\<rparr>\<rparr>)"
  by (induction n arbitrary: idx_rx idx_tx x)
    (simp_all add: Let_def tx_write_def add_tx_stats_def algebra_simps)

lemma rx_free_loop_run:
  "rx_free_loop api n idx_rx x =
     (let ds = descs_at api (rx x) idx_rx n in
      Option.bind (free_many afxdp_free_umem_frame x (map addr ds)) (\<lambda>y.
        Some (y\<lparr>stats := (stats x)\<lparr>rx_bytes := rx_bytes (stats x) + desc_bytes ds\<rparr>\<rparr>)))"
proof (induction n arbitrary: idx_rx x)
  case (Suc n)
  show ?case
  proof (cases "afxdp_free_umem_frame x (addr (cons_rx_desc api (rx x) idx_rx))")
    case (Some y)
    then show ?thesis
      by (simp add: Suc.IH Let_def free_frame_unchanged [OF Some] free_many_stats_commute add.assoc
            Option.bind_map_option comp_def)
  qed (simp add: Let_def)
qed simp

section \<open>Frame accounting\<close>

text \<open>All frames of a socket: in the free pool, in one of the four rings, or held by the kernel.\<close>

definition addrs_of :: "xdp_desc list \<Rightarrow> u64 multiset" where
  "addrs_of ds = image_mset addr (mset ds)"

lemma addrs_of_simps [simp]:
  "addrs_of [] = {#}" "addrs_of (d # ds) = add_mset (addr d) (addrs_of ds)"
  "addrs_of (ds @ es) = addrs_of ds + addrs_of es" "size (addrs_of ds) = length ds"
  "image_mset addr (mset ds) = addrs_of ds"
  by (simp_all add: addrs_of_def)

lemma addrs_of_take_drop: "addrs_of (take n ds) + addrs_of (drop n ds) = addrs_of ds"
  by (metis addrs_of_simps(3) append_take_drop_id)

definition kernel_frames ::
  "('c \<Rightarrow> xdp_desc list) \<Rightarrow> ('p \<Rightarrow> xdp_desc list) \<Rightarrow> ('k \<Rightarrow> u64 multiset)
    \<Rightarrow> ('p, 'c, 'k) afxdp_socket_info \<Rightarrow> u64 multiset" where
  "kernel_frames cents pents kframes x =
     addrs_of (pents (fq (umem x))) + addrs_of (cents (rx x)) + addrs_of (pents (tx x))
     + addrs_of (cents (cq (umem x))) + kframes (xsk x)"

definition all_frames ::
  "('c \<Rightarrow> xdp_desc list) \<Rightarrow> ('p \<Rightarrow> xdp_desc list) \<Rightarrow> ('k \<Rightarrow> u64 multiset)
    \<Rightarrow> ('p, 'c, 'k) afxdp_socket_info \<Rightarrow> u64 multiset" where
  "all_frames cents pents kframes x = mset (free_frames x) + kernel_frames cents pents kframes x"

text \<open>The frames anywhere but in the fill ring.\<close>

definition beyond_fill ::
  "('c \<Rightarrow> xdp_desc list) \<Rightarrow> ('p \<Rightarrow> xdp_desc list) \<Rightarrow> ('k \<Rightarrow> u64 multiset)
    \<Rightarrow> ('p, 'c, 'k) afxdp_socket_info \<Rightarrow> u64 multiset" where
  "beyond_fill cents pents kframes x =
     mset (free_frames x) + addrs_of (cents (rx x)) + addrs_of (pents (tx x))
     + addrs_of (cents (cq (umem x))) + kframes (xsk x)"

lemma all_frames_split:
  "all_frames cents pents kframes x = addrs_of (pents (fq (umem x))) + beyond_fill cents pents kframes x"
  by (simp add: all_frames_def kernel_frames_def beyond_fill_def ac_simps)

lemma free_frames_cong:
  "umem_frame_addr y = umem_frame_addr x \<Longrightarrow> umem_frame_free y = umem_frame_free x \<Longrightarrow>
   free_frames y = free_frames x \<and> umem_wf y = umem_wf x"
  by (simp add: free_frames_def umem_wf_def)

lemma free_frames_update [simp]:
  "free_frames (x\<lparr>rx := a\<rparr>) = free_frames x" "free_frames (x\<lparr>tx := b\<rparr>) = free_frames x"
  "free_frames (x\<lparr>umem := u\<rparr>) = free_frames x" "free_frames (x\<lparr>xsk := k\<rparr>) = free_frames x"
  "free_frames (x\<lparr>outstanding_tx := n\<rparr>) = free_frames x" "free_frames (x\<lparr>stats := st\<rparr>) = free_frames x"
  "umem_wf (x\<lparr>rx := a\<rparr>) = umem_wf x" "umem_wf (x\<lparr>tx := b\<rparr>) = umem_wf x"
  "umem_wf (x\<lparr>umem := u\<rparr>) = umem_wf x" "umem_wf (x\<lparr>xsk := k\<rparr>) = umem_wf x"
  "umem_wf (x\<lparr>outstanding_tx := n\<rparr>) = umem_wf x" "umem_wf (x\<lparr>stats := st\<rparr>) = umem_wf x"
  by (simp_all add: free_frames_def umem_wf_def)

text \<open>What one receive step adds to the statistics: every packet is received, the first \<open>t\<close> are sent.\<close>

definition rx_account :: "xdp_desc list \<Rightarrow> nat \<Rightarrow> afxdp_stats_record \<Rightarrow> afxdp_stats_record" where
  "rx_account ds t st = st\<lparr>rx_packets := rx_packets st + of_nat (length ds), rx_bytes := rx_bytes st + desc_bytes ds,
     tx_packets := tx_packets st + of_nat t, tx_bytes := tx_bytes st + desc_bytes (take t ds)\<rparr>"

context xsk_rings
begin

abbreviation frames_total :: "('p, 'c, 'k) afxdp_socket_info \<Rightarrow> u64 multiset" where
  "frames_total \<equiv> all_frames cents pents kframes"

abbreviation prod_size :: "'p \<Rightarrow> nat" where
  "prod_size p \<equiv> length (pents p) + pspace p"

lemma peek_descs:
  assumes "cons_peek api c n = (k, idx, c')"
  shows "descs_at api c' idx (unat k) = take (unat k) (cents c)"
    "map (\<lambda>i. cons_comp_addr api c' (idx + of_nat i)) [0..<unat k] = map addr (take (unat k) (cents c))"
  using peek_desc [OF assms] peek_bound [OF assms]
  by (auto simp: descs_at_def list_eq_iff_nth_eq)

text \<open>
  Draining completions never trips the assertion while the pool has room for every frame that
  may complete; it moves frames between kernel, completion ring and pool only.
\<close>

lemma complete_tx_ok:
  assumes wf: "umem_wf x"
    and room: "length (free_frames x) + length (pents (tx x)) + length (cents (cq (umem x)))
                 + size (kframes (xsk x)) \<le> AFXDP_NUM_FRAMES"
  shows "\<exists>y. afxdp_complete_tx api x = Some y \<and> umem_wf y \<and> rx y = rx x \<and> fq (umem y) = fq (umem x)
           \<and> stats y = stats x \<and> prod_size (tx y) = prod_size (tx x) \<and> frames_total y = frames_total x
           \<and> outstanding_tx y \<le> outstanding_tx x \<and> (\<exists>fs. free_frames y = free_frames x @ fs)"
proof (cases "outstanding_tx x = 0")
  case True
  then show ?thesis using wf by (simp add: afxdp_complete_tx_def)
next
  case False
  obtain k t c where kick: "kick_tx api (xsk x) (tx x) (cq (umem x)) = (k, t, c)"
    by (metis prod_cases3)
  obtain n idx c1 where peek: "cons_peek api c (of_nat AFXDP_COMP_RING_SIZE) = (n, idx, c1)"
    by (metis prod_cases3)
  let ?x1 = "x\<lparr>xsk := k, tx := t, umem := (umem x)\<lparr>cq := c1\<rparr>\<rparr>"
  have cons: "addrs_of (pents t) + addrs_of (cents c) + kframes k =
      addrs_of (pents (tx x)) + addrs_of (cents (cq (umem x))) + kframes (xsk x)"
    using kick_conserves [OF kick] by simp
  note room_t = kick_tx_room [OF kick] and rel = peek_release [OF peek] and bnd = peek_bound [OF peek]
  show ?thesis
  proof (cases "n = 0")
    case True
    then have "cents c = []" "cents c1 = []"
      using peek_empty [of c "of_nat AFXDP_COMP_RING_SIZE" idx c1] peek bnd
      by (simp_all add: AFXDP_COMP_RING_SIZE_def)
    then show ?thesis
      using False True wf kick peek cons room_t
      by (simp add: afxdp_complete_tx_def all_frames_def kernel_frames_def)
  next
    case nz: False
    have fs: "map (\<lambda>i. cons_comp_addr api (cq (umem ?x1)) (idx + of_nat i)) [0..<unat n]
        = map addr (take (unat n) (cents c))"
      using peek_descs(2) [OF peek] by simp
    have "size (addrs_of (pents t) + addrs_of (cents c) + kframes k) + length (free_frames x) \<le> AFXDP_NUM_FRAMES"
      unfolding cons using room by simp
    then have "length (free_frames ?x1) + length (map addr (take (unat n) (cents c))) \<le> AFXDP_NUM_FRAMES"
      by simp
    then obtain y where y: "free_many afxdp_free_umem_frame ?x1 (map addr (take (unat n) (cents c))) = Some y"
      "free_frames y = free_frames x @ map addr (take (unat n) (cents c))" "umem_wf y"
      using umem_pool.free_many_room [of ?x1 "map addr (take (unat n) (cents c))"] wf by auto
    have run: "comp_free_loop api (unat n) idx ?x1 = Some y"
      unfolding comp_free_loop_run fs by (rule y(1))
    have sub: "outstanding_tx x - (if n < outstanding_tx x then n else outstanding_tx x) \<le> outstanding_tx x"
      by (auto simp: word_le_nat_alt word_less_nat_alt unat_minus_exact less_imp_le)
    have total: "mset (free_frames y) + addrs_of (pents t) + addrs_of (drop (unat n) (cents c)) + kframes k
        = mset (free_frames x) + addrs_of (pents (tx x)) + addrs_of (cents (cq (umem x))) + kframes (xsk x)"
      (is "?l = ?r")
    proof -
      have "?l = mset (free_frames x) + (addrs_of (pents t) + (addrs_of (take (unat n) (cents c))
          + addrs_of (drop (unat n) (cents c))) + kframes k)"
        by (simp only: y(2) mset_append mset_map addrs_of_simps add.assoc add.left_commute)
      also have "\<dots> = ?r" unfolding addrs_of_take_drop cons by (simp only: add.assoc)
      finally show ?thesis .
    qed
    let ?d = "if n < outstanding_tx x then n else outstanding_tx x"
    let ?z = "y\<lparr>umem := (umem y)\<lparr>cq := cons_release api c1 n\<rparr>, outstanding_tx := outstanding_tx x - ?d\<rparr>"
    have "afxdp_complete_tx api x = Some ?z"
      using False nz kick peek run free_many_unchanged(3,5) [OF y(1)]
      by (simp add: afxdp_complete_tx_def word_neq_0_conv)
    moreover have "frames_total ?z = frames_total x"
      using free_many_unchanged [OF y(1)] rel
        arg_cong [OF total, of "\<lambda>m. m + addrs_of (pents (fq (umem x))) + addrs_of (cents (rx x))"]
      by (simp add: all_frames_def kernel_frames_def add.assoc add.left_commute add.commute)
    ultimately show ?thesis
      using y(2,3) free_many_unchanged [OF y(1)] room_t sub by (intro exI [where x = ?z]) simp
  qed
qed

text \<open>
  The refill asks for at most the free slots of the fill ring, so its first reservation succeeds
  and the retry loop ends at once. It writes frames of the pool, newest first, and
  \<^term>\<open>AFXDP_INVALID_UMEM_FRAME\<close> when it asked for more than the pool holds.
\<close>

lemma reserve_retry_first:
  assumes "unat n \<le> pspace p"
  shows "\<exists>idx q. reserve_retry api p n = Some (idx, q) \<and> prod_reserve api p n = (n, idx, q)"
proof -
  obtain r idx q where res: "prod_reserve api p n = (r, idx, q)" by (metis prod_cases3)
  then have "r = n" using reserve_room assms by blast
  with res show ?thesis by (simp add: reserve_retry.simps)
qed

lemma refill_exact:
  assumes wf: "umem_wf x" and nb: "prod_nb_free api (fq (umem x)) (umem_frame_free x) = (k, p)"
  shows "\<exists>y. refill_fill_ring api x = Some y \<and> umem_wf y
      \<and> map addr (pents (fq (umem y))) =
          map addr (pents (fq (umem x))) @ fst (alloc_many afxdp_alloc_umem_frame (unat k) x)
      \<and> free_frames y = free_frames (snd (alloc_many afxdp_alloc_umem_frame (unat k) x))
      \<and> pspace (fq (umem y)) = pspace (fq (umem x)) - unat k
      \<and> rx y = rx x \<and> tx y = tx x \<and> cq (umem y) = cq (umem x) \<and> xsk y = xsk x \<and> stats y = stats x
      \<and> outstanding_tx y = outstanding_tx x"
proof -
  have small: "ucast (afxdp_umem_free_frames x) = umem_frame_free x"
    by (simp add: afxdp_umem_free_frames_def)
  have same: "pents p = pents (fq (umem x))" "pspace p = pspace (fq (umem x))"
    using nb_free_same [OF nb] by simp_all
  have le: "unat k \<le> pspace (fq (umem x))" by (rule nb_free_bound [OF nb])
  show ?thesis
  proof (cases "k = 0")
    case True
    then show ?thesis
      using nb same wf le by (intro exI [where x = "x\<lparr>umem := (umem x)\<lparr>fq := p\<rparr>\<rparr>"])
        (simp add: refill_fill_ring_def small)
  next
    case False
    obtain idx q where q: "reserve_retry api p k = Some (idx, q)" "prod_reserve api p k = (k, idx, q)"
      using reserve_retry_first [of k p] le same by auto
    let ?fs = "fst (alloc_many afxdp_alloc_umem_frame (unat k) x)"
    let ?z = "snd (alloc_many afxdp_alloc_umem_frame (unat k) x)"
    let ?y = "?z\<lparr>umem := (umem x)\<lparr>fq := prod_submit api (fill_writes api q idx ?fs) k\<rparr>\<rparr>"
    have "refill_fill_ring api x = Some ?y"
      using nb q(1) False
      by (simp add: refill_fill_ring_def small fill_loop_run Let_def split_beta alloc_many_umem_commute
            word_neq_0_conv)
    moreover have "umem_wf ?z"
      using umem_pool.alloc_many_enough [OF wf, of "unat k"] umem_pool.alloc_many_exhausts [OF wf, of "unat k"]
      by (cases "unat k \<le> length (free_frames x)") simp_all
    moreover have "map addr (pents (prod_submit api (fill_writes api q idx ?fs) k)) = map addr (pents p) @ ?fs"
      "pspace (prod_submit api (fill_writes api q idx ?fs) k) = pspace p - unat k"
      using submit_fill [OF q(2), of ?fs] le same by simp_all
    ultimately show ?thesis
      using le same by (intro exI [where x = ?y]) (simp add: frame_rules)
  qed
qed

text \<open>The batch transmission forwards as many of the received descriptors, in order, as the TX ring has room for.\<close>

lemma batch_tx_spec:
  assumes ds: "descs_at api (rx x) idx_rx (unat rcvd) = ds"
  defines "t \<equiv> min (unat rcvd) (pspace (tx x))"
  shows "\<exists>y. batch_tx api rcvd idx_rx x = (of_nat t, y)
      \<and> pents (tx y) = pents (tx x) @ take t ds \<and> pspace (tx y) = pspace (tx x) - t
      \<and> stats y = (stats x)\<lparr>rx_bytes := rx_bytes (stats x) + desc_bytes (take t ds),
                            tx_bytes := tx_bytes (stats x) + desc_bytes (take t ds),
                            tx_packets := tx_packets (stats x) + of_nat t\<rparr>
      \<and> outstanding_tx y = outstanding_tx x + of_nat t
      \<and> rx y = rx x \<and> umem y = umem x \<and> xsk y = xsk x
      \<and> free_frames y = free_frames x \<and> umem_wf y = umem_wf x"
proof -
  obtain k p where nb: "prod_nb_free api (tx x) rcvd = (k, p)" by (metis surj_pair)
  define m where "m = (if k < rcvd then k else rcvd)"
  have same: "pents p = pents (tx x)" "pspace p = pspace (tx x)"
    using nb_free_same [OF nb] by simp_all
  have m: "unat m = t"
    using nb_free_bound [OF nb] nb_free_enough [OF nb] nb_free_short [OF nb]
    by (cases "unat rcvd \<le> pspace (tx x)")
      (auto simp: m_def t_def word_less_nat_alt word_le_nat_alt min_def)
  then have m': "of_nat t = m" by auto
  have take_ds: "descs_at api (rx x) idx_rx t = take t ds"
    unfolding ds [symmetric] descs_at_def by (simp add: take_map t_def min_def)
  show ?thesis
  proof (cases "m = 0")
    case True
    then have "t = 0" using m by simp
    moreover from True have "batch_tx api rcvd idx_rx x = (m, x\<lparr>tx := p\<rparr>)"
      using nb by (simp add: batch_tx_def m_def [symmetric])
    ultimately show ?thesis using same m' by simp
  next
    case False
    have room: "unat m \<le> pspace p" using m same by (simp add: t_def)
    obtain r idx q where res: "prod_reserve api p m = (r, idx, q)" by (metis prod_cases3)
    with room have q: "prod_reserve api p m = (m, idx, q)" using reserve_room by blast
    have sub: "pents (prod_submit api (tx_writes api q idx (take t ds)) m) = pents p @ take t ds"
      "pspace (prod_submit api (tx_writes api q idx (take t ds)) m) = pspace p - t"
      using submit_tx [OF q room, of "take t ds"] m by (simp_all add: ds [symmetric] t_def)
    show ?thesis
      using nb q False sub same m
      by (simp add: batch_tx_def m_def [symmetric] tx_loop_run Let_def take_ds word_neq_0_conv m')
  qed
qed

lemma rx_free_spec:
  assumes wf: "umem_wf x" and room: "length (free_frames x) + n \<le> AFXDP_NUM_FRAMES"
    and ds: "descs_at api (rx x) idx n = ds"
  shows "\<exists>y. rx_free_loop api n idx x = Some y \<and> umem_wf y \<and> free_frames y = free_frames x @ map addr ds
     \<and> stats y = (stats x)\<lparr>rx_bytes := rx_bytes (stats x) + desc_bytes ds\<rparr>
     \<and> rx y = rx x \<and> tx y = tx x \<and> umem y = umem x \<and> xsk y = xsk x \<and> outstanding_tx y = outstanding_tx x"
proof -
  have "length ds = n" using ds by auto
  then obtain y where "free_many afxdp_free_umem_frame x (map addr ds) = Some y"
    "free_frames y = free_frames x @ map addr ds" "umem_wf y"
    using umem_pool.free_many_room [of x "map addr ds"] wf room by auto
  then show ?thesis
    using free_many_unchanged [of x "map addr ds" y] by (simp add: rx_free_loop_run ds Let_def)
qed

lemma refill_frames:
  assumes "umem_wf x"
  shows "\<exists>y j. refill_fill_ring api x = Some y \<and> umem_wf y
      \<and> frames_total y = frames_total x + replicate_mset j AFXDP_INVALID_UMEM_FRAME
      \<and> (pspace (fq (umem x)) \<le> length (free_frames x) \<longrightarrow> j = 0)
      \<and> mset (free_frames y) \<subseteq># mset (free_frames x)
      \<and> prod_size (fq (umem y)) = prod_size (fq (umem x))
      \<and> rx y = rx x \<and> tx y = tx x \<and> cq (umem y) = cq (umem x) \<and> xsk y = xsk x \<and> stats y = stats x
      \<and> outstanding_tx y = outstanding_tx x"
proof -
  let ?n = "length (free_frames x)" and ?s = "pspace (fq (umem x))"
  obtain w p where nb: "prod_nb_free api (fq (umem x)) (umem_frame_free x) = (w, p)" by (metis surj_pair)
  define k where "k = unat w"
  have k: "k \<le> ?s" using nb_free_bound [OF nb] by (simp add: k_def)
  obtain y where y: "refill_fill_ring api x = Some y" "umem_wf y"
    "map addr (pents (fq (umem y))) =
       map addr (pents (fq (umem x))) @ fst (alloc_many afxdp_alloc_umem_frame k x)"
    "free_frames y = free_frames (snd (alloc_many afxdp_alloc_umem_frame k x))"
    "pspace (fq (umem y)) = ?s - k"
    and rest: "rx y = rx x" "tx y = tx x" "cq (umem y) = cq (umem x)" "xsk y = xsk x" "stats y = stats x"
      "outstanding_tx y = outstanding_tx x"
    using refill_exact [OF assms nb] unfolding k_def by blast
  let ?fs = "fst (alloc_many afxdp_alloc_umem_frame k x)"
  have pool: "mset ?fs + mset (free_frames y) = mset (free_frames x) + replicate_mset (k - ?n) AFXDP_INVALID_UMEM_FRAME
      \<and> mset (free_frames y) \<subseteq># mset (free_frames x)"
  proof (cases "k \<le> ?n")
    case True
    have "mset (free_frames y) \<subseteq># mset ?fs + mset (free_frames y)" by simp
    then show ?thesis
      using umem_pool.alloc_many_mset [OF assms True] y(4) True by simp
  next
    case False
    then show ?thesis using umem_pool.alloc_many_exhausts [OF assms, of k] y(4) by simp
  qed
  have fq: "addrs_of (pents (fq (umem y))) = addrs_of (pents (fq (umem x))) + mset ?fs"
    using arg_cong [OF y(3), of mset] by simp
  have len: "length (pents (fq (umem y))) = length (pents (fq (umem x))) + k"
    using arg_cong [OF y(3), of length] by simp
  have "frames_total y = (mset ?fs + mset (free_frames y)) + kernel_frames cents pents kframes x"
    unfolding all_frames_def kernel_frames_def fq rest by (simp only: ac_simps)
  also have "\<dots> = frames_total x + replicate_mset (k - ?n) AFXDP_INVALID_UMEM_FRAME"
    using pool by (simp add: all_frames_def ac_simps)
  finally show ?thesis
    using y(1,2,5) k rest len pool by (intro exI [where x = y] exI [where x = "k - ?n"]) simp
qed

text \<open>After the refill: forward what fits, free the rest.\<close>

lemma descs_at_drop:
  "t \<le> n \<Longrightarrow> descs_at api c (idx + of_nat t) (n - t) = drop t (descs_at api c idx n)"
  by (simp add: descs_at_def list_eq_iff_nth_eq add.assoc)

lemma descs_at_take: "t \<le> n \<Longrightarrow> take t (descs_at api c idx n) = descs_at api c idx t"
  by (simp add: descs_at_def list_eq_iff_nth_eq)

lemma forward_spec:
  assumes wf: "umem_wf x" and room: "length (free_frames x) + unat k \<le> AFXDP_NUM_FRAMES"
    and ds: "descs_at api (rx x) idx (unat k) = ds"
  defines "t \<equiv> min (unat k) (pspace (tx x))"
  shows "\<exists>w y. batch_tx api k idx x = (of_nat t, w)
     \<and> rx_free_loop api (unat (k - of_nat t)) (idx + of_nat t) w = Some y \<and> umem_wf y
     \<and> free_frames y = free_frames x @ map addr (drop t ds)
     \<and> pents (tx y) = pents (tx x) @ take t ds \<and> pspace (tx y) = pspace (tx x) - t
     \<and> stats y = (stats x)\<lparr>rx_bytes := rx_bytes (stats x) + desc_bytes ds,
          tx_bytes := tx_bytes (stats x) + desc_bytes (take t ds), tx_packets := tx_packets (stats x) + of_nat t\<rparr>
     \<and> outstanding_tx y = outstanding_tx x + of_nat t \<and> rx y = rx x \<and> umem y = umem x \<and> xsk y = xsk x"
proof -
  have t: "t \<le> unat k" by (simp add: t_def)
  have kt: "unat (k - of_nat t) = unat k - t"
    using unat_minus_exact [of "of_nat t" k] unat_of_nat_exact [of t, where 'a = 32] unat_less_2p [of k] t
    by (simp add: word_le_nat_alt)
  obtain w where w: "batch_tx api k idx x = (of_nat t, w)" "pents (tx w) = pents (tx x) @ take t ds"
    "pspace (tx w) = pspace (tx x) - t"
    "stats w = (stats x)\<lparr>rx_bytes := rx_bytes (stats x) + desc_bytes (take t ds),
        tx_bytes := tx_bytes (stats x) + desc_bytes (take t ds), tx_packets := tx_packets (stats x) + of_nat t\<rparr>"
    "outstanding_tx w = outstanding_tx x + of_nat t" "rx w = rx x" "umem w = umem x" "xsk w = xsk x"
    "free_frames w = free_frames x" "umem_wf w"
    using batch_tx_spec [OF ds] wf unfolding t_def by blast
  have rest: "descs_at api (rx w) (idx + of_nat t) (unat k - t) = drop t ds"
    unfolding w(6) ds [symmetric] using t by (rule descs_at_drop)
  have "length (free_frames w) + (unat k - t) \<le> AFXDP_NUM_FRAMES"
    unfolding w(9) using room by linarith
  then obtain y where y: "rx_free_loop api (unat k - t) (idx + of_nat t) w = Some y" "umem_wf y"
    "free_frames y = free_frames x @ map addr (drop t ds)"
    "stats y = (stats w)\<lparr>rx_bytes := rx_bytes (stats w) + desc_bytes (drop t ds)\<rparr>"
    "rx y = rx w" "tx y = tx w" "umem y = umem w" "xsk y = xsk w" "outstanding_tx y = outstanding_tx w"
    using rx_free_spec [OF w(10) _ rest] unfolding w(9) by blast
  have "desc_bytes (take t ds) + desc_bytes (drop t ds) = desc_bytes ds"
    by (metis append_take_drop_id desc_bytes_simps(3))
  then show ?thesis
    using w y kt by (simp add: add.assoc)
qed

text \<open>
  The receive step: with no more frames than the pool can hold it never fails; it takes \<open>r\<close>
  packets from the RX ring, forwards the first \<open>t\<close> of them in order, returns the frames of the
  others to the pool, accounts for all of them, and loses no frame. How full the fill ring is does not
  matter: frames only go from the pool to it.
\<close>

lemma receive_step_spec:
  assumes wf: "umem_wf x" and total: "size (beyond_fill cents pents kframes x) \<le> AFXDP_NUM_FRAMES"
  shows "\<exists>y z r j. receive_step api x = Some y \<and> afxdp_complete_tx api x = Some z \<and> umem_wf y
     \<and> r \<le> AFXDP_RX_BATCH_SIZE \<and> r \<le> length (cents (rx x)) \<and> (r = 0 \<longrightarrow> cents (rx x) = [])
     \<and> cents (rx y) = drop r (cents (rx x))
     \<and> pents (tx y) = pents (tx z) @ take (min r (pspace (tx z))) (cents (rx x))
     \<and> outstanding_tx y = outstanding_tx z + of_nat (min r (pspace (tx z)))
     \<and> stats y = rx_account (take r (cents (rx x))) (min r (pspace (tx z))) (stats x)
     \<and> prod_size (tx y) = prod_size (tx x) \<and> prod_size (fq (umem y)) = prod_size (fq (umem x))
     \<and> frames_total y = frames_total x + replicate_mset j AFXDP_INVALID_UMEM_FRAME
     \<and> (pspace (fq (umem x)) \<le> length (free_frames x) \<longrightarrow> j = 0)
     \<and> beyond_fill cents pents kframes y \<subseteq># beyond_fill cents pents kframes x"
proof -
  have "length (free_frames x) + length (pents (tx x)) + length (cents (cq (umem x)))
      + size (kframes (xsk x)) \<le> AFXDP_NUM_FRAMES"
    using total by (simp add: beyond_fill_def)
  then obtain z fs where z: "afxdp_complete_tx api x = Some z" "umem_wf z" "rx z = rx x"
    "fq (umem z) = fq (umem x)" "stats z = stats x" "prod_size (tx z) = prod_size (tx x)"
    "frames_total z = frames_total x" "free_frames z = free_frames x @ fs"
    using complete_tx_ok [OF wf] by blast
  have bz: "beyond_fill cents pents kframes z = beyond_fill cents pents kframes x"
    using z(4,7) by (simp add: all_frames_split)
  obtain k idx c where peek: "cons_peek api (rx z) (of_nat AFXDP_RX_BATCH_SIZE) = (k, idx, c)"
    by (metis prod_cases3)
  define r where "r = unat k"
  have r: "r \<le> AFXDP_RX_BATCH_SIZE" "r \<le> length (cents (rx x))"
    using peek_bound [OF peek] z(3) by (simp_all add: r_def AFXDP_RX_BATCH_SIZE_def)
  have rel: "cents (cons_release api c k) = drop r (cents (rx x))"
    using peek_release [OF peek] z(3) by (simp add: r_def)
  have ds: "descs_at api c idx (unat k) = take r (cents (rx x))"
    using peek_descs(1) [OF peek] z(3) by (simp add: r_def)
  show ?thesis
  proof (cases "k = 0")
    case True
    have e: "cents (rx x) = []" "cents c = []"
      using peek_empty [of "rx z" "of_nat AFXDP_RX_BATCH_SIZE" idx c] peek True z(3) peek_bound [OF peek]
      by (simp_all add: AFXDP_RX_BATCH_SIZE_def)
    have "receive_step api x = Some (z\<lparr>rx := c\<rparr>)"
      using z(1) peek True by (simp add: receive_step_def)
    moreover have "frames_total (z\<lparr>rx := c\<rparr>) = frames_total x"
      unfolding z(7) [symmetric] using e z(3) by (simp add: all_frames_def kernel_frames_def)
    moreover have "beyond_fill cents pents kframes (z\<lparr>rx := c\<rparr>) = beyond_fill cents pents kframes x"
      unfolding bz [symmetric] using e z(3) by (simp add: beyond_fill_def)
    ultimately show ?thesis
      using z e by (intro exI [where x = "z\<lparr>rx := c\<rparr>"] exI [where x = z] exI [where x = 0])
        (simp add: rx_account_def)
  next
    case False
    let ?x1 = "z\<lparr>rx := c\<rparr>" and ?t = "min r (pspace (tx z))" and ?ds = "take r (cents (rx x))"
    have x1: "umem_wf ?x1" "frames_total ?x1 = frames_total x"
      using z(2,7) peek_bound [OF peek] by (simp_all add: all_frames_def kernel_frames_def)
    obtain x2 j where x2: "refill_fill_ring api ?x1 = Some x2" "umem_wf x2"
      "frames_total x2 = frames_total x + replicate_mset j AFXDP_INVALID_UMEM_FRAME"
      "pspace (fq (umem ?x1)) \<le> length (free_frames ?x1) \<longrightarrow> j = 0"
      "mset (free_frames x2) \<subseteq># mset (free_frames ?x1)"
      "prod_size (fq (umem x2)) = prod_size (fq (umem ?x1))"
      and same2: "rx x2 = rx ?x1" "tx x2 = tx ?x1" "cq (umem x2) = cq (umem ?x1)" "xsk x2 = xsk ?x1"
        "stats x2 = stats ?x1" "outstanding_tx x2 = outstanding_tx ?x1"
      using refill_frames [OF x1(1)] unfolding x1(2) by blast
    have "size (beyond_fill cents pents kframes z) \<le> AFXDP_NUM_FRAMES" using bz total by simp
    then have room: "length (free_frames x2) + unat k \<le> AFXDP_NUM_FRAMES"
      using size_mset_mono [OF x2(5)] r(2) z(3) by (simp add: beyond_fill_def r_def)
    obtain w y where y: "batch_tx api k idx x2 = (of_nat ?t, w)"
      "rx_free_loop api (unat (k - of_nat ?t)) (idx + of_nat ?t) w = Some y" "umem_wf y"
      "free_frames y = free_frames x2 @ map addr (drop ?t ?ds)"
      "pents (tx y) = pents (tx z) @ take ?t ?ds" "pspace (tx y) = pspace (tx z) - ?t"
      "stats y = (stats x)\<lparr>rx_bytes := rx_bytes (stats x) + desc_bytes ?ds,
          tx_bytes := tx_bytes (stats x) + desc_bytes (take ?t ?ds), tx_packets := tx_packets (stats x) + of_nat ?t\<rparr>"
      "outstanding_tx y = outstanding_tx z + of_nat ?t" "rx y = c" "umem y = umem x2" "xsk y = xsk z"
      using forward_spec [OF x2(2) room, of idx ?ds] ds same2 z(5) unfolding r_def [symmetric] by auto
    let ?y = "y\<lparr>rx := cons_release api c k, stats := (stats y)\<lparr>rx_packets := rx_packets (stats y) + ucast k\<rparr>\<rparr>"
    have step: "receive_step api x = Some ?y"
      using z(1) peek False x2(1) y(1,2,9) by (simp add: receive_step_def)
    have "addrs_of (take ?t ?ds) + addrs_of (drop ?t ?ds) + addrs_of (drop r (cents (rx x))) = addrs_of (cents (rx x2))"
      using peek_bound [OF peek] z(3) same2(1) by (simp only: addrs_of_take_drop) simp
    then have tot: "frames_total ?y = frames_total x2"
      using y same2 rel by (simp add: all_frames_def kernel_frames_def ac_simps)
    then have "beyond_fill cents pents kframes ?y = beyond_fill cents pents kframes x2"
      using y(10) by (simp add: all_frames_split)
    moreover have "beyond_fill cents pents kframes x2 \<subseteq># beyond_fill cents pents kframes z"
      using x2(5) same2 z(3) peek_bound [OF peek] by (simp add: beyond_fill_def)
    ultimately have "beyond_fill cents pents kframes ?y \<subseteq># beyond_fill cents pents kframes x"
      using bz by simp
    then show ?thesis
      using step tot x2(3,4,6) y r rel z False
      by (intro exI [where x = ?y] exI [where x = z] exI [where x = r] exI [where x = j])
        (simp add: rx_account_def unat_eq_0 r_def)
  qed
qed

text \<open>One packet: sent exactly when the TX ring has a free slot.\<close>

lemma process_packet_spec:
  "\<exists>y. afxdp_process_packet api x a l = (0 < pspace (tx x), y)
     \<and> pents (tx y) = (if 0 < pspace (tx x) then pents (tx x) @ [\<lparr>addr = a, len = l\<rparr>] else pents (tx x))
     \<and> pspace (tx y) = pspace (tx x) - 1
     \<and> outstanding_tx y = outstanding_tx x + (if 0 < pspace (tx x) then 1 else 0)
     \<and> stats y = (if 0 < pspace (tx x) then add_tx_stats l (stats x) else stats x)
     \<and> rx y = rx x \<and> umem y = umem x \<and> free_frames y = free_frames x"
proof -
  obtain r idx q where res: "prod_reserve api (tx x) 1 = (r, idx, q)" by (metis prod_cases3)
  show ?thesis
  proof (cases "0 < pspace (tx x)")
    case True
    then have q: "prod_reserve api (tx x) 1 = (1, idx, q)" using res reserve_room [OF res] by simp
    have "tx_writes api q idx [\<lparr>addr = a, len = l\<rparr>] = prod_set_tx_len api (prod_set_tx_addr api q idx a) idx l"
      by (simp add: tx_write_def)
    then show ?thesis
      using True q submit_tx [OF q, of "[\<lparr>addr = a, len = l\<rparr>]"] by (simp add: afxdp_process_packet_def)
  next
    case False
    then show ?thesis using res reserve_full [OF res] by (simp add: afxdp_process_packet_def)
  qed
qed

end

section \<open>Properties\<close>

text \<open>
  C8. The receive step. With a well-formed pool and no more frames than the pool can hold,
  \<^verbatim>\<open>afxdp_handle_receive\<close> succeeds; after draining completions it takes \<open>r \<le> 64\<close> packets from the
  front of the RX ring (none only if it is empty), puts the first \<open>t\<close> of them on the TX ring in
  order, \<open>t\<close> being \<open>r\<close> or all free TX slots, adds \<open>t\<close> to the outstanding count and accounts for
  all \<open>r\<close> packets and their bytes. Frames are neither lost nor duplicated; the only ones that can
  appear are invalid ones, and none do while the pool covers the free slots of the fill ring.
\<close>

theorem handle_receive_spec:
  assumes "xsk_rings api cents pents pspace kframes" and "xsk_socket ctx = Some x" and "umem_wf x"
    and "size (all_frames cents pents kframes x) \<le> AFXDP_NUM_FRAMES"
  shows "\<exists>y z r t j. afxdp_handle_receive api ctx = Some (ctx\<lparr>xsk_socket := Some y\<rparr>)
     \<and> afxdp_complete_tx api x = Some z \<and> umem_wf y
     \<and> r \<le> AFXDP_RX_BATCH_SIZE \<and> r \<le> length (cents (rx x)) \<and> (r = 0 \<longrightarrow> cents (rx x) = [])
     \<and> t = min r (pspace (tx z))
     \<and> cents (rx y) = drop r (cents (rx x)) \<and> pents (tx y) = pents (tx z) @ take t (cents (rx x))
     \<and> outstanding_tx y = outstanding_tx z + of_nat t
     \<and> stats y = rx_account (take r (cents (rx x))) t (stats x)
     \<and> all_frames cents pents kframes y =
         all_frames cents pents kframes x + replicate_mset j AFXDP_INVALID_UMEM_FRAME
     \<and> (pspace (fq (umem x)) \<le> length (free_frames x) \<longrightarrow> j = 0)"
proof -
  have "size (beyond_fill cents pents kframes x) \<le> AFXDP_NUM_FRAMES"
    using assms(4) by (simp add: all_frames_split)
  then show ?thesis
    using xsk_rings.receive_step_spec [OF assms(1,3)] assms(2)
    by (fastforce simp: afxdp_handle_receive_def)
qed

definition demo_desc :: xdp_desc where
  "demo_desc = \<lparr>addr = 8192, len = 60\<rparr>"

definition demo_socket :: "(ref_prod, ref_cons, unit) afxdp_socket_info" where
  "demo_socket = \<lparr>rx = \<lparr>rc_ents = [demo_desc, demo_desc\<lparr>addr := 4096\<rparr>]\<rparr>, tx = \<lparr>rp_cap = 1, rp_ents = [], rp_slots = []\<rparr>,
     umem = \<lparr>fq = \<lparr>rp_cap = 2, rp_ents = [], rp_slots = []\<rparr>, cq = \<lparr>rc_ents = []\<rparr>, umem_handle = 1, umem_buffer = 0\<rparr>,
     xsk = (), umem_frame_addr = init_frame_addrs, umem_frame_free = 1, outstanding_tx = 0,
     stats = zero_stats, prev_stats = zero_stats\<rparr>"

lemma demo_socket_wf: "umem_wf demo_socket" "length (free_frames demo_socket) = 1"
  by (simp_all add: demo_socket_def umem_wf_def free_frames_def AFXDP_NUM_FRAMES_def)

theorem handle_receive_spec_witness:
  "\<exists>y. afxdp_handle_receive ref_api (zero_ctx\<lparr>xsk_socket := Some demo_socket\<rparr>) =
         Some (zero_ctx\<lparr>xsk_socket := Some y\<rparr>) \<and> rp_ents (tx y) = [demo_desc]"
proof -
  let ?x = demo_socket
  have tot: "size (all_frames rc_ents rp_ents (\<lambda>_. {#}) ?x) \<le> AFXDP_NUM_FRAMES"
    using demo_socket_wf by (simp add: all_frames_def kernel_frames_def) (simp add: demo_socket_def AFXDP_NUM_FRAMES_def)
  have z: "afxdp_complete_tx ref_api ?x = Some ?x" by (simp add: afxdp_complete_tx_def demo_socket_def)
  obtain y r where y: "afxdp_handle_receive ref_api (zero_ctx\<lparr>xsk_socket := Some ?x\<rparr>) = Some (zero_ctx\<lparr>xsk_socket := Some y\<rparr>)"
    "rp_ents (tx y) = rp_ents (tx ?x) @ take (min r (ref_space (tx ?x))) (rc_ents (rx ?x))" "r = 0 \<longrightarrow> rc_ents (rx ?x) = []"
    using handle_receive_spec [OF ref_rings.xsk_rings_axioms, of "zero_ctx\<lparr>xsk_socket := Some ?x\<rparr>" ?x] tot demo_socket_wf z
    by fastforce
  then show ?thesis by (cases r) (auto simp: demo_socket_def ref_space_def)
qed

text \<open>
  C13. The refill when the ring reports more free slots than the pool has frames: all free frames go
  to the fill ring, newest first, followed by one \<^const>\<open>AFXDP_INVALID_UMEM_FRAME\<close> per missing
  frame, and the retry loop still ends.
\<close>

theorem refill_beyond_pool:
  assumes "xsk_rings api cents pents pspace kframes" and "umem_wf x"
    and "prod_nb_free api (fq (umem x)) (umem_frame_free x) = (k, p)" and "length (free_frames x) \<le> unat k"
  shows "\<exists>y. refill_fill_ring api x = Some y \<and> free_frames y = []
    \<and> map addr (pents (fq (umem y))) = map addr (pents (fq (umem x))) @ rev (free_frames x)
        @ replicate (unat k - length (free_frames x)) AFXDP_INVALID_UMEM_FRAME"
  using xsk_rings.refill_exact [OF assms(1-3)] umem_pool.alloc_many_exhausts [OF assms(2,4)] by auto

theorem refill_beyond_pool_witness:
  "\<exists>y. refill_fill_ring ref_api demo_socket = Some y
     \<and> map addr (rp_ents (fq (umem y))) = [0, AFXDP_INVALID_UMEM_FRAME]"
proof -
  let ?x = demo_socket
  have nb: "prod_nb_free ref_api (fq (umem ?x)) (umem_frame_free ?x) = (2, fq (umem ?x))"
    by (simp add: demo_socket_def ref_api_def ref_space_def u32_of_def)
  have "init_frame_addrs ! 0 = 0" by (simp add: init_frame_addrs_def AFXDP_NUM_FRAMES_def)
  then have free: "free_frames ?x = [0]"
    using length_init_frame_addrs
    by (simp add: free_frames_def demo_socket_def take_Suc_conv_app_nth AFXDP_NUM_FRAMES_def)
  obtain y where "refill_fill_ring ref_api ?x = Some y"
    "map addr (rp_ents (fq (umem y))) = map addr (rp_ents (fq (umem ?x))) @ rev [0] @ replicate (2 - 1) AFXDP_INVALID_UMEM_FRAME"
    using refill_beyond_pool [OF ref_rings.xsk_rings_axioms demo_socket_wf(1) nb] unfolding free by auto
  then show ?thesis by (simp add: demo_socket_def)
qed

text \<open>
  Sending one packet (\<^verbatim>\<open>afxdp_process_packet\<close>): it reports success exactly when the TX ring has a
  free slot; then the packet's own frame is appended as a descriptor, one more transmission is
  outstanding and one packet of that length is counted; otherwise ring, counters and statistics are
  as before, and in both cases no frame of the pool is touched.
\<close>

lemma process_packet_effect:
  assumes "xsk_rings api cents pents pspace kframes"
  shows "\<exists>y. afxdp_process_packet api x a l = (0 < pspace (tx x), y)
     \<and> pents (tx y) = (if 0 < pspace (tx x) then pents (tx x) @ [\<lparr>addr = a, len = l\<rparr>] else pents (tx x))
     \<and> outstanding_tx y = outstanding_tx x + (if 0 < pspace (tx x) then 1 else 0)
     \<and> tx_packets (stats y) = tx_packets (stats x) + (if 0 < pspace (tx x) then 1 else 0)
     \<and> tx_bytes (stats y) = tx_bytes (stats x) + (if 0 < pspace (tx x) then ucast l else 0)
     \<and> free_frames y = free_frames x"
  using xsk_rings.process_packet_spec [OF assms, of x a l] by (auto simp: add_tx_stats_def)

end
