(* ===== verification/CLib.thy ===== *)
theory CLib
  imports Prelude
begin

text \<open>
  The parts of the C library the argument parsers and the environment checks use, on C strings
  as character lists without the terminating NUL: number scanning (\<^verbatim>\<open>strtol\<close>, \<^verbatim>\<open>strtoul\<close>,
  \<^verbatim>\<open>atoi\<close>, \<^verbatim>\<open>atoll\<close>, the numeric conversions of \<^verbatim>\<open>sscanf\<close>), \<^verbatim>\<open>strncpy\<close>, \<^verbatim>\<open>strncmp\<close> with a
  literal, \<^verbatim>\<open>strcspn\<close>, \<^verbatim>\<open>strrchr\<close>, and \<^verbatim>\<open>getopt\<close>.
\<close>

section \<open>Characters and strings\<close>

definition char_code :: "char \<Rightarrow> nat" where
  "char_code c = of_char c"

definition c_isspace :: "char \<Rightarrow> bool" where
  "c_isspace c \<longleftrightarrow> char_code c = 32 \<or> (9 \<le> char_code c \<and> char_code c \<le> 13)"

text \<open>The value of a digit of any base up to 36.\<close>

definition digit_value :: "char \<Rightarrow> nat option" where
  "digit_value c =
     (let n = char_code c in
      if 48 \<le> n \<and> n \<le> 57 then Some (n - 48)
      else if 97 \<le> n \<and> n \<le> 122 then Some (n - 87)
      else if 65 \<le> n \<and> n \<le> 90 then Some (n - 55)
      else None)"

definition is_digit :: "nat \<Rightarrow> char \<Rightarrow> bool" where
  "is_digit base c \<longleftrightarrow> (case digit_value c of None \<Rightarrow> False | Some d \<Rightarrow> d < base)"

definition digits_value :: "nat \<Rightarrow> string \<Rightarrow> nat" where
  "digits_value base cs = foldl (\<lambda>n c. base * n + the (digit_value c)) 0 cs"

definition strncpy_str :: "string \<Rightarrow> nat \<Rightarrow> string" where
  "strncpy_str src n = take n src"

definition has_prefix :: "string \<Rightarrow> string \<Rightarrow> bool" where
  "has_prefix lit s \<longleftrightarrow> take (length lit) s = lit"

text \<open>\<^verbatim>\<open>buf[strcspn(buf, "\n")] = 0\<close>: the string up to the first newline.\<close>

definition chomp :: "string \<Rightarrow> string" where
  "chomp s = takeWhile (\<lambda>c. char_code c \<noteq> 10) s"

text \<open>What follows the last occurrence of a character, the whole string when there is none.\<close>

definition after_last :: "char \<Rightarrow> string \<Rightarrow> string" where
  "after_last c s = rev (takeWhile (\<lambda>d. d \<noteq> c) (rev s))"

section \<open>Number scanning\<close>

text \<open>
  White space, an optional sign, an optional \<open>0x\<close> in base 16 and the longest run of digits.
  The result is the sign, the magnitude and the unread rest; \<open>None\<close> when there is no digit.
\<close>

definition skip_hex_prefix :: "nat \<Rightarrow> string \<Rightarrow> string" where
  "skip_hex_prefix base s =
     (case s of
        z # x # d # r \<Rightarrow>
          if base = 16 \<and> char_code z = 48 \<and> (char_code x = 120 \<or> char_code x = 88) \<and> is_digit 16 d
          then d # r else s
      | _ \<Rightarrow> s)"

definition scan_number :: "nat \<Rightarrow> string \<Rightarrow> (bool \<times> nat \<times> string) option" where
  "scan_number base s =
     (let s1 = dropWhile c_isspace s;
          (neg, s2) = (case s1 of
             c # r \<Rightarrow> if char_code c = 45 then (True, r) else if char_code c = 43 then (False, r) else (False, s1)
           | [] \<Rightarrow> (False, s1));
          s3 = skip_hex_prefix base s2;
          ds = takeWhile (is_digit base) s3
      in if ds = [] then None else Some (neg, digits_value base ds, dropWhile (is_digit base) s3))"

definition LONG_MAX :: int where "LONG_MAX = 9223372036854775807"
definition ULONG_MAX :: int where "ULONG_MAX = 18446744073709551615"

text \<open>\<^verbatim>\<open>strtol\<close> and \<^verbatim>\<open>strtoul\<close> on a 64-bit machine: the value and the unread rest.\<close>

definition strtol_c :: "nat \<Rightarrow> string \<Rightarrow> int \<times> string" where
  "strtol_c base s =
     (case scan_number base s of
        None \<Rightarrow> (0, s)
      | Some (neg, n, rest) \<Rightarrow>
          (if neg then max (- int n) (- LONG_MAX - 1) else min (int n) LONG_MAX, rest))"

definition strtoul_c :: "nat \<Rightarrow> string \<Rightarrow> u64 \<times> string" where
  "strtoul_c base s =
     (case scan_number base s of
        None \<Rightarrow> (0, s)
      | Some (neg, n, rest) \<Rightarrow>
          (if int n > ULONG_MAX then - 1 else if neg then - of_nat n else of_nat n, rest))"

definition atoll_c :: "string \<Rightarrow> u64" where
  "atoll_c s = word_of_int (fst (strtol_c 10 s))"

definition atoi_word :: "string \<Rightarrow> i32" where
  "atoi_word s = word_of_int (fst (strtol_c 10 s))"

definition atoi_c :: "string \<Rightarrow> int" where
  "atoi_c s = sint (atoi_word s)"

lemma atoi_c_range: "- (2 ^ 31) \<le> atoi_c s \<and> atoi_c s < 2 ^ 31"
  unfolding atoi_c_def using sint_ge [of "atoi_word s"] sint_lt [of "atoi_word s"] by simp

section \<open>getopt\<close>

text \<open>
  The sequence of results of \<^verbatim>\<open>getopt(argc, argv, optstring)\<close> for the words after \<open>argv[0]\<close>, with
  the argument permutation of the GNU library: option letters may be clustered, an option
  argument is the rest of its word or the next word, a letter that is not in the option string and a
  missing argument give \<^verbatim>\<open>'?'\<close>, \<^verbatim>\<open>--\<close> ends the options and any other word is passed over.
\<close>

datatype opt_kind = Flag | WithArg

type_synonym opt_spec = "(char \<times> opt_kind) list"
type_synonym opt_result = "char \<times> string option"

definition opt_error :: opt_result where
  "opt_error = (CHR ''?'', None)"

function (sequential) getopt_words :: "opt_spec \<Rightarrow> string list \<Rightarrow> opt_result list"
  and getopt_cluster :: "opt_spec \<Rightarrow> string \<Rightarrow> string list \<Rightarrow> opt_result list" where
  "getopt_words spec [] = []"
| "getopt_words spec (w # ws) =
     (if w = ''--'' then []
      else case w of
        c # d # r \<Rightarrow> if c = CHR ''-'' then getopt_cluster spec (d # r) ws else getopt_words spec ws
      | _ \<Rightarrow> getopt_words spec ws)"
| "getopt_cluster spec [] ws = getopt_words spec ws"
| "getopt_cluster spec (c # cs) ws =
     (case map_of spec c of
        None \<Rightarrow> opt_error # getopt_cluster spec cs ws
      | Some Flag \<Rightarrow> (c, None) # getopt_cluster spec cs ws
      | Some WithArg \<Rightarrow>
          if cs \<noteq> [] then (c, Some cs) # getopt_words spec ws
          else case ws of [] \<Rightarrow> [opt_error] | a # ws' \<Rightarrow> (c, Some a) # getopt_words spec ws')"
  by pat_completeness auto
termination
  by (relation "measure (\<lambda>x. case x of
        Inl (_, ws) \<Rightarrow> (\<Sum>w\<leftarrow>ws. 2 + length w) | Inr (_, cs, ws) \<Rightarrow> 1 + length cs + (\<Sum>w\<leftarrow>ws. 2 + length w))")
    auto

lemma getopt_letters:
  "(c, a) \<in> set (getopt_words spec ws) \<Longrightarrow> c = CHR ''?'' \<or> c \<in> fst ` set spec"
  "(c, a) \<in> set (getopt_cluster spec cs ws) \<Longrightarrow> c = CHR ''?'' \<or> c \<in> fst ` set spec"
proof (induction spec ws and spec cs ws rule: getopt_words_getopt_cluster.induct)
  case (2 spec w ws)
  then show ?case by (auto split: if_splits list.splits)
next
  case (4 spec c' cs ws)
  then show ?case
    by (auto simp: opt_error_def rev_image_eqI dest!: map_of_SomeD
        split: option.splits opt_kind.splits if_splits list.splits)
qed auto

text \<open>An option that takes an argument always comes with one.\<close>

lemma getopt_with_arg:
  "(c, a) \<in> set (getopt_words spec ws) \<Longrightarrow> map_of spec c = Some WithArg \<Longrightarrow> c \<noteq> CHR ''?'' \<Longrightarrow> a \<noteq> None"
  "(c, a) \<in> set (getopt_cluster spec cs ws) \<Longrightarrow> map_of spec c = Some WithArg \<Longrightarrow> c \<noteq> CHR ''?'' \<Longrightarrow> a \<noteq> None"
proof (induction spec ws and spec cs ws rule: getopt_words_getopt_cluster.induct)
  case (2 spec w ws)
  then show ?case by (auto split: if_splits list.splits)
next
  case (4 spec c' cs ws)
  then show ?case
    by (auto simp: opt_error_def split: option.splits opt_kind.splits if_splits list.splits)
qed auto

end
