(* ===== verification/AfxdpArgs.thy ===== *)
theory AfxdpArgs
  imports AfxdpTypes CLib
begin

text \<open>
  Command line and pre-flight checks of the AF\_XDP manager: \<^verbatim>\<open>afxdp_parse_args\<close> as a fold over
  the results of \<^verbatim>\<open>getopt\<close>, and \<^verbatim>\<open>afxdp_preflight_checks\<close> over what the code reads from the
  system (sysfs, \<^verbatim>\<open>/proc\<close>, \<^verbatim>\<open>uname\<close>), which is the record \<open>host_env\<close>. Log output is not modelled.
\<close>

section \<open>What the code reads from the host\<close>

record host_env =
  he_nametoindex :: "string \<Rightarrow> u32"
  he_operstate :: "string \<Rightarrow> string option"
  he_driver_link :: "string \<Rightarrow> string option"
  he_queues :: "string \<Rightarrow> string list option"
  he_readable :: "string \<Rightarrow> bool"
  he_release :: "string option"
  he_meminfo :: "string list option"
  he_numa_file :: "string \<Rightarrow> string option"

section \<open>Arguments\<close>

datatype afxdp_exit = Exit_Usage | Exit_No_Interface

abbreviation XDP_COPY :: u16 where "XDP_COPY \<equiv> 2"
abbreviation XDP_ZEROCOPY :: u16 where "XDP_ZEROCOPY \<equiv> 4"
abbreviation IF_NAMESIZE :: nat where "IF_NAMESIZE \<equiv> 16"

definition afxdp_optstring :: opt_spec where
  "afxdp_optstring =
     [(CHR ''d'', WithArg), (CHR ''Q'', WithArg), (CHR ''S'', Flag), (CHR ''N'', Flag), (CHR ''c'', Flag),
      (CHR ''z'', Flag), (CHR ''p'', Flag), (CHR ''f'', WithArg), (CHR ''P'', WithArg), (CHR ''v'', Flag),
      (CHR ''t'', WithArg), (CHR ''l'', WithArg), (CHR ''h'', Flag)]"

definition afxdp_default_config :: afxdp_config where
  "afxdp_default_config = zero_config\<lparr>ifname := strncpy_str ''eth0'' (IF_NAMESIZE - 1), ifindex := -1,
     attach_mode := XDP_MODE_UNSPEC, xsk_if_queue := 0, stats_interval := uint AFXDP_STATS_INTERVAL\<rparr>"

definition afxdp_apply_opt :: "opt_result \<Rightarrow> afxdp_config \<Rightarrow> afxdp_exit + afxdp_config" where
  "afxdp_apply_opt r cfg =
     (let (opt, optarg) = r; arg = (case optarg of Some a \<Rightarrow> a | None \<Rightarrow> []) in
      if opt = CHR ''d'' then Inr (cfg\<lparr>ifname := strncpy_str arg (IF_NAMESIZE - 1)\<rparr>)
      else if opt = CHR ''Q'' then Inr (cfg\<lparr>xsk_if_queue := atoi_c arg\<rparr>)
      else if opt = CHR ''S'' then
        Inr (cfg\<lparr>attach_mode := XDP_MODE_SKB, xsk_bind_flags := xsk_bind_flags cfg OR XDP_COPY\<rparr>)
      else if opt = CHR ''N'' then Inr (cfg\<lparr>attach_mode := XDP_MODE_NATIVE\<rparr>)
      else if opt = CHR ''c'' then Inr (cfg\<lparr>xsk_bind_flags := xsk_bind_flags cfg OR XDP_COPY\<rparr>)
      else if opt = CHR ''z'' then Inr (cfg\<lparr>xsk_bind_flags := xsk_bind_flags cfg OR XDP_ZEROCOPY\<rparr>)
      else if opt = CHR ''p'' then Inr (cfg\<lparr>xsk_poll_mode := True\<rparr>)
      else if opt = CHR ''f'' then Inr (cfg\<lparr>xdp_obj_file := strncpy_str arg 511, custom_xdp_prog := True\<rparr>)
      else if opt = CHR ''P'' then Inr (cfg\<lparr>xdp_prog_name := strncpy_str arg 63\<rparr>)
      else if opt = CHR ''v'' then Inr (cfg\<lparr>verbose := True\<rparr>)
      else if opt = CHR ''t'' then Inr (cfg\<lparr>time_to_live := atoi_word arg\<rparr>)
      else if opt = CHR ''l'' then Inr (cfg\<lparr>pkt_limit := atoll_c arg\<rparr>)
      else Inl Exit_Usage)"

primrec afxdp_apply_opts :: "opt_result list \<Rightarrow> afxdp_config \<Rightarrow> afxdp_exit + afxdp_config" where
  "afxdp_apply_opts [] cfg = Inr cfg"
| "afxdp_apply_opts (r # rs) cfg =
     (case afxdp_apply_opt r cfg of Inl e \<Rightarrow> Inl e | Inr cfg1 \<Rightarrow> afxdp_apply_opts rs cfg1)"

text \<open>\<^verbatim>\<open>argv\<close> is the list of words after the program name.\<close>

definition afxdp_parse_args :: "host_env \<Rightarrow> string list \<Rightarrow> afxdp_exit + afxdp_config" where
  "afxdp_parse_args env argv =
     (case afxdp_apply_opts (getopt_words afxdp_optstring argv) afxdp_default_config of
        Inl e \<Rightarrow> Inl e
      | Inr cfg0 \<Rightarrow>
          let cfg1 = cfg0\<lparr>ifindex := sint (he_nametoindex env (ifname cfg0))\<rparr> in
          if ifindex cfg1 \<le> 0 then Inl Exit_No_Interface
          else
            let cfg2 = (if \<not> custom_xdp_prog cfg1
                        then cfg1\<lparr>xdp_obj_file := strncpy_str ''afxdp/af_xdp_kern.o'' 511,
                                  xdp_prog_name := strncpy_str ''xdp_sock_prog'' 63\<rparr>
                        else cfg1)
            in Inr (cfg2\<lparr>custom_xdp_prog := True\<rparr>))"

section \<open>Pre-flight checks\<close>

definition afxdp_native_xdp_drivers :: "string list" where
  "afxdp_native_xdp_drivers =
     [''i40e'', ''ixgbe'', ''ixgbevf'', ''mlx5_core'', ''mlx4_en'', ''ice'', ''bnxt_en'', ''nfp'', ''qede'', ''ena'',
      ''virtio_net'', ''veth'', ''tun'', ''thunderx'', ''dpaa2-eth'', ''mvneta'', ''mvpp2'', ''sfc'']"

text \<open>\<^verbatim>\<open>sscanf(release, "%d.%d", &major, &minor)\<close> on variables that start at 0.\<close>

definition scan_int :: "string \<Rightarrow> (int \<times> string) option" where
  "scan_int s = map_option (\<lambda>(neg, n, r). (sint (word_of_int (if neg then - int n else int n) :: i32), r)) (scan_number 10 s)"

definition scan_release :: "string \<Rightarrow> int \<times> int" where
  "scan_release s =
     (case scan_int s of
        None \<Rightarrow> (0, 0)
      | Some (major, r) \<Rightarrow>
          (case r of
             c # r1 \<Rightarrow> if c = CHR ''.'' then (case scan_int r1 of None \<Rightarrow> (major, 0) | Some (minor, _) \<Rightarrow> (major, minor))
                      else (major, 0)
           | [] \<Rightarrow> (major, 0)))"

definition check_driver :: "host_env \<Rightarrow> afxdp_config \<Rightarrow> int" where
  "check_driver env cfg =
     (case he_driver_link env (ifname cfg) of
        Some link \<Rightarrow>
          if link \<noteq> [] then
            if attach_mode cfg = XDP_MODE_NATIVE
               \<and> after_last (CHR ''/'') (take 255 link) \<notin> set afxdp_native_xdp_drivers
            then - ENOTSUP else 0
          else if attach_mode cfg = XDP_MODE_NATIVE then - ENOTSUP else 0
      | None \<Rightarrow> if attach_mode cfg = XDP_MODE_NATIVE then - ENOTSUP else 0)"

definition check_queue :: "host_env \<Rightarrow> afxdp_config \<Rightarrow> int" where
  "check_queue env cfg =
     (let queue_count = (case he_queues env (ifname cfg) of
            None \<Rightarrow> 0 | Some names \<Rightarrow> length (filter (has_prefix ''rx-'') names))
      in if queue_count > 0 \<and> xsk_if_queue cfg \<ge> int queue_count then - EINVAL else 0)"

definition check_kernel :: "host_env \<Rightarrow> int" where
  "check_kernel env =
     (let (major, minor) = (case he_release env of None \<Rightarrow> (0, 0) | Some r \<Rightarrow> scan_release r)
      in if major < 4 \<or> (major = 4 \<and> minor < 18) then - ENOTSUP else 0)"

text \<open>
  Check 6: the free hugepages and their size in \<^verbatim>\<open>/proc/meminfo\<close>, and whether the code warns that
  the UMEM will fall back to normal pages.
\<close>

definition scan_after :: "string \<Rightarrow> string \<Rightarrow> u64 option" where
  "scan_after lit s =
     (if has_prefix lit s
      then map_option (\<lambda>(neg, n, r). if neg then - of_nat n else of_nat n) (scan_number 10 (drop (length lit) s))
      else None)"

primrec scan_meminfo :: "string list \<Rightarrow> u64 \<times> u64 \<Rightarrow> u64 \<times> u64" where
  "scan_meminfo [] h = h"
| "scan_meminfo (l # ls) h =
     scan_meminfo ls
       (case scan_after ''HugePages_Free:'' l of
          Some n \<Rightarrow> (n, snd h)
        | None \<Rightarrow> (case scan_after ''Hugepagesize:'' l of Some k \<Rightarrow> (fst h, k) | None \<Rightarrow> h))"

definition hugepages_short :: "host_env \<Rightarrow> bool" where
  "hugepages_short env =
     (case he_meminfo env of
        None \<Rightarrow> False
      | Some ls \<Rightarrow>
          let (hp_free, hp_size_kb) = scan_meminfo ls (0, 0) in
          hp_size_kb > 0 \<and>
          hp_free < (AFXDP_UMEM_HUGEPAGE_ALIGNED + (hp_size_kb * 1024 - 1)) div (hp_size_kb * 1024))"

definition check_bind_flags :: "afxdp_config \<Rightarrow> int" where
  "check_bind_flags cfg =
     (if xsk_bind_flags cfg AND XDP_ZEROCOPY \<noteq> 0 \<and> xsk_bind_flags cfg AND XDP_COPY \<noteq> 0 then - EINVAL
      else if xsk_bind_flags cfg AND XDP_ZEROCOPY \<noteq> 0 \<and> attach_mode cfg = XDP_MODE_SKB then - EINVAL
      else 0)"

definition afxdp_preflight_checks :: "host_env \<Rightarrow> afxdp_config \<Rightarrow> int" where
  "afxdp_preflight_checks env cfg =
     (if he_operstate env (ifname cfg) = None then - ENODEV
      else if check_driver env cfg \<noteq> 0 then check_driver env cfg
      else if check_queue env cfg \<noteq> 0 then check_queue env cfg
      else if \<not> he_readable env (xdp_obj_file cfg) then - ENOENT
      else if check_kernel env \<noteq> 0 then check_kernel env
      else check_bind_flags cfg)"

section \<open>What a parsed configuration looks like\<close>

definition config_wf :: "afxdp_config \<Rightarrow> bool" where
  "config_wf cf \<longleftrightarrow>
     length (ifname cf) < IF_NAMESIZE \<and> length (xdp_obj_file cf) < 512 \<and> length (xdp_prog_name cf) < 64
     \<and> - (2 ^ 31) \<le> xsk_if_queue cf \<and> xsk_if_queue cf < 2 ^ 31
     \<and> xsk_bind_flags cf AND NOT (XDP_COPY OR XDP_ZEROCOPY) = 0
     \<and> attach_mode cf \<noteq> XDP_MODE_HW \<and> xdp_flags cf = 0
     \<and> (attach_mode cf = XDP_MODE_SKB \<longrightarrow> xsk_bind_flags cf AND XDP_COPY \<noteq> 0)"

lemma bind_flag_words:
  "w AND NOT (6 :: u16) = 0 \<Longrightarrow> (w OR 2) AND NOT 6 = 0"
  "w AND NOT (6 :: u16) = 0 \<Longrightarrow> (w OR 4) AND NOT 6 = 0"
  "(w OR 2) AND (2 :: u16) \<noteq> 0" "(w OR 4) AND (4 :: u16) \<noteq> 0"
  "w AND (2 :: u16) \<noteq> 0 \<Longrightarrow> (w OR v) AND 2 \<noteq> 0" "w AND (4 :: u16) \<noteq> 0 \<Longrightarrow> (w OR v) AND 4 \<noteq> 0"
  by (simp_all add: bit.conj_disj_distrib2 or_eq_0_iff)

lemma strncpy_str_length [simp]: "length (strncpy_str s n) \<le> n"
  by (simp add: strncpy_str_def)

lemma config_wf_default: "config_wf afxdp_default_config"
  by (simp add: config_wf_def afxdp_default_config_def zero_config_def strncpy_str_def)

lemma config_wf_apply_opt:
  assumes "config_wf cf" "afxdp_apply_opt r cf = Inr cg"
  shows "config_wf cg"
  using assms bind_flag_words [of "xsk_bind_flags cf"] atoi_c_range [of "case snd r of None \<Rightarrow> [] | Some a \<Rightarrow> a"]
  by (cases r) (auto simp: afxdp_apply_opt_def Let_def config_wf_def less_Suc_eq_le [symmetric] strncpy_str_def
      split: if_splits)

lemma apply_opts_invariant:
  assumes "\<And>r cf cg. P cf \<Longrightarrow> afxdp_apply_opt r cf = Inr cg \<Longrightarrow> P cg"
  shows "P cf \<Longrightarrow> afxdp_apply_opts rs cf = Inr cg \<Longrightarrow> P cg"
  by (induction rs arbitrary: cf) (auto split: sum.splits intro: assms)

lemma config_wf_apply_opts:
  "config_wf cf \<Longrightarrow> afxdp_apply_opts rs cf = Inr cg \<Longrightarrow> config_wf cg"
  by (rule apply_opts_invariant [of config_wf, OF config_wf_apply_opt])

lemma copy_flag_kept:
  "xsk_bind_flags cf AND XDP_COPY \<noteq> 0 \<Longrightarrow> afxdp_apply_opt r cf = Inr cg \<Longrightarrow> xsk_bind_flags cg AND XDP_COPY \<noteq> 0"
  "xsk_bind_flags cf AND XDP_ZEROCOPY \<noteq> 0 \<Longrightarrow> afxdp_apply_opt r cf = Inr cg \<Longrightarrow> xsk_bind_flags cg AND XDP_ZEROCOPY \<noteq> 0"
  using bind_flag_words [of "xsk_bind_flags cf"]
  by (cases r; auto simp: afxdp_apply_opt_def Let_def split: if_splits)+

lemma apply_opts_sets_flag:
  assumes "afxdp_apply_opts rs cf = Inr cg"
  shows "CHR ''S'' \<in> fst ` set rs \<or> CHR ''c'' \<in> fst ` set rs \<Longrightarrow> xsk_bind_flags cg AND XDP_COPY \<noteq> 0"
    and "CHR ''z'' \<in> fst ` set rs \<Longrightarrow> xsk_bind_flags cg AND XDP_ZEROCOPY \<noteq> 0"
proof -
  have keep: "xsk_bind_flags cf AND XDP_COPY \<noteq> 0 \<Longrightarrow> afxdp_apply_opts rs cf = Inr cg \<Longrightarrow> xsk_bind_flags cg AND XDP_COPY \<noteq> 0"
    "xsk_bind_flags cf AND XDP_ZEROCOPY \<noteq> 0 \<Longrightarrow> afxdp_apply_opts rs cf = Inr cg \<Longrightarrow> xsk_bind_flags cg AND XDP_ZEROCOPY \<noteq> 0"
    for rs cf
    by (rule apply_opts_invariant [where P = "\<lambda>c. xsk_bind_flags c AND XDP_COPY \<noteq> 0"], erule copy_flag_kept, assumption+)
      (rule apply_opts_invariant [where P = "\<lambda>c. xsk_bind_flags c AND XDP_ZEROCOPY \<noteq> 0"], erule copy_flag_kept, assumption+)
  have set: "afxdp_apply_opt (CHR ''S'', a) c = Inr d \<Longrightarrow> xsk_bind_flags d AND XDP_COPY \<noteq> 0"
    "afxdp_apply_opt (CHR ''c'', a) c = Inr d \<Longrightarrow> xsk_bind_flags d AND XDP_COPY \<noteq> 0"
    "afxdp_apply_opt (CHR ''z'', a) c = Inr d \<Longrightarrow> xsk_bind_flags d AND XDP_ZEROCOPY \<noteq> 0" for a c d
    using bind_flag_words [of "xsk_bind_flags c"] by (auto simp: afxdp_apply_opt_def Let_def)
  show "CHR ''S'' \<in> fst ` set rs \<or> CHR ''c'' \<in> fst ` set rs \<Longrightarrow> xsk_bind_flags cg AND XDP_COPY \<noteq> 0"
    using assms by (induction rs arbitrary: cf) (auto split: sum.splits dest: keep(1) [OF set(1)] keep(1) [OF set(2)])
  show "CHR ''z'' \<in> fst ` set rs \<Longrightarrow> xsk_bind_flags cg AND XDP_ZEROCOPY \<noteq> 0"
    using assms by (induction rs arbitrary: cf) (auto split: sum.splits dest: keep(2) [OF set(3)])
qed

lemma parse_args_cases:
  assumes "afxdp_parse_args env argv = Inr cf"
  obtains c0 where "afxdp_apply_opts (getopt_words afxdp_optstring argv) afxdp_default_config = Inr c0"
    "0 < sint (he_nametoindex env (ifname c0))"
    "cf = (if custom_xdp_prog c0 then c0 else c0\<lparr>xdp_obj_file := ''afxdp/af_xdp_kern.o'', xdp_prog_name := ''xdp_sock_prog''\<rparr>)
            \<lparr>ifindex := sint (he_nametoindex env (ifname c0)), custom_xdp_prog := True\<rparr>"
  using assms by (auto simp: afxdp_parse_args_def Let_def strncpy_str_def split: sum.splits if_splits)

lemma apply_opt_custom_prog:
  assumes "afxdp_apply_opts rs cf = Inr cg" "CHR ''f'' \<notin> fst ` set rs"
  shows "custom_xdp_prog cg = custom_xdp_prog cf"
  using assms
proof (induction rs arbitrary: cf)
  case (Cons r rs)
  then obtain c1 where "afxdp_apply_opt r cf = Inr c1" "afxdp_apply_opts rs c1 = Inr cg"
    by (auto split: sum.splits)
  moreover have "custom_xdp_prog c1 = custom_xdp_prog cf"
    using calculation(1) Cons.prems(2) by (cases r) (auto simp: afxdp_apply_opt_def Let_def split: if_splits)
  ultimately show ?case using Cons.IH [of c1] Cons.prems(2) by simp
qed simp

section \<open>Properties\<close>

text \<open>
  C40. A command line that is accepted gives a well-formed configuration: the interface exists,
  every string fits its buffer with room for the terminating NUL, only the copy and zero-copy bind
  flags can be set, SKB mode always comes with the copy flag, and the program that will be loaded is
  the default one (object and section) unless \<^verbatim>\<open>-f\<close> was given.
\<close>

theorem parse_args_wf:
  assumes "afxdp_parse_args env argv = Inr cf"
  shows "config_wf cf \<and> 0 < ifindex cf \<and> ifindex cf = sint (he_nametoindex env (ifname cf))
    \<and> custom_xdp_prog cf
    \<and> (CHR ''f'' \<notin> fst ` set (getopt_words afxdp_optstring argv) \<longrightarrow>
         xdp_obj_file cf = ''afxdp/af_xdp_kern.o'' \<and> xdp_prog_name cf = ''xdp_sock_prog'')"
proof -
  obtain c0 where c0: "afxdp_apply_opts (getopt_words afxdp_optstring argv) afxdp_default_config = Inr c0"
    "0 < sint (he_nametoindex env (ifname c0))"
    "cf = (if custom_xdp_prog c0 then c0 else c0\<lparr>xdp_obj_file := ''afxdp/af_xdp_kern.o'', xdp_prog_name := ''xdp_sock_prog''\<rparr>)
            \<lparr>ifindex := sint (he_nametoindex env (ifname c0)), custom_xdp_prog := True\<rparr>"
    using assms by (rule parse_args_cases)
  have "config_wf c0"
    using config_wf_apply_opts config_wf_default c0(1) by blast
  then have "config_wf cf" using c0(3) by (auto simp: config_wf_def)
  moreover have "CHR ''f'' \<notin> fst ` set (getopt_words afxdp_optstring argv) \<longrightarrow> \<not> custom_xdp_prog c0"
    using apply_opt_custom_prog [OF c0(1)] by (simp add: afxdp_default_config_def zero_config_def)
  ultimately show ?thesis using c0 by auto
qed

definition demo_env :: host_env where
  "demo_env = \<lparr>he_nametoindex = (\<lambda>n. if n = ''veth0'' then 7 else 0),
     he_operstate = (\<lambda>n. if n = ''veth0'' then Some ''up'' else None),
     he_driver_link = (\<lambda>n. Some ''../../bus/drivers/veth''),
     he_queues = (\<lambda>n. Some [''.'', ''..'', ''rx-0'', ''tx-0'']),
     he_readable = (\<lambda>f. f = ''afxdp/af_xdp_kern.o''),
     he_release = Some ''5.15.0-91-generic'',
     he_meminfo = Some [''HugePages_Free:       12'', ''Hugepagesize:       2048 kB''],
     he_numa_file = (\<lambda>n. Some ''0'')\<rparr>"

definition demo_argv :: "string list" where
  "demo_argv = [''-d'', ''veth0'', ''-NPother'', ''-t5'', ''-l'', ''1000'']"

definition demo_parsed :: afxdp_config where
  "demo_parsed = afxdp_default_config\<lparr>ifname := ''veth0'', ifindex := 7, attach_mode := XDP_MODE_NATIVE,
       xdp_obj_file := ''afxdp/af_xdp_kern.o'', xdp_prog_name := ''xdp_sock_prog'', time_to_live := 5,
       pkt_limit := 1000, custom_xdp_prog := True\<rparr>"

lemma demo_args: "afxdp_parse_args demo_env demo_argv = Inr demo_parsed"
  by code_simp

lemma demo_preflight: "afxdp_preflight_checks demo_env demo_parsed = 0"
  by code_simp

theorem parse_args_wf_witness:
  "\<exists>cf. afxdp_parse_args demo_env demo_argv = Inr cf \<and> config_wf cf \<and> xdp_prog_name cf = ''xdp_sock_prog''"
proof -
  have "CHR ''f'' \<notin> fst ` set (getopt_words afxdp_optstring demo_argv)" by code_simp
  then show ?thesis using parse_args_wf [OF demo_args] demo_args by blast
qed

text \<open>
  The pre-flight checks pass exactly when the interface's state can be read, native mode has a
  driver of the table, the queue is below the number of RX queues (where that is known), the object
  file is readable, the kernel is at least 4.18, and zero-copy is requested neither together with
  copy mode nor in SKB mode. (A negative queue number is not rejected.)
\<close>

lemma preflight_accepts_iff:
  "afxdp_preflight_checks env cf = 0 \<longleftrightarrow>
     (\<exists>st. he_operstate env (ifname cf) = Some st)
     \<and> (attach_mode cf = XDP_MODE_NATIVE \<longrightarrow>
          (\<exists>link. he_driver_link env (ifname cf) = Some link \<and> link \<noteq> []
             \<and> after_last (CHR ''/'') (take 255 link) \<in> set afxdp_native_xdp_drivers))
     \<and> (\<forall>names. he_queues env (ifname cf) = Some names \<longrightarrow> filter (has_prefix ''rx-'') names \<noteq> [] \<longrightarrow>
          xsk_if_queue cf < int (length (filter (has_prefix ''rx-'') names)))
     \<and> he_readable env (xdp_obj_file cf)
     \<and> (\<exists>r major minor. he_release env = Some r \<and> scan_release r = (major, minor)
          \<and> (4 < major \<or> major = 4 \<and> 18 \<le> minor))
     \<and> (xsk_bind_flags cf AND XDP_ZEROCOPY \<noteq> 0 \<longrightarrow>
          xsk_bind_flags cf AND XDP_COPY = 0 \<and> attach_mode cf \<noteq> XDP_MODE_SKB)"
proof -
  have drv: "check_driver env cf = 0 \<longleftrightarrow> (attach_mode cf = XDP_MODE_NATIVE \<longrightarrow>
      (\<exists>link. he_driver_link env (ifname cf) = Some link \<and> link \<noteq> []
         \<and> after_last (CHR ''/'') (take 255 link) \<in> set afxdp_native_xdp_drivers))"
    by (auto simp: check_driver_def split: option.splits)
  have queue: "check_queue env cf = 0 \<longleftrightarrow>
      (\<forall>names. he_queues env (ifname cf) = Some names \<longrightarrow> filter (has_prefix ''rx-'') names \<noteq> [] \<longrightarrow>
          xsk_if_queue cf < int (length (filter (has_prefix ''rx-'') names)))"
    by (auto simp: check_queue_def Let_def split: option.splits)
  have kern: "check_kernel env = 0 \<longleftrightarrow> (\<exists>r major minor. he_release env = Some r
      \<and> scan_release r = (major, minor) \<and> (4 < major \<or> major = 4 \<and> 18 \<le> minor))"
    by (auto simp: check_kernel_def split: option.splits prod.splits)
  have flags: "check_bind_flags cf = 0 \<longleftrightarrow> (xsk_bind_flags cf AND XDP_ZEROCOPY \<noteq> 0 \<longrightarrow>
          xsk_bind_flags cf AND XDP_COPY = 0 \<and> attach_mode cf \<noteq> XDP_MODE_SKB)"
    by (auto simp: check_bind_flags_def)
  have "afxdp_preflight_checks env cf = 0 \<longleftrightarrow> he_operstate env (ifname cf) \<noteq> None \<and> check_driver env cf = 0
      \<and> check_queue env cf = 0 \<and> he_readable env (xdp_obj_file cf) \<and> check_kernel env = 0 \<and> check_bind_flags cf = 0"
    by (simp add: afxdp_preflight_checks_def)
  then show ?thesis unfolding drv queue kern flags not_None_eq by blast
qed

definition demo_cfg :: afxdp_config where
  "demo_cfg = afxdp_default_config\<lparr>ifname := ''veth0'', ifindex := 7, attach_mode := XDP_MODE_NATIVE,
       xdp_obj_file := ''afxdp/af_xdp_kern.o'', xsk_bind_flags := XDP_ZEROCOPY\<rparr>"

text \<open>
  A command line that asks for zero-copy together with copy mode or SKB mode, in any order and
  clustering, never gets past the pre-flight checks.
\<close>

lemma zero_copy_conflict_rejected:
  assumes "afxdp_parse_args env argv = Inr cf"
    and "CHR ''z'' \<in> fst ` set (getopt_words afxdp_optstring argv)"
    and "CHR ''S'' \<in> fst ` set (getopt_words afxdp_optstring argv)
         \<or> CHR ''c'' \<in> fst ` set (getopt_words afxdp_optstring argv)"
  shows "afxdp_preflight_checks env cf < 0"
proof -
  obtain c0 where c0: "afxdp_apply_opts (getopt_words afxdp_optstring argv) afxdp_default_config = Inr c0"
    "xsk_bind_flags cf = xsk_bind_flags c0"
    using assms(1) by (rule parse_args_cases) auto
  have "xsk_bind_flags cf AND XDP_ZEROCOPY \<noteq> 0 \<and> xsk_bind_flags cf AND XDP_COPY \<noteq> 0"
    using apply_opts_sets_flag [OF c0(1)] assms(2,3) c0(2) by auto
  then show ?thesis
    by (auto simp: afxdp_preflight_checks_def check_bind_flags_def check_driver_def check_queue_def
        check_kernel_def Let_def split: option.splits prod.splits)
qed

end
