(* ===== verification/AfxdpLifecycle.thy ===== *)
theory AfxdpLifecycle
  imports AfxdpDatapath AfxdpArgs
begin

text \<open>
  Start-up and shut-down of the AF\_XDP manager: the packet buffer (hugepages with a fallback, NUMA
  binding, pre-allocation), UMEM and socket configuration, \<^verbatim>\<open>afxdp_init\<close>, \<^verbatim>\<open>afxdp_run\<close>,
  \<^verbatim>\<open>afxdp_cleanup\<close> and the AF\_XDP branch of \<^verbatim>\<open>main\<close>. What the operating system and libxdp
  answer is the record \<open>sys_env\<close>; what the code acquires and releases is a trace of events, from
  which the resources still held are computed.
\<close>

section \<open>Environment and effects\<close>

record xsk_socket_config =
  xc_rx_size :: u32
  xc_tx_size :: u32
  xc_xdp_flags :: u32
  xc_bind_flags :: u16
  xc_inhibit_prog_load :: bool

record xsk_umem_config =
  uc_fill_size :: u32
  uc_comp_size :: u32
  uc_frame_size :: u32
  uc_frame_headroom :: u32
  uc_flags :: u32

record ('p, 'c, 'k) sys_env =
  se_host :: host_env
  se_api :: "('p, 'c, 'k) xsk_api"
  se_mmap :: "u64 option"
  se_memalign :: "u64 option"
  se_prog_create :: "string \<Rightarrow> string \<Rightarrow> int + nat"
  se_attach :: "nat \<Rightarrow> int \<Rightarrow> xdp_attach_mode \<Rightarrow> int"
  se_map_fd :: "nat \<Rightarrow> int"
  se_setrlimit :: int
  se_calloc_umem :: bool
  se_umem_create :: "u64 \<Rightarrow> u64 \<Rightarrow> xsk_umem_config \<Rightarrow> int + (nat \<times> 'p \<times> 'c)"
  se_calloc_xsk :: bool
  se_socket_create :: "string \<Rightarrow> int \<Rightarrow> nat \<Rightarrow> xsk_socket_config \<Rightarrow> int + ('k \<times> 'c \<times> 'p)"
  se_update_xskmap :: "'k \<Rightarrow> int \<Rightarrow> int"

datatype resource = R_Buffer | R_Prog | R_Attached | R_Umem_Info | R_Umem | R_Xsk_Info | R_Xsk

datatype sys_event = Acquire resource | Release resource | Mbind u64 u64 int | Xskmap_Insert int | Signals
  | Detach_Failed int

primrec live :: "sys_event list \<Rightarrow> resource set \<Rightarrow> resource set" where
  "live [] R = R"
| "live (e # es) R = live es (case e of Acquire r \<Rightarrow> insert r R | Release r \<Rightarrow> R - {r} | _ \<Rightarrow> R)"

text \<open>No resource is acquired while it is held, and no memory or handle is released twice
  (detaching a program that is not attached is an error the kernel reports, not a double free).\<close>

primrec clean_trace :: "sys_event list \<Rightarrow> resource set \<Rightarrow> bool" where
  "clean_trace [] R \<longleftrightarrow> True"
| "clean_trace (e # es) R \<longleftrightarrow>
     (case e of Acquire r \<Rightarrow> r \<notin> R | Release r \<Rightarrow> r = R_Attached \<or> r \<in> R | _ \<Rightarrow> True)
     \<and> clean_trace es (case e of Acquire r \<Rightarrow> insert r R | Release r \<Rightarrow> R - {r} | _ \<Rightarrow> R)"

section \<open>The packet buffer\<close>

abbreviation AFXDP_NUMA_NODE_UNKNOWN :: int where "AFXDP_NUMA_NODE_UNKNOWN \<equiv> -1"

definition afxdp_get_nic_numa_node :: "host_env \<Rightarrow> string \<Rightarrow> int" where
  "afxdp_get_nic_numa_node env ifn =
     (case he_numa_file env ifn of
        None \<Rightarrow> AFXDP_NUMA_NODE_UNKNOWN
      | Some txt \<Rightarrow> (case scan_int txt of Some (node, _) \<Rightarrow> node | None \<Rightarrow> AFXDP_NUMA_NODE_UNKNOWN))"

definition afxdp_bind_numa :: "u64 \<Rightarrow> u64 \<Rightarrow> int \<Rightarrow> sys_event list" where
  "afxdp_bind_numa a sz numa_node =
     (if numa_node < 0 \<or> numa_node \<ge> 64 then [] else [Mbind a sz numa_node])"

definition afxdp_alloc_hugepage_buffer ::
  "('p, 'c, 'k) sys_env \<Rightarrow> string option \<Rightarrow> ('p, 'c, 'k) afxdp_manager_ctx
    \<Rightarrow> int \<times> ('p, 'c, 'k) afxdp_manager_ctx \<times> sys_event list" where
  "afxdp_alloc_hugepage_buffer env ifn ctx =
     (let sz = AFXDP_UMEM_HUGEPAGE_ALIGNED;
          set_buf = (\<lambda>buf c. c\<lparr>packet_buffer := buf,
            packet_buffer_size := of_nat AFXDP_NUM_FRAMES * of_nat AFXDP_FRAME_SIZE,
            packet_buffer_size_aligned := sz\<rparr>)
      in case se_mmap env of
           None \<Rightarrow>
             (case se_memalign env of
                None \<Rightarrow> (- ENOMEM, ctx, [])
              | Some buf \<Rightarrow> (0, set_buf buf (ctx\<lparr>use_hugepages := False\<rparr>), [Acquire R_Buffer]))
         | Some buf \<Rightarrow>
             let evs = (case ifn of
                   None \<Rightarrow> []
                 | Some name \<Rightarrow>
                     let node = afxdp_get_nic_numa_node (se_host env) name
                     in if node \<ge> 0 then afxdp_bind_numa buf sz node else [])
             in (0, set_buf buf (ctx\<lparr>use_hugepages := True\<rparr>), Acquire R_Buffer # evs))"

definition afxdp_preallocate_hugepages ::
  "('p, 'c, 'k) sys_env \<Rightarrow> ('p, 'c, 'k) afxdp_manager_ctx
    \<Rightarrow> int \<times> ('p, 'c, 'k) afxdp_manager_ctx \<times> sys_event list" where
  "afxdp_preallocate_hugepages env ctx =
     (if packet_buffer ctx \<noteq> 0 then (0, ctx, [])
      else
        let (ret, c, evs) = afxdp_alloc_hugepage_buffer env None ctx
        in (ret, if ret = 0 then c\<lparr>hugepage_preallocated := True\<rparr> else c, evs))"

section \<open>UMEM and socket\<close>

text \<open>libxdp's \<^verbatim>\<open>XSK_UMEM__DEFAULT_FRAME_HEADROOM\<close> is 0.\<close>

definition umem_cfg :: xsk_umem_config where
  "umem_cfg = \<lparr>uc_fill_size = of_nat AFXDP_FILL_RING_SIZE, uc_comp_size = of_nat AFXDP_COMP_RING_SIZE,
     uc_frame_size = of_nat AFXDP_FRAME_SIZE, uc_frame_headroom = 0, uc_flags = 0\<rparr>"

lemma umem_cfg_fill_size [simp]: "unat (uc_fill_size umem_cfg) = AFXDP_FILL_RING_SIZE"
  by (simp add: umem_cfg_def AFXDP_FILL_RING_SIZE_def)

definition afxdp_configure_umem ::
  "('p, 'c, 'k) sys_env \<Rightarrow> u64 \<Rightarrow> u64 \<Rightarrow> ('p, 'c) afxdp_umem_info option \<times> sys_event list" where
  "afxdp_configure_umem env buffer sz =
     (if \<not> se_calloc_umem env then (None, [])
      else case se_umem_create env buffer sz umem_cfg of
             Inl ret \<Rightarrow> (None, [Acquire R_Umem_Info, Release R_Umem_Info])
           | Inr (h, f, c) \<Rightarrow>
               (Some \<lparr>fq = f, cq = c, umem_handle = h, umem_buffer = buffer\<rparr>, [Acquire R_Umem_Info, Acquire R_Umem]))"

definition socket_config :: "afxdp_config \<Rightarrow> xsk_socket_config" where
  "socket_config cf = \<lparr>xc_rx_size = of_nat AFXDP_RX_RING_SIZE, xc_tx_size = of_nat AFXDP_TX_RING_SIZE,
     xc_xdp_flags = xdp_flags cf, xc_bind_flags = xsk_bind_flags cf,
     xc_inhibit_prog_load = custom_xdp_prog cf\<rparr>"

text \<open>The allocator's initialisation and the pre-population of the fill ring.\<close>

definition populate_fill_ring ::
  "('p, 'c, 'k) xsk_api \<Rightarrow> ('p, 'c, 'k) afxdp_socket_info \<Rightarrow> ('p, 'c, 'k) afxdp_socket_info option" where
  "populate_fill_ring api x0 =
     (let x = x0\<lparr>umem_frame_addr := init_frame_addrs, umem_frame_free := of_nat AFXDP_NUM_FRAMES\<rparr>;
          n = of_nat AFXDP_FILL_RING_SIZE :: u32;
          (ret, idx, q) = prod_reserve api (fq (umem x)) n
      in if ret \<noteq> n then None
         else
           let y = fill_loop api AFXDP_FILL_RING_SIZE idx (x\<lparr>umem := (umem x)\<lparr>fq := q\<rparr>\<rparr>)
           in Some (y\<lparr>umem := (umem y)\<lparr>fq := prod_submit api (fq (umem y)) n\<rparr>\<rparr>))"

definition afxdp_configure_socket ::
  "('p, 'c, 'k) sys_env \<Rightarrow> ('p, 'c) afxdp_umem_info \<Rightarrow> ('p, 'c, 'k) afxdp_manager_ctx
    \<Rightarrow> ('p, 'c, 'k) afxdp_socket_info option \<times> sys_event list" where
  "afxdp_configure_socket env u ctx =
     (let cf = ctx_cfg ctx in
      if \<not> se_calloc_xsk env then (None, [])
      else case se_socket_create env (ifname cf) (xsk_if_queue cf) (umem_handle u) (socket_config cf) of
             Inl ret \<Rightarrow> (None, [Acquire R_Xsk_Info, Release R_Xsk_Info])
           | Inr (k, c, p) \<Rightarrow>
               let x = \<lparr>rx = c, tx = p, umem = u, xsk = k, umem_frame_addr = [], umem_frame_free = 0,
                        outstanding_tx = 0, stats = zero_stats, prev_stats = zero_stats\<rparr>;
                   got = [Acquire R_Xsk_Info, Acquire R_Xsk];
                   undo = [Release R_Xsk, Release R_Xsk_Info]
               in if custom_xdp_prog cf \<and> se_update_xskmap env k (xsk_map_fd ctx) \<noteq> 0 then (None, got @ undo)
                  else
                    let ins = (if custom_xdp_prog cf then [Xskmap_Insert (xsk_map_fd ctx)] else [])
                    in case populate_fill_ring (se_api env) x of
                         None \<Rightarrow> (None, got @ ins @ undo)
                       | Some y \<Rightarrow> (Some y, got @ ins))"

section \<open>Initialisation\<close>

text \<open>Step 4: load and attach the program, find the socket map. The integer is the code's return
  value when the step fails.\<close>

definition init_program ::
  "('p, 'c, 'k) sys_env \<Rightarrow> ('p, 'c, 'k) afxdp_manager_ctx
    \<Rightarrow> int option \<times> ('p, 'c, 'k) afxdp_manager_ctx \<times> sys_event list" where
  "init_program env ctx =
     (let cf = ctx_cfg ctx in
      case se_prog_create env (xdp_obj_file cf) (xdp_prog_name cf) of
        Inl err \<Rightarrow> (Some (- err), ctx\<lparr>xdp_prog := Some (Inl err)\<rparr>, [])
      | Inr h \<Rightarrow>
          let c1 = ctx\<lparr>xdp_prog := Some (Inr h)\<rparr>; err = se_attach env h (ifindex cf) (attach_mode cf) in
          if err \<noteq> 0 then (Some err, c1, [Acquire R_Prog])
          else
            let c2 = c1\<lparr>xsk_map_fd := se_map_fd env h\<rparr> in
            if xsk_map_fd c2 < 0 then (Some (- ENOENT), c2, [Acquire R_Prog, Acquire R_Attached])
            else (None, c2, [Acquire R_Prog, Acquire R_Attached]))"

text \<open>Step 6: adopt or allocate the packet buffer.\<close>

definition init_buffer ::
  "('p, 'c, 'k) sys_env \<Rightarrow> ('p, 'c, 'k) afxdp_manager_ctx
    \<Rightarrow> int option \<times> ('p, 'c, 'k) afxdp_manager_ctx \<times> sys_event list" where
  "init_buffer env ctx0 =
     (let ctx = ctx0\<lparr>packet_buffer_size := of_nat AFXDP_NUM_FRAMES * of_nat AFXDP_FRAME_SIZE\<rparr>;
          name = ifname (ctx_cfg ctx)
      in if packet_buffer ctx \<noteq> 0 then
           let node = afxdp_get_nic_numa_node (se_host env) name in
           (None, ctx, if use_hugepages ctx \<and> node \<ge> 0
                       then afxdp_bind_numa (packet_buffer ctx) (packet_buffer_size_aligned ctx) node else [])
         else
           let (ret, c, evs) = afxdp_alloc_hugepage_buffer env (Some name) ctx
           in (if ret \<noteq> 0 then Some (- ENOMEM) else None, c, evs))"

text \<open>Steps 7 and 8: UMEM and socket.\<close>

definition init_socket ::
  "('p, 'c, 'k) sys_env \<Rightarrow> ('p, 'c, 'k) afxdp_manager_ctx
    \<Rightarrow> int \<times> ('p, 'c, 'k) afxdp_manager_ctx \<times> sys_event list" where
  "init_socket env ctx =
     (case afxdp_configure_umem env (packet_buffer ctx) (packet_buffer_size ctx) of
        (None, ev1) \<Rightarrow> (- ENOMEM, ctx\<lparr>ctx_umem := None\<rparr>, ev1)
      | (Some u, ev1) \<Rightarrow>
          let c1 = ctx\<lparr>ctx_umem := Some u\<rparr> in
          (case afxdp_configure_socket env u c1 of
             (None, ev2) \<Rightarrow>
               (- ENODEV, c1\<lparr>xsk_socket := None, ctx_umem := None\<rparr>,
                ev1 @ ev2 @ [Release R_Umem, Release R_Umem_Info])
           | (Some x, ev2) \<Rightarrow> (0, c1\<lparr>xsk_socket := Some x\<rparr>, ev1 @ ev2)))"

definition afxdp_init ::
  "('p, 'c, 'k) sys_env \<Rightarrow> string list \<Rightarrow> ('p, 'c, 'k) afxdp_manager_ctx
    \<Rightarrow> afxdp_exit + (int \<times> ('p, 'c, 'k) afxdp_manager_ctx \<times> sys_event list)" where
  "afxdp_init env argv ctx0 =
     (case afxdp_parse_args (se_host env) argv of
        Inl e \<Rightarrow> Inl e
      | Inr cf \<Rightarrow>
          let c1 = ctx0\<lparr>global_exit := False, ctx_cfg := cf\<rparr>;
              err = afxdp_preflight_checks (se_host env) cf
          in if err \<noteq> 0 then Inr (err, c1, [])
             else case init_program env c1 of
               (Some r, c2, ev1) \<Rightarrow> Inr (r, c2, Signals # ev1)
             | (None, c2, ev1) \<Rightarrow>
                 if se_setrlimit env \<noteq> 0 then Inr (- se_setrlimit env, c2, Signals # ev1)
                 else case init_buffer env c2 of
                   (Some r, c3, ev2) \<Rightarrow> Inr (r, c3, Signals # ev1 @ ev2)
                 | (None, c3, ev2) \<Rightarrow>
                     let (r, c4, ev3) = init_socket env c3 in Inr (r, c4, Signals # ev1 @ ev2 @ ev3))"

section \<open>Shut-down\<close>

text \<open>
  \<open>detach\<close> is what \<^verbatim>\<open>xdp_program__detach\<close> returns for the program pointer, which may be an error
  pointer. When it fails the code warns and goes on: the program stays attached to the interface. Closing
  an error pointer does nothing.
\<close>

definition detach_program ::
  "(int + nat \<Rightarrow> int \<Rightarrow> xdp_attach_mode \<Rightarrow> int) \<Rightarrow> ('p, 'c, 'k) afxdp_manager_ctx \<Rightarrow> sys_event list" where
  "detach_program detach ctx =
     (case xdp_prog ctx of
        None \<Rightarrow> []
      | Some prog \<Rightarrow>
          let err = detach prog (ifindex (ctx_cfg ctx)) (attach_mode (ctx_cfg ctx))
          in (if err \<noteq> 0 then [Detach_Failed err] else [Release R_Attached])
             @ (case prog of Inl e \<Rightarrow> [] | Inr h \<Rightarrow> [Release R_Prog]))"

definition afxdp_cleanup ::
  "(int + nat \<Rightarrow> int \<Rightarrow> xdp_attach_mode \<Rightarrow> int) \<Rightarrow> bool \<Rightarrow> ('p, 'c, 'k) afxdp_manager_ctx
    \<Rightarrow> ('p, 'c, 'k) afxdp_manager_ctx \<times> sys_event list" where
  "afxdp_cleanup detach final_cleanup ctx =
     (let ev_prog = detach_program detach ctx;
          c1 = ctx\<lparr>xdp_prog := None\<rparr>;
          ev_xsk = (case xsk_socket c1 of None \<Rightarrow> [] | Some x \<Rightarrow> [Release R_Xsk, Release R_Xsk_Info]);
          c2 = c1\<lparr>xsk_socket := None\<rparr>;
          ev_umem = (case ctx_umem c2 of None \<Rightarrow> [] | Some u \<Rightarrow> [Release R_Umem, Release R_Umem_Info]);
          c3 = c2\<lparr>ctx_umem := None\<rparr>
      in if final_cleanup \<and> packet_buffer c3 \<noteq> 0
         then (c3\<lparr>packet_buffer := 0\<rparr>, ev_prog @ ev_xsk @ ev_umem @ [Release R_Buffer])
         else (c3, ev_prog @ ev_xsk @ ev_umem))"

section \<open>The resources a context owns\<close>

definition has_prog :: "('p, 'c, 'k) afxdp_manager_ctx \<Rightarrow> bool" where
  "has_prog ctx = (case xdp_prog ctx of Some (Inr h) \<Rightarrow> True | _ \<Rightarrow> False)"

definition owns :: "('p, 'c, 'k) afxdp_manager_ctx \<Rightarrow> resource set \<Rightarrow> bool" where
  "owns ctx R \<longleftrightarrow>
     (R_Buffer \<in> R \<longleftrightarrow> packet_buffer ctx \<noteq> 0)
     \<and> (R_Prog \<in> R \<longleftrightarrow> has_prog ctx) \<and> (R_Attached \<in> R \<longrightarrow> has_prog ctx)
     \<and> (R_Umem_Info \<in> R \<longleftrightarrow> ctx_umem ctx \<noteq> None) \<and> (R_Umem \<in> R \<longleftrightarrow> ctx_umem ctx \<noteq> None)
     \<and> (R_Xsk_Info \<in> R \<longleftrightarrow> xsk_socket ctx \<noteq> None) \<and> (R_Xsk \<in> R \<longleftrightarrow> xsk_socket ctx \<noteq> None)"

definition idle_ctx :: "('p, 'c, 'k) afxdp_manager_ctx \<Rightarrow> bool" where
  "idle_ctx ctx \<longleftrightarrow> xdp_prog ctx = None \<and> ctx_umem ctx = None \<and> xsk_socket ctx = None"

text \<open>A successful allocation returns a buffer that is not at address 0.\<close>

definition buffers_nonnull :: "('p, 'c, 'k) sys_env \<Rightarrow> bool" where
  "buffers_nonnull env \<longleftrightarrow> se_mmap env \<noteq> Some 0 \<and> se_memalign env \<noteq> Some 0"

lemma live_append [simp]: "live (es @ fs) R = live fs (live es R)"
  by (induction es arbitrary: R) auto

lemma clean_trace_append [simp]: "clean_trace (es @ fs) R \<longleftrightarrow> clean_trace es R \<and> clean_trace fs (live es R)"
  by (induction es arbitrary: R) auto

lemma bind_numa_neutral [simp]:
  "live (afxdp_bind_numa a s n) R = R" "clean_trace (afxdp_bind_numa a s n) R"
  by (simp_all add: afxdp_bind_numa_def)

lemma owns_alloc_buffer:
  assumes "afxdp_alloc_hugepage_buffer env ifn ctx = (ret, c, ev)" "owns ctx R" "packet_buffer ctx = 0"
    and "buffers_nonnull env"
  shows "owns c (live ev R) \<and> clean_trace ev R \<and> (ret = 0 \<longrightarrow> packet_buffer c \<noteq> 0)
    \<and> xdp_prog c = xdp_prog ctx \<and> ctx_umem c = ctx_umem ctx \<and> xsk_socket c = xsk_socket ctx"
  using assms
  by (cases "se_mmap env"; cases "se_memalign env"; cases ifn;
      clarsimp simp: afxdp_alloc_hugepage_buffer_def owns_def has_prog_def buffers_nonnull_def Let_def)

lemma owns_init_program:
  assumes "init_program env ctx = (r, c, ev)" "owns ctx R" "idle_ctx ctx"
  shows "owns c (live ev R) \<and> clean_trace ev R \<and> ctx_umem c = None \<and> xsk_socket c = None
    \<and> packet_buffer c = packet_buffer ctx"
proof (cases "se_prog_create env (xdp_obj_file (ctx_cfg ctx)) (xdp_prog_name (ctx_cfg ctx))")
  case (Inl err)
  then show ?thesis using assms by (clarsimp simp: init_program_def owns_def has_prog_def idle_ctx_def)
next
  case (Inr h)
  then show ?thesis
    using assms
    by (cases "se_attach env h (ifindex (ctx_cfg ctx)) (attach_mode (ctx_cfg ctx)) = 0"; cases "se_map_fd env h < 0";
        clarsimp simp: init_program_def owns_def has_prog_def idle_ctx_def Let_def)
qed

lemma owns_init_buffer:
  assumes "init_buffer env ctx = (r, c, ev)" "owns ctx R" "buffers_nonnull env"
  shows "owns c (live ev R) \<and> clean_trace ev R \<and> (r = None \<longrightarrow> packet_buffer c \<noteq> 0)
    \<and> xdp_prog c = xdp_prog ctx \<and> ctx_umem c = ctx_umem ctx \<and> xsk_socket c = xsk_socket ctx"
proof -
  let ?ctx = "ctx\<lparr>packet_buffer_size := of_nat AFXDP_NUM_FRAMES * of_nat AFXDP_FRAME_SIZE\<rparr>"
  have o: "owns ?ctx R" using assms(2) by (simp add: owns_def has_prog_def)
  show ?thesis
  proof (cases "packet_buffer ctx = 0")
    case True
    obtain ret c' ev' where a: "afxdp_alloc_hugepage_buffer env (Some (ifname (ctx_cfg ?ctx))) ?ctx = (ret, c', ev')"
      by (metis prod_cases3)
    have eq: "r = (if ret \<noteq> 0 then Some (- ENOMEM) else None)" "c = c'" "ev = ev'"
      using assms(1) True a by (auto simp: init_buffer_def Let_def)
    show ?thesis using owns_alloc_buffer [OF a o] True assms(3) eq by auto
  next
    case False
    then show ?thesis using assms(1) o by (auto simp: init_buffer_def Let_def)
  qed
qed

lemma configure_umem_trace:
  assumes "afxdp_configure_umem env b n = (u, ev)" "R_Umem_Info \<notin> R" "R_Umem \<notin> R"
  shows "clean_trace ev R \<and> live ev R = R \<union> (if u = None then {} else {R_Umem_Info, R_Umem})"
  using assms by (auto simp: afxdp_configure_umem_def split: if_splits sum.splits)

lemma configure_socket_trace:
  assumes "afxdp_configure_socket env u ctx = (x, ev)" "R_Xsk_Info \<notin> R" "R_Xsk \<notin> R"
  shows "clean_trace ev R \<and> live ev R = R \<union> (if x = None then {} else {R_Xsk_Info, R_Xsk})"
  using assms
  by (auto simp: afxdp_configure_socket_def Let_def split: if_splits sum.splits option.splits)

lemma owns_init_socket:
  assumes "init_socket env ctx = (r, c, ev)" "owns ctx R" "ctx_umem ctx = None" "xsk_socket ctx = None"
  shows "owns c (live ev R) \<and> clean_trace ev R \<and> (r = 0 \<longleftrightarrow> xsk_socket c \<noteq> None) \<and> (r \<noteq> 0 \<longrightarrow> r < 0)"
proof -
  obtain u ev1 where u: "afxdp_configure_umem env (packet_buffer ctx) (packet_buffer_size ctx) = (u, ev1)"
    by (metis surj_pair)
  have R: "R_Umem_Info \<notin> R" "R_Umem \<notin> R" "R_Xsk_Info \<notin> R" "R_Xsk \<notin> R"
    using assms(2-4) by (simp_all add: owns_def)
  show ?thesis
  proof (cases u)
    case None
    then show ?thesis
      using assms u configure_umem_trace [OF u R(1,2)] by (clarsimp simp: init_socket_def owns_def has_prog_def)
  next
    case (Some v)
    obtain x ev2 where x: "afxdp_configure_socket env v (ctx\<lparr>ctx_umem := Some v\<rparr>) = (x, ev2)"
      by (metis surj_pair)
    have "clean_trace ev2 (live ev1 R) \<and> live ev2 (live ev1 R) = live ev1 R \<union> (if x = None then {} else {R_Xsk_Info, R_Xsk})"
      using configure_umem_trace [OF u R(1,2)] R(3,4) Some by (intro configure_socket_trace [OF x]) auto
    then show ?thesis
      using assms u x Some configure_umem_trace [OF u R(1,2)]
      by (cases x) (clarsimp simp: init_socket_def owns_def has_prog_def Let_def)+
  qed
qed

text \<open>What the clean-up releases, stage by stage.\<close>

lemma cleanup_events:
  assumes "afxdp_cleanup detach f ctx = (c, ev)"
  shows "\<exists>e1 e2 e3 e4. ev = e1 @ e2 @ e3 @ e4
    \<and> e1 = detach_program detach ctx
    \<and> e2 = (if xsk_socket ctx = None then [] else [Release R_Xsk, Release R_Xsk_Info])
    \<and> e3 = (if ctx_umem ctx = None then [] else [Release R_Umem, Release R_Umem_Info])
    \<and> e4 = (if f \<and> packet_buffer ctx \<noteq> 0 then [Release R_Buffer] else [])
    \<and> idle_ctx c \<and> packet_buffer c = (if f then 0 else packet_buffer ctx)"
  using assms by (auto simp: afxdp_cleanup_def Let_def idle_ctx_def split: option.splits if_splits)

definition detach_fails ::
  "(int + nat \<Rightarrow> int \<Rightarrow> xdp_attach_mode \<Rightarrow> int) \<Rightarrow> ('p, 'c, 'k) afxdp_manager_ctx \<Rightarrow> bool" where
  "detach_fails detach ctx \<longleftrightarrow>
     (\<exists>h. xdp_prog ctx = Some (Inr h) \<and> detach (Inr h) (ifindex (ctx_cfg ctx)) (attach_mode (ctx_cfg ctx)) \<noteq> 0)"

lemma detach_program_trace:
  assumes "owns ctx R"
  shows "clean_trace (detach_program detach ctx) R
    \<and> live (detach_program detach ctx) R = R - {R_Prog} - (if detach_fails detach ctx then {} else {R_Attached})"
  using assms
  by (auto simp: owns_def has_prog_def detach_fails_def detach_program_def Let_def split: option.splits sum.splits if_splits)

lemma owns_cleanup:
  assumes "afxdp_cleanup detach f ctx = (c, ev)" "owns ctx R"
  shows "clean_trace ev R \<and> idle_ctx c
    \<and> live ev R = (if f then {} else R \<inter> {R_Buffer}) \<union> (if detach_fails detach ctx then R \<inter> {R_Attached} else {})
    \<and> packet_buffer c = (if f then 0 else packet_buffer ctx)"
proof -
  obtain e1 e2 e3 e4 where ev: "ev = e1 @ e2 @ e3 @ e4"
    and e1: "e1 = detach_program detach ctx"
    and e: "e2 = (if xsk_socket ctx = None then [] else [Release R_Xsk, Release R_Xsk_Info])"
      "e3 = (if ctx_umem ctx = None then [] else [Release R_Umem, Release R_Umem_Info])"
      "e4 = (if f \<and> packet_buffer ctx \<noteq> 0 then [Release R_Buffer] else [])"
      "idle_ctx c" "packet_buffer c = (if f then 0 else packet_buffer ctx)"
    using cleanup_events [OF assms(1)] by blast
  let ?keep = "if detach_fails detach ctx then {} else {R_Attached}"
  note s1 = detach_program_trace [OF assms(2), of detach]
  have own: "R_Buffer \<in> R \<longleftrightarrow> packet_buffer ctx \<noteq> 0" "R_Umem_Info \<in> R \<longleftrightarrow> ctx_umem ctx \<noteq> None"
    "R_Umem \<in> R \<longleftrightarrow> ctx_umem ctx \<noteq> None" "R_Xsk_Info \<in> R \<longleftrightarrow> xsk_socket ctx \<noteq> None" "R_Xsk \<in> R \<longleftrightarrow> xsk_socket ctx \<noteq> None"
    using assms(2) by (simp_all add: owns_def)
  have l: "live ev R = R - {R_Prog} - ?keep - {R_Xsk, R_Xsk_Info} - {R_Umem, R_Umem_Info} - (if f then {R_Buffer} else {})"
    unfolding ev e1 e using s1 own by auto
  have "r \<in> live ev R \<longleftrightarrow> r \<in> (if f then {} else R \<inter> {R_Buffer}) \<union> (if detach_fails detach ctx then R \<inter> {R_Attached} else {})" for r
    unfolding l by (cases r) simp_all
  moreover have "clean_trace ev R" unfolding ev e1 e using s1 own by auto
  ultimately show ?thesis using e(4,5) by blast
qed

lemma owns_init:
  assumes init: "afxdp_init env argv ctx0 = Inr (r, c, ev)" and own: "owns ctx0 R" "idle_ctx ctx0"
    and nn: "buffers_nonnull env"
  shows "owns c (live ev R) \<and> clean_trace ev R"
proof -
  obtain cf where cf: "afxdp_parse_args (se_host env) argv = Inr cf"
    using init by (auto simp: afxdp_init_def split: sum.splits)
  let ?c1 = "ctx0\<lparr>global_exit := False, ctx_cfg := cf\<rparr>"
  have c1: "owns ?c1 R" "idle_ctx ?c1" using own by (simp_all add: owns_def idle_ctx_def has_prog_def)
  obtain r2 c2 ev1 where p: "init_program env ?c1 = (r2, c2, ev1)" by (metis prod_cases3)
  note P = owns_init_program [OF p c1]
  obtain r3 c3 ev2 where b: "init_buffer env c2 = (r3, c3, ev2)" by (metis prod_cases3)
  note B = owns_init_buffer [OF b conjunct1 [OF P] nn]
  obtain r4 c4 ev3 where k: "init_socket env c3 = (r4, c4, ev3)" by (metis prod_cases3)
  note K = owns_init_socket [OF k conjunct1 [OF B]]
  show ?thesis
    using init c1 P B K
    by (auto simp: afxdp_init_def cf p b k Let_def split: if_splits option.splits)
qed

section \<open>A started socket\<close>

context xsk_rings
begin

text \<open>The fill ring is populated from the full pool: the last frames of the array go to the kernel.\<close>

lemma populate_fill_ring_spec:
  assumes "pents (fq (umem x)) = []" "pspace (fq (umem x)) = AFXDP_FILL_RING_SIZE"
  shows "\<exists>y. populate_fill_ring api x = Some y \<and> umem_wf y
    \<and> free_frames y = take (AFXDP_NUM_FRAMES - AFXDP_FILL_RING_SIZE) init_frame_addrs
    \<and> map addr (pents (fq (umem y))) = rev (drop (AFXDP_NUM_FRAMES - AFXDP_FILL_RING_SIZE) init_frame_addrs)
    \<and> pspace (fq (umem y)) = 0 \<and> rx y = rx x \<and> tx y = tx x \<and> cq (umem y) = cq (umem x) \<and> xsk y = xsk x
    \<and> stats y = stats x \<and> outstanding_tx y = outstanding_tx x"
proof -
  let ?x = "x\<lparr>umem_frame_addr := init_frame_addrs, umem_frame_free := of_nat AFXDP_NUM_FRAMES\<rparr>"
  let ?n = "of_nat AFXDP_FILL_RING_SIZE :: u32"
  let ?m = "alloc_many afxdp_alloc_umem_frame AFXDP_FILL_RING_SIZE ?x"
  have n: "unat ?n = AFXDP_FILL_RING_SIZE" by (simp add: AFXDP_FILL_RING_SIZE_def)
  have x: "umem_wf ?x" "free_frames ?x = init_frame_addrs"
    by (simp_all add: umem_wf_def free_frames_def)
  have A: "umem_wf (snd ?m)" "free_frames (snd ?m) = take (AFXDP_NUM_FRAMES - AFXDP_FILL_RING_SIZE) init_frame_addrs"
    "fst ?m = rev (drop (AFXDP_NUM_FRAMES - AFXDP_FILL_RING_SIZE) init_frame_addrs)"
    using umem_pool.alloc_many_enough [OF x(1), of AFXDP_FILL_RING_SIZE] x(2)
    by (simp_all add: afxdp_consts)
  obtain r idx q where "prod_reserve api (fq (umem x)) ?n = (r, idx, q)" by (metis prod_cases3)
  moreover from this have "r = ?n" using reserve_room assms(2) n by simp
  ultimately have q: "prod_reserve api (fq (umem x)) ?n = (?n, idx, q)" by simp
  let ?f = "prod_submit api (fill_writes api q idx (fst ?m)) ?n"
  have f: "map addr (pents ?f) = fst ?m" "pspace ?f = 0"
    using submit_fill [OF q, of "fst ?m"] assms n by simp_all
  have "populate_fill_ring api x = Some ((snd ?m)\<lparr>umem := (umem x)\<lparr>fq := ?f\<rparr>\<rparr>)"
    using q by (simp add: populate_fill_ring_def fill_loop_run alloc_many_umem_commute split_beta Let_def)
  then show ?thesis using A f by (simp add: frame_rules)
qed

end

text \<open>Freshly created rings are empty and have the requested size; the kernel holds no frame yet.\<close>

definition fresh_rings ::
  "('p, 'c, 'k) sys_env \<Rightarrow> ('c \<Rightarrow> xdp_desc list) \<Rightarrow> ('p \<Rightarrow> xdp_desc list) \<Rightarrow> ('p \<Rightarrow> nat) \<Rightarrow> ('k \<Rightarrow> u64 multiset) \<Rightarrow> bool" where
  "fresh_rings env cents pents pspace kframes \<longleftrightarrow>
     (\<forall>b n cfg h f c. se_umem_create env b n cfg = Inr (h, f, c) \<longrightarrow>
        pents f = [] \<and> pspace f = unat (uc_fill_size cfg) \<and> cents c = [])
     \<and> (\<forall>i q h cf k c p. se_socket_create env i q h cf = Inr (k, c, p) \<longrightarrow>
        cents c = [] \<and> pents p = [] \<and> pspace p = unat (xc_tx_size cf) \<and> kframes k = {#})"

definition started ::
  "('c \<Rightarrow> xdp_desc list) \<Rightarrow> ('p \<Rightarrow> xdp_desc list) \<Rightarrow> ('p \<Rightarrow> nat) \<Rightarrow> ('k \<Rightarrow> u64 multiset)
    \<Rightarrow> ('p, 'c, 'k) afxdp_socket_info \<Rightarrow> bool" where
  "started cents pents pspace kframes x \<longleftrightarrow>
     umem_wf x \<and> all_frames cents pents kframes x = mset init_frame_addrs
     \<and> length (free_frames x) = AFXDP_NUM_FRAMES - AFXDP_FILL_RING_SIZE
     \<and> length (pents (fq (umem x))) = AFXDP_FILL_RING_SIZE \<and> pspace (fq (umem x)) = 0
     \<and> cents (rx x) = [] \<and> pents (tx x) = [] \<and> pspace (tx x) = AFXDP_TX_RING_SIZE \<and> cents (cq (umem x)) = []
     \<and> kframes (xsk x) = {#} \<and> stats x = zero_stats \<and> outstanding_tx x = 0"

lemma configure_socket_started:
  assumes rings: "xsk_rings (se_api env) cents pents pspace kframes" and fresh: "fresh_rings env cents pents pspace kframes"
    and umem: "afxdp_configure_umem env b n = (Some u, ev1)"
    and sock: "afxdp_configure_socket env u ctx = (Some x, ev)"
  shows "started cents pents pspace kframes x"
proof -
  let ?cf = "ctx_cfg ctx"
  obtain k c p where kcp: "se_socket_create env (ifname ?cf) (xsk_if_queue ?cf) (umem_handle u) (socket_config ?cf) = Inr (k, c, p)"
    and x: "populate_fill_ring (se_api env) \<lparr>rx = c, tx = p, umem = u, xsk = k, umem_frame_addr = [],
       umem_frame_free = 0, outstanding_tx = 0, stats = zero_stats, prev_stats = zero_stats\<rparr> = Some x"
    using sock by (auto simp: afxdp_configure_socket_def Let_def split: if_splits sum.splits option.splits prod.splits)
  have fr: "cents c = []" "pents p = []" "pspace p = AFXDP_TX_RING_SIZE" "kframes k = {#}"
    "pents (fq u) = []" "pspace (fq u) = AFXDP_FILL_RING_SIZE" "cents (cq u) = []"
    using fresh kcp umem
    by (auto simp: fresh_rings_def afxdp_configure_umem_def socket_config_def AFXDP_TX_RING_SIZE_def split: if_splits sum.splits)
  let ?k = "AFXDP_NUM_FRAMES - AFXDP_FILL_RING_SIZE"
  have y: "umem_wf x" "free_frames x = take ?k init_frame_addrs"
    "map addr (pents (fq (umem x))) = rev (drop ?k init_frame_addrs)" "pspace (fq (umem x)) = 0"
    "rx x = c" "tx x = p" "cq (umem x) = cq u" "xsk x = k" "stats x = zero_stats" "outstanding_tx x = 0"
    using xsk_rings.populate_fill_ring_spec [OF rings, of "\<lparr>rx = c, tx = p, umem = u, xsk = k, umem_frame_addr = [],
       umem_frame_free = 0, outstanding_tx = 0, stats = zero_stats, prev_stats = zero_stats\<rparr>"] x fr
    by auto
  have "addrs_of (pents (fq (umem x))) = mset (drop ?k init_frame_addrs)"
    using arg_cong [OF y(3), of mset] by simp
  moreover have "length (pents (fq (umem x))) = AFXDP_FILL_RING_SIZE"
    using arg_cong [OF y(3), of length] by (simp add: afxdp_consts)
  moreover have "length (take ?k init_frame_addrs) = ?k" by (simp add: afxdp_consts)
  ultimately show ?thesis
    using y fr mset_take_drop [of ?k init_frame_addrs]
    by (simp add: started_def all_frames_def kernel_frames_def)
qed

lemma init_started:
  assumes init: "afxdp_init env argv ctx0 = Inr (0, ctx, ev)" and idle: "xsk_socket ctx0 = None"
    and rings: "xsk_rings (se_api env) cents pents pspace kframes" and fresh: "fresh_rings env cents pents pspace kframes"
    and errs: "\<forall>f n e. se_prog_create env f n = Inl e \<longrightarrow> e \<noteq> 0"
  shows "\<exists>x. xsk_socket ctx = Some x \<and> started cents pents pspace kframes x"
  using init errs
  by (auto simp: afxdp_init_def init_program_def init_buffer_def init_socket_def Let_def
      split: sum.splits if_splits option.splits prod.splits
      intro: configure_socket_started [OF rings fresh])

end
