(* ===== verification/AfxdpSystem.thy ===== *)
theory AfxdpSystem
  imports AfxdpLifecycle
begin

text \<open>
  The socket as a transition system: steps of the RX thread (one \<^verbatim>\<open>afxdp_handle_receive\<close>) and moves
  of the kernel (frames taken from the fill and TX rings, packets delivered on the RX ring,
  completions), in any order and in any number. The kernel is only required to conserve frames: it may
  work in copy or in zero-copy mode, keep any number of frames, and hand a frame back at an offset (the
  RX headroom), so ownership is by frame, the address divided by the frame size. Every UMEM frame is
  in exactly one place in every reachable state and the RX thread's assertion never fires.
\<close>

section \<open>Frames\<close>

text \<open>The frame an address lies in. An address is genuine when that frame is part of the UMEM.\<close>

definition frame_of :: "u64 \<Rightarrow> nat" where
  "frame_of a = unat a div AFXDP_FRAME_SIZE"

definition genuine :: "u64 \<Rightarrow> bool" where
  "genuine a \<longleftrightarrow> frame_of a < AFXDP_NUM_FRAMES"

text \<open>The frames among some addresses; \<^const>\<open>AFXDP_INVALID_UMEM_FRAME\<close> is in none.\<close>

definition frames_in :: "u64 multiset \<Rightarrow> nat multiset" where
  "frames_in M = image_mset frame_of (filter_mset genuine M)"

lemma set_addrs_of [simp]: "set_mset (addrs_of ds) = addr ` set ds"
  by (simp add: addrs_of_def del: addrs_of_simps)

lemma frames_in_union [simp]: "frames_in (M + N) = frames_in M + frames_in N"
  by (simp add: frames_in_def)

lemma invalid_not_genuine [simp]: "\<not> genuine AFXDP_INVALID_UMEM_FRAME"
  by (simp add: genuine_def frame_of_def afxdp_consts AFXDP_INVALID_UMEM_FRAME_def unsigned_minus_1_eq_mask mask_eq_exp_minus_1)

lemma frames_in_invalid [simp]: "frames_in (replicate_mset j AFXDP_INVALID_UMEM_FRAME) = {#}"
  by (induction j) (simp_all add: frames_in_def)

lemma frames_in_genuine: "\<forall>a \<in># M. genuine a \<Longrightarrow> frames_in M = image_mset frame_of M"
  by (induction M) (simp_all add: frames_in_def)

lemma count_frames_in: "i < AFXDP_NUM_FRAMES \<Longrightarrow> count (image_mset frame_of M) i = count (frames_in M) i"
  by (induction M) (auto simp: frames_in_def genuine_def)

lemma frame_of_offset: "i < AFXDP_NUM_FRAMES \<Longrightarrow> k < AFXDP_FRAME_SIZE \<Longrightarrow> frame_of (of_nat (i * AFXDP_FRAME_SIZE + k)) = i"
  unfolding frame_of_def by (subst unat_of_nat_exact) (simp_all add: afxdp_consts)

lemma frame_of_base: "i < AFXDP_NUM_FRAMES \<Longrightarrow> frame_of (of_nat (i * AFXDP_FRAME_SIZE)) = i"
  using frame_of_offset [of i 0] by (simp add: AFXDP_FRAME_SIZE_def)

lemma init_frames: "map frame_of init_frame_addrs = [0..<AFXDP_NUM_FRAMES]" "a \<in> set init_frame_addrs \<Longrightarrow> genuine a"
  by (auto simp: init_frame_addrs_def genuine_def frame_of_base simp del: of_nat_mult intro!: map_idI)

section \<open>Steps\<close>

text \<open>
  A kernel move leaves the user-space fields alone, consumes its end of the producer rings from the
  front and appends to the consumer rings. It neither loses nor invents frames; it drops an address
  outside the UMEM when it reads it from the fill ring, so what it hands out and keeps are genuine ones.
\<close>

definition kernel_move ::
  "('c \<Rightarrow> xdp_desc list) \<Rightarrow> ('p \<Rightarrow> xdp_desc list) \<Rightarrow> ('p \<Rightarrow> nat) \<Rightarrow> ('k \<Rightarrow> u64 multiset)
    \<Rightarrow> ('p, 'c, 'k) afxdp_socket_info \<Rightarrow> ('p, 'c, 'k) afxdp_socket_info \<Rightarrow> bool" where
  "kernel_move cents pents pspace kframes x y \<longleftrightarrow>
     umem_frame_addr y = umem_frame_addr x \<and> umem_frame_free y = umem_frame_free x
     \<and> outstanding_tx y = outstanding_tx x \<and> stats y = stats x
     \<and> (\<exists>n. pents (fq (umem y)) = drop n (pents (fq (umem x))))
     \<and> (\<exists>n. pents (tx y) = drop n (pents (tx x)))
     \<and> (\<exists>ds. cents (rx y) = cents (rx x) @ ds \<and> (\<forall>d \<in> set ds. genuine (addr d)))
     \<and> (\<exists>ds. cents (cq (umem y)) = cents (cq (umem x)) @ ds \<and> (\<forall>d \<in> set ds. genuine (addr d)))
     \<and> (\<forall>a \<in># kframes (xsk y). genuine a)
     \<and> length (pents (fq (umem y))) + pspace (fq (umem y)) = length (pents (fq (umem x))) + pspace (fq (umem x))
     \<and> length (pents (tx y)) + pspace (tx y) = length (pents (tx x)) + pspace (tx x)
     \<and> frames_in (kernel_frames cents pents kframes y) = frames_in (kernel_frames cents pents kframes x)"

inductive afxdp_step ::
  "('p, 'c, 'k) xsk_api \<Rightarrow> ('c \<Rightarrow> xdp_desc list) \<Rightarrow> ('p \<Rightarrow> xdp_desc list) \<Rightarrow> ('p \<Rightarrow> nat) \<Rightarrow> ('k \<Rightarrow> u64 multiset)
    \<Rightarrow> ('p, 'c, 'k) afxdp_socket_info \<Rightarrow> ('p, 'c, 'k) afxdp_socket_info \<Rightarrow> bool"
  for api cents pents pspace kframes where
  user_step: "receive_step api x = Some y \<Longrightarrow> afxdp_step api cents pents pspace kframes x y"
| kern_step: "kernel_move cents pents pspace kframes x y \<Longrightarrow> afxdp_step api cents pents pspace kframes x y"

inductive_cases afxdp_stepE: "afxdp_step api cents pents pspace kframes x y"

text \<open>The states a started socket can reach.\<close>

inductive afxdp_reachable ::
  "('p, 'c, 'k) xsk_api \<Rightarrow> ('c \<Rightarrow> xdp_desc list) \<Rightarrow> ('p \<Rightarrow> xdp_desc list) \<Rightarrow> ('p \<Rightarrow> nat) \<Rightarrow> ('k \<Rightarrow> u64 multiset)
    \<Rightarrow> ('p, 'c, 'k) afxdp_socket_info \<Rightarrow> bool"
  for api cents pents pspace kframes where
  start: "started cents pents pspace kframes x \<Longrightarrow> afxdp_reachable api cents pents pspace kframes x"
| step: "afxdp_reachable api cents pents pspace kframes x \<Longrightarrow> afxdp_step api cents pents pspace kframes x y \<Longrightarrow>
     afxdp_reachable api cents pents pspace kframes y"

section \<open>The invariant\<close>

definition frames_inv ::
  "('c \<Rightarrow> xdp_desc list) \<Rightarrow> ('p \<Rightarrow> xdp_desc list) \<Rightarrow> ('p \<Rightarrow> nat) \<Rightarrow> ('k \<Rightarrow> u64 multiset)
    \<Rightarrow> ('p, 'c, 'k) afxdp_socket_info \<Rightarrow> bool" where
  "frames_inv cents pents pspace kframes x \<longleftrightarrow>
     umem_wf x \<and> frames_in (all_frames cents pents kframes x) = mset [0..<AFXDP_NUM_FRAMES]
     \<and> (\<forall>a \<in># beyond_fill cents pents kframes x. genuine a)
     \<and> (\<forall>a \<in># addrs_of (pents (fq (umem x))). genuine a \<or> a = AFXDP_INVALID_UMEM_FRAME)
     \<and> length (pents (fq (umem x))) + pspace (fq (umem x)) = AFXDP_FILL_RING_SIZE
     \<and> length (pents (tx x)) + pspace (tx x) = AFXDP_TX_RING_SIZE"

lemma started_inv:
  assumes "started cents pents pspace kframes x"
  shows "frames_inv cents pents pspace kframes x"
proof -
  have all: "all_frames cents pents kframes x = mset init_frame_addrs" using assms by (simp add: started_def)
  then have gen: "\<forall>a \<in># all_frames cents pents kframes x. genuine a" using init_frames(2) by simp
  have "frames_in (all_frames cents pents kframes x) = mset [0..<AFXDP_NUM_FRAMES]"
    using frames_in_genuine [OF gen] by (simp only: all mset_map [symmetric] init_frames(1))
  moreover have "\<forall>a \<in># beyond_fill cents pents kframes x. genuine a" "\<forall>a \<in># addrs_of (pents (fq (umem x))). genuine a"
    using gen by (simp_all add: all_frames_split)
  ultimately show ?thesis using assms by (simp add: started_def frames_inv_def)
qed

text \<open>Frames outside the fill ring are distinct ones of the UMEM, so there are at most as many.\<close>

lemma inv_beyond_fill:
  assumes "frames_inv cents pents pspace kframes x"
  shows "size (beyond_fill cents pents kframes x) \<le> AFXDP_NUM_FRAMES"
proof -
  have "size (frames_in (all_frames cents pents kframes x)) = AFXDP_NUM_FRAMES"
    using assms by (simp add: frames_inv_def)
  then show ?thesis
    using assms frames_in_genuine [of "beyond_fill cents pents kframes x"]
    by (simp add: all_frames_split frames_inv_def)
qed

context xsk_rings
begin

lemma inv_receive_step:
  assumes inv: "frames_inv cents pents pspace kframes x"
  shows "\<exists>y. receive_step api x = Some y \<and> frames_inv cents pents pspace kframes y"
proof -
  obtain y j where y: "receive_step api x = Some y" "umem_wf y"
    "prod_size (tx y) = prod_size (tx x)" "prod_size (fq (umem y)) = prod_size (fq (umem x))"
    "frames_total y = frames_total x + replicate_mset j AFXDP_INVALID_UMEM_FRAME"
    "beyond_fill cents pents kframes y \<subseteq># beyond_fill cents pents kframes x"
    using receive_step_spec [OF _ inv_beyond_fill [OF inv]] inv unfolding frames_inv_def by blast
  have "genuine a \<or> a = AFXDP_INVALID_UMEM_FRAME" if "a \<in># addrs_of (pents (fq (umem y)))" for a
  proof -
    have "a \<in># frames_total y" using that by (simp add: all_frames_split)
    then have "a \<in># frames_total x \<or> a = AFXDP_INVALID_UMEM_FRAME" unfolding y(5) by (auto split: if_splits)
    moreover have "a \<in># frames_total x \<Longrightarrow> ?thesis" using inv by (auto simp: all_frames_split frames_inv_def)
    ultimately show ?thesis by blast
  qed
  then show ?thesis
    using y(1-5) inv mset_subset_eqD [OF y(6)] by (simp add: frames_inv_def)
qed

lemma inv_kernel_move:
  assumes inv: "frames_inv cents pents pspace kframes x" and move: "kernel_move cents pents pspace kframes x y"
  shows "frames_inv cents pents pspace kframes y"
proof -
  have free: "free_frames y = free_frames x" "umem_wf y = umem_wf x"
    using move free_frames_cong [of y x] by (simp_all add: kernel_move_def)
  obtain n m rs cs where r: "pents (fq (umem y)) = drop n (pents (fq (umem x)))" "pents (tx y) = drop m (pents (tx x))"
    "cents (rx y) = cents (rx x) @ rs" "\<forall>d \<in> set rs. genuine (addr d)"
    "cents (cq (umem y)) = cents (cq (umem x)) @ cs" "\<forall>d \<in> set cs. genuine (addr d)"
    "\<forall>a \<in># kframes (xsk y). genuine a"
    "frames_in (kernel_frames cents pents kframes y) = frames_in (kernel_frames cents pents kframes x)"
    using move unfolding kernel_move_def by blast
  have "frames_in (frames_total y) = frames_in (frames_total x)"
    using r(8) free by (simp add: all_frames_def)
  moreover have "\<forall>a \<in># beyond_fill cents pents kframes y. genuine a"
  proof -
    have old: "\<forall>a \<in># beyond_fill cents pents kframes x. genuine a" using inv by (simp add: frames_inv_def)
    have "set (drop m (pents (tx x))) \<subseteq> set (pents (tx x))" by (rule set_drop_subset)
    then show ?thesis
      using old r(4,6,7) unfolding beyond_fill_def free r(2,3,5) by (auto)
  qed
  moreover have "\<forall>a \<in># addrs_of (pents (fq (umem y))). genuine a \<or> a = AFXDP_INVALID_UMEM_FRAME"
  proof -
    have old: "\<forall>a \<in># addrs_of (pents (fq (umem x))). genuine a \<or> a = AFXDP_INVALID_UMEM_FRAME" using inv by (simp add: frames_inv_def)
    have "set (drop n (pents (fq (umem x)))) \<subseteq> set (pents (fq (umem x)))" by (rule set_drop_subset)
    then show ?thesis using old unfolding r(1) by auto
  qed
  ultimately show ?thesis
    using inv move free by (simp add: frames_inv_def kernel_move_def)
qed

lemma inv_reachable:
  "afxdp_reachable api cents pents pspace kframes x \<Longrightarrow> frames_inv cents pents pspace kframes x"
proof (induction rule: afxdp_reachable.induct)
  case (step x y)
  from step.hyps(2) show ?case
  proof (cases rule: afxdp_step.cases)
    case user_step
    then show ?thesis using inv_receive_step [OF step.IH] by simp
  next
    case kern_step
    then show ?thesis by (rule inv_kernel_move [OF step.IH])
  qed
qed (rule started_inv)

end

section \<open>A concrete host\<close>

text \<open>The reference rings with the sizes the code asks for, on the host of the argument examples.\<close>

definition demo_sys :: "(ref_prod, ref_cons, unit) sys_env" where
  "demo_sys = \<lparr>se_host = demo_env, se_api = ref_api, se_mmap = None, se_memalign = Some 4096,
     se_prog_create = (\<lambda>f n. Inr 3), se_attach = (\<lambda>h i m. 0), se_map_fd = (\<lambda>h. 9), se_setrlimit = 0,
     se_calloc_umem = True,
     se_umem_create = (\<lambda>b n cfg. Inr (1, \<lparr>rp_cap = unat (uc_fill_size cfg), rp_ents = [], rp_slots = []\<rparr>, \<lparr>rc_ents = []\<rparr>)),
     se_calloc_xsk = True,
     se_socket_create = (\<lambda>i q h c. Inr ((), \<lparr>rc_ents = []\<rparr>, \<lparr>rp_cap = unat (xc_tx_size c), rp_ents = [], rp_slots = []\<rparr>)),
     se_update_xskmap = (\<lambda>k f. 0)\<rparr>"

abbreviation no_kframes :: "unit \<Rightarrow> u64 multiset" where
  "no_kframes \<equiv> \<lambda>_. {#}"

lemma demo_fresh: "fresh_rings demo_sys rc_ents rp_ents ref_space no_kframes"
  by (simp add: fresh_rings_def demo_sys_def ref_space_def)

lemma demo_init_ok: "\<exists>ctx ev. afxdp_init demo_sys demo_argv zero_ctx = Inr (0, ctx, ev)"
proof -
  have pop: "\<exists>y. populate_fill_ring ref_api \<lparr>rx = c, tx = p, umem = \<lparr>fq = \<lparr>rp_cap = AFXDP_FILL_RING_SIZE, rp_ents = [], rp_slots = []\<rparr>,
       cq = c2, umem_handle = h, umem_buffer = b\<rparr>, xsk = k, umem_frame_addr = [],
       umem_frame_free = 0, outstanding_tx = 0, stats = zero_stats, prev_stats = zero_stats\<rparr> = Some y" for c p c2 h b k
    using ref_rings.populate_fill_ring_spec [of "\<lparr>rx = c, tx = p, umem = \<lparr>fq = \<lparr>rp_cap = AFXDP_FILL_RING_SIZE, rp_ents = [], rp_slots = []\<rparr>,
       cq = c2, umem_handle = h, umem_buffer = b\<rparr>, xsk = k, umem_frame_addr = [],
       umem_frame_free = 0, outstanding_tx = 0, stats = zero_stats, prev_stats = zero_stats\<rparr>"]
    by (auto simp: ref_space_def)
  have host: "se_host demo_sys = demo_env" by (simp add: demo_sys_def)
  show ?thesis
    using pop
    by (simp add: afxdp_init_def host demo_args demo_preflight init_program_def init_buffer_def init_socket_def
        afxdp_configure_umem_def afxdp_configure_socket_def afxdp_alloc_hugepage_buffer_def Let_def
        demo_sys_def zero_ctx_def split: option.splits)
qed

lemma demo_started: "\<exists>x :: (ref_prod, ref_cons, unit) afxdp_socket_info. started rc_ents rp_ents ref_space no_kframes x"
proof -
  obtain ctx ev where "afxdp_init demo_sys demo_argv zero_ctx = Inr (0, ctx, ev)" using demo_init_ok by blast
  moreover have "xsk_rings (se_api demo_sys) rc_ents rp_ents ref_space no_kframes"
    using ref_rings.xsk_rings_axioms by (simp add: demo_sys_def)
  moreover have "\<forall>f n e. se_prog_create demo_sys f n = Inl e \<longrightarrow> e \<noteq> 0" by (simp add: demo_sys_def)
  moreover have "xsk_socket (zero_ctx :: (ref_prod, ref_cons, unit) afxdp_manager_ctx) = None"
    by (simp add: zero_ctx_def)
  ultimately show ?thesis using init_started demo_fresh by blast
qed

section \<open>A delivery with headroom\<close>

text \<open>
  The kernel takes the first entry of the fill ring and delivers a packet 256 bytes into its frame, as
  a driver with XDP headroom does.
\<close>

definition demo_deliver :: "(ref_prod, ref_cons, unit) afxdp_socket_info \<Rightarrow> (ref_prod, ref_cons, unit) afxdp_socket_info" where
  "demo_deliver x =
     (case rp_ents (fq (umem x)) of
        [] \<Rightarrow> x
      | d # ds \<Rightarrow>
          if genuine (addr d) then
            x\<lparr>umem := (umem x)\<lparr>fq := (fq (umem x))\<lparr>rp_ents := ds, rp_cap := max (rp_cap (fq (umem x))) (Suc (length ds))\<rparr>\<rparr>,
              rx := \<lparr>rc_ents = rc_ents (rx x) @ [\<lparr>addr = of_nat (frame_of (addr d) * AFXDP_FRAME_SIZE + 256), len = 60\<rparr>]\<rparr>\<rparr>
          else x)"

lemma frames_in_headroom: "genuine a \<Longrightarrow>
   frames_in {#of_nat (frame_of a * AFXDP_FRAME_SIZE + 256)#} = frames_in {#a#}
   \<and> genuine (of_nat (frame_of a * AFXDP_FRAME_SIZE + 256))"
  using frame_of_offset [of "frame_of a" 256] by (simp add: frames_in_def genuine_def AFXDP_FRAME_SIZE_def)

lemma demo_deliver_move: "demo_deliver x = x \<or> kernel_move rc_ents rp_ents ref_space no_kframes x (demo_deliver x)"
proof (cases "\<exists>d ds. rp_ents (fq (umem x)) = d # ds \<and> genuine (addr d)")
  case True
  then obtain d ds where d: "rp_ents (fq (umem x)) = d # ds" "genuine (addr d)" by blast
  let ?a = "of_nat (frame_of (addr d) * AFXDP_FRAME_SIZE + 256) :: u64"
  define y where "y = demo_deliver x"
  have y: "umem_frame_addr y = umem_frame_addr x" "umem_frame_free y = umem_frame_free x" "outstanding_tx y = outstanding_tx x"
    "stats y = stats x" "rp_ents (fq (umem y)) = drop 1 (rp_ents (fq (umem x)))" "tx y = tx x"
    "rc_ents (rx y) = rc_ents (rx x) @ [\<lparr>addr = ?a, len = 60\<rparr>]" "cq (umem y) = cq (umem x)"
    "length (rp_ents (fq (umem y))) + ref_space (fq (umem y)) = length (rp_ents (fq (umem x))) + ref_space (fq (umem x))"
    using d by (simp_all add: y_def demo_deliver_def ref_space_def)
  note a = frames_in_headroom [OF d(2)]
  have "frames_in (add_mset ?a M) = frames_in (add_mset (addr d) M)" for M
    using a frames_in_union [of "{#?a#}" M] frames_in_union [of "{#addr d#}" M] by simp
  then have k: "frames_in (kernel_frames rc_ents rp_ents no_kframes y) = frames_in (kernel_frames rc_ents rp_ents no_kframes x)"
    unfolding kernel_frames_def y(5-8) d(1) by (simp del: of_nat_add of_nat_mult add: ac_simps)
  have "kernel_move rc_ents rp_ents ref_space no_kframes x y"
    unfolding kernel_move_def
    using y(1-4,9) k a
    by (intro conjI exI [of _ 1] exI [of _ 0] exI [of _ "[\<lparr>addr = ?a, len = 60\<rparr>]"] exI [of _ "[]"])
      (simp_all add: y(5-8) del: of_nat_add of_nat_mult)
  then show ?thesis by (simp add: y_def)
next
  case False
  then have "demo_deliver x = x" by (auto simp: demo_deliver_def split: list.splits)
  then show ?thesis by simp
qed

text \<open>A started socket whose kernel has just delivered one packet.\<close>

lemma demo_delivered:
  "\<exists>x :: (ref_prod, ref_cons, unit) afxdp_socket_info. started rc_ents rp_ents ref_space no_kframes x
     \<and> length (rc_ents (rx (demo_deliver x))) = 1"
proof -
  obtain x :: "(ref_prod, ref_cons, unit) afxdp_socket_info" where x: "started rc_ents rp_ents ref_space no_kframes x"
    using demo_started by blast
  have full: "length (rp_ents (fq (umem x))) = AFXDP_FILL_RING_SIZE" "rc_ents (rx x) = []"
    using x by (simp_all add: started_def ref_space_def)
  obtain d ds where d: "rp_ents (fq (umem x)) = d # ds"
    using full(1) by (cases "rp_ents (fq (umem x))") (simp_all add: AFXDP_FILL_RING_SIZE_def)
  then have "addr d \<in># all_frames rc_ents rp_ents no_kframes x" by (simp add: all_frames_split)
  then have "genuine (addr d)" using x init_frames(2) by (simp add: started_def)
  then have "length (rc_ents (rx (demo_deliver x))) = 1" using d full by (simp add: demo_deliver_def)
  then show ?thesis using x by blast
qed

section \<open>Properties\<close>



text \<open>
  C2. Progress of the RX thread: in every state reachable with a kernel that conserves frames, the
  receive step runs to its end (the allocator's assertion does not fire and the reservation retry loop
  ends), and its result is reachable again. This holds although the refill may ask for more frames
  than the pool has: the invalid addresses it then writes stay in the fill ring.
\<close>

theorem receive_step_never_fails:
  assumes "xsk_rings api cents pents pspace kframes"
    and "afxdp_reachable api cents pents pspace kframes x"
  shows "\<exists>y. receive_step api x = Some y \<and> afxdp_reachable api cents pents pspace kframes y"
proof -
  obtain y where "receive_step api x = Some y"
    using xsk_rings.inv_receive_step [OF assms(1)] xsk_rings.inv_reachable [OF assms] by blast
  then show ?thesis using assms(2) afxdp_reachable.step afxdp_step.user_step by blast
qed

theorem receive_step_never_fails_witness:
  "\<exists>x y. started rc_ents rp_ents ref_space no_kframes x \<and> length (rc_ents (rx (demo_deliver x))) = 1
     \<and> receive_step ref_api (demo_deliver x) = Some y \<and> afxdp_reachable ref_api rc_ents rp_ents ref_space no_kframes y"
proof -
  obtain x where x: "started rc_ents rp_ents ref_space no_kframes x" "length (rc_ents (rx (demo_deliver x))) = 1"
    using demo_delivered by blast
  have "afxdp_reachable ref_api rc_ents rp_ents ref_space no_kframes (demo_deliver x)"
    using afxdp_reachable.start [OF x(1), of ref_api] demo_deliver_move [of x]
    by (auto intro: afxdp_reachable.step afxdp_step.kern_step)
  then show ?thesis using x receive_step_never_fails [OF ref_rings.xsk_rings_axioms] by blast
qed

text \<open>
  C16. Start-up: when \<^verbatim>\<open>afxdp_init\<close> returns 0 on an idle context, the socket exists, the kernel has
  8192 frames in the fill ring, the other 24576 are free, all other rings are empty and the
  statistics are zero; the state is one the transition system starts from.
\<close>

theorem init_establishes_started:
  assumes "afxdp_init env argv ctx0 = Inr (0, ctx, ev)" and "xsk_socket ctx0 = None"
    and "xsk_rings (se_api env) cents pents pspace kframes" and "fresh_rings env cents pents pspace kframes"
    and "\<forall>f n e. se_prog_create env f n = Inl e \<longrightarrow> e \<noteq> 0"
  shows "\<exists>x. xsk_socket ctx = Some x \<and> started cents pents pspace kframes x
    \<and> length (free_frames x) = 24576 \<and> afxdp_reachable (se_api env) cents pents pspace kframes x"
proof -
  obtain x where x: "xsk_socket ctx = Some x" "started cents pents pspace kframes x"
    using init_started [OF assms] by blast
  moreover have "length (free_frames x) = 24576" using x(2) by (simp add: started_def afxdp_consts)
  ultimately show ?thesis using afxdp_reachable.start by blast
qed

theorem init_establishes_started_witness:
  "\<exists>ctx ev x. afxdp_init demo_sys demo_argv zero_ctx = Inr (0, ctx, ev) \<and> xsk_socket ctx = Some x
     \<and> length (free_frames x) = 24576"
proof -
  obtain ctx ev where i: "afxdp_init demo_sys demo_argv zero_ctx = Inr (0, ctx, ev)" using demo_init_ok by blast
  have "xsk_rings (se_api demo_sys) rc_ents rp_ents ref_space no_kframes"
    using ref_rings.xsk_rings_axioms by (simp add: demo_sys_def)
  moreover have "\<forall>f n e. se_prog_create demo_sys f n = Inl e \<longrightarrow> e \<noteq> 0" by (simp add: demo_sys_def)
  moreover have "xsk_socket (zero_ctx :: (ref_prod, ref_cons, unit) afxdp_manager_ctx) = None"
    by (simp add: zero_ctx_def)
  ultimately show ?thesis using init_establishes_started [OF i] demo_fresh i by blast
qed

end
