(* ===== verification/AfxdpThreads.thy ===== *)
theory AfxdpThreads
  imports AfxdpSystem
begin

text \<open>
  The worker threads and the top level of the AF\_XDP manager: the polling loop of the RX thread, the
  management thread with its time and packet limits, the wakeup thread, the signal handler,
  \<^verbatim>\<open>afxdp_run\<close> and the AF\_XDP branch of \<^verbatim>\<open>main\<close>. A loop that waits on \<^verbatim>\<open>global_exit\<close> is run
  over a finite list of observations, one per iteration: what other threads and the kernel did to the
  context before it and what the system calls returned. The result says whether the loop has ended.
\<close>

section \<open>RX thread\<close>

record ('p, 'c, 'k) rx_obs =
  ro_other :: "('p, 'c, 'k) afxdp_manager_ctx \<Rightarrow> ('p, 'c, 'k) afxdp_manager_ctx"
  ro_poll :: int

text \<open>\<^verbatim>\<open>afxdp_rx_and_process\<close>; \<open>None\<close> is an abort inside \<^verbatim>\<open>afxdp_handle_receive\<close>.\<close>

primrec afxdp_rx_and_process ::
  "('p, 'c, 'k) xsk_api \<Rightarrow> ('p, 'c, 'k) rx_obs list \<Rightarrow> ('p, 'c, 'k) afxdp_manager_ctx
    \<Rightarrow> (bool \<times> ('p, 'c, 'k) afxdp_manager_ctx) option" where
  "afxdp_rx_and_process api [] ctx = Some (False, ctx)"
| "afxdp_rx_and_process api (ob # obs) ctx =
     (let c1 = ro_other ob ctx in
      if global_exit c1 then Some (True, c1)
      else if xsk_poll_mode (ctx_cfg c1) \<and> ro_poll ob \<le> 0 then afxdp_rx_and_process api obs c1
      else Option.bind (afxdp_handle_receive api c1) (afxdp_rx_and_process api obs))"

section \<open>Management thread\<close>

definition afxdp_gettime :: "u64 \<Rightarrow> u64 \<Rightarrow> u64" where
  "afxdp_gettime tv_sec tv_nsec = tv_sec * 1000000000 + tv_nsec"

record ('p, 'c, 'k) mgr_obs =
  mo_other :: "('p, 'c, 'k) afxdp_manager_ctx \<Rightarrow> ('p, 'c, 'k) afxdp_manager_ctx"
  mo_sleep :: "('p, 'c, 'k) afxdp_manager_ctx \<Rightarrow> ('p, 'c, 'k) afxdp_manager_ctx"
  mo_now_stats :: u64
  mo_now_ttl :: u64

text \<open>The body after the sleep. The snapshot of the statistics is what the next report subtracts.\<close>

definition mgr_tick ::
  "u64 \<Rightarrow> u64 \<Rightarrow> u64 \<Rightarrow> ('p, 'c, 'k) afxdp_manager_ctx \<times> afxdp_stats_record
    \<Rightarrow> (('p, 'c, 'k) afxdp_manager_ctx \<times> afxdp_stats_record) option" where
  "mgr_tick start_time now_stats now_ttl cp =
     (case xsk_socket (fst cp) of
        None \<Rightarrow> None
      | Some x \<Rightarrow>
          let ctx = fst cp;
              st = (stats x)\<lparr>timestamp := now_stats\<rparr>;
              (c1, prev1) = (if verbose (ctx_cfg ctx)
                             then (ctx\<lparr>xsk_socket := Some (x\<lparr>stats := st\<rparr>)\<rparr>, st) else cp);
              c2 = (if time_to_live (ctx_cfg ctx) \<noteq> 0
                       \<and> (now_ttl - start_time) div 1000000000 \<ge> ucast (time_to_live (ctx_cfg ctx))
                    then c1\<lparr>global_exit := True\<rparr> else c1);
              c3 = (if pkt_limit (ctx_cfg ctx) \<noteq> 0 \<and> rx_packets (stats x) \<ge> pkt_limit (ctx_cfg ctx)
                    then c2\<lparr>global_exit := True\<rparr> else c2)
          in Some (c3, prev1))"

primrec mgr_loop ::
  "u64 \<Rightarrow> ('p, 'c, 'k) mgr_obs list \<Rightarrow> ('p, 'c, 'k) afxdp_manager_ctx \<times> afxdp_stats_record
    \<Rightarrow> (bool \<times> ('p, 'c, 'k) afxdp_manager_ctx) option" where
  "mgr_loop start [] cp = Some (False, fst cp)"
| "mgr_loop start (ob # obs) cp =
     (let c1 = mo_other ob (fst cp) in
      if global_exit c1 then Some (True, c1)
      else
        let c2 = mo_sleep ob c1 in
        if global_exit c2 then Some (True, c2)
        else Option.bind (mgr_tick start (mo_now_stats ob) (mo_now_ttl ob) (c2, snd cp)) (mgr_loop start obs))"

definition afxdp_mgr_thread_main ::
  "u64 \<Rightarrow> ('p, 'c, 'k) mgr_obs list \<Rightarrow> ('p, 'c, 'k) afxdp_manager_ctx
    \<Rightarrow> (bool \<times> ('p, 'c, 'k) afxdp_manager_ctx) option" where
  "afxdp_mgr_thread_main start obs ctx = mgr_loop start obs (ctx, zero_stats\<lparr>timestamp := start\<rparr>)"

section \<open>Wakeup thread and signal handler\<close>

primrec afxdp_wakeup_thread_main ::
  "(('p, 'c, 'k) afxdp_manager_ctx \<Rightarrow> ('p, 'c, 'k) afxdp_manager_ctx) list \<Rightarrow> ('p, 'c, 'k) afxdp_manager_ctx
    \<Rightarrow> bool \<times> ('p, 'c, 'k) afxdp_manager_ctx" where
  "afxdp_wakeup_thread_main [] ctx = (False, ctx)"
| "afxdp_wakeup_thread_main (other # obs) ctx =
     (let c1 = other ctx in
      if global_exit c1 then (True, c1\<lparr>global_exit := True\<rparr>) else afxdp_wakeup_thread_main obs c1)"

text \<open>\<open>registered\<close> says whether \<^verbatim>\<open>g_ctx\<close> points to the context (it does from \<^verbatim>\<open>afxdp_init\<close> on).\<close>

definition afxdp_signal_handler :: "bool \<Rightarrow> ('p, 'c, 'k) afxdp_manager_ctx \<Rightarrow> ('p, 'c, 'k) afxdp_manager_ctx" where
  "afxdp_signal_handler registered ctx = (if registered then ctx\<lparr>global_exit := True\<rparr> else ctx)"

section \<open>afxdp\_run and main\<close>

text \<open>
  The error numbers of the three \<^verbatim>\<open>pthread_create\<close> calls decide what \<^verbatim>\<open>afxdp_run\<close> does before the
  joins. After a failed creation of the management or wakeup thread the code still joins its handle,
  which was never initialised: \<open>Inl Join_Uninitialised\<close>.
\<close>

datatype run_error = Join_Uninitialised

definition afxdp_run ::
  "int \<Rightarrow> int \<Rightarrow> int \<Rightarrow> ('p, 'c, 'k) afxdp_manager_ctx
    \<Rightarrow> (run_error + int) \<times> ('p, 'c, 'k) afxdp_manager_ctx" where
  "afxdp_run err_rx err_mgr err_wakeup ctx =
     (if err_rx \<noteq> 0 then (Inr (- err_rx), ctx\<lparr>global_exit := True\<rparr>)
      else
        let c1 = (if err_mgr \<noteq> 0 then ctx\<lparr>global_exit := True\<rparr> else ctx);
            c2 = (if err_wakeup \<noteq> 0 then c1\<lparr>global_exit := True\<rparr> else c1)
        in (if err_mgr = 0 \<and> err_wakeup = 0 then Inr 0 else Inl Join_Uninitialised, c2))"

text \<open>\<^verbatim>\<open>main\<close> up to the point where the threads run: it returns, exits, or enters \<^verbatim>\<open>afxdp_run\<close>.\<close>

datatype ('p, 'c, 'k) main_outcome =
    Main_Exit afxdp_exit
  | Main_Return int "sys_event list"
  | Main_Run "('p, 'c, 'k) afxdp_manager_ctx" "sys_event list"

definition afxdp_main :: "('p, 'c, 'k) sys_env \<Rightarrow> string list \<Rightarrow> ('p, 'c, 'k) main_outcome" where
  "afxdp_main env argv =
     (case afxdp_init env argv zero_ctx of
        Inl e \<Rightarrow> Main_Exit e
      | Inr (ret, ctx, ev) \<Rightarrow> if ret < 0 then Main_Return (-1) ev else Main_Run ctx ev)"

section \<open>The receive loop keeps the frame invariant\<close>

text \<open>Between two iterations other threads may set \<^verbatim>\<open>global_exit\<close> and the kernel may move frames.\<close>

definition rx_env_ok ::
  "('c \<Rightarrow> xdp_desc list) \<Rightarrow> ('p \<Rightarrow> xdp_desc list) \<Rightarrow> ('p \<Rightarrow> nat) \<Rightarrow> ('k \<Rightarrow> u64 multiset) \<Rightarrow> ('p, 'c, 'k) rx_obs \<Rightarrow> bool" where
  "rx_env_ok cents pents pspace kframes ob \<longleftrightarrow>
     (\<forall>ctx x. xsk_socket ctx = Some x \<longrightarrow>
        (\<exists>y. xsk_socket (ro_other ob ctx) = Some y \<and> (y = x \<or> kernel_move cents pents pspace kframes x y)))"

lemma rx_loop_invariant:
  assumes rings: "xsk_rings api cents pents pspace kframes"
  shows "xsk_socket ctx = Some x \<Longrightarrow> frames_inv cents pents pspace kframes x \<Longrightarrow>
    list_all (rx_env_ok cents pents pspace kframes) obs \<Longrightarrow>
    \<exists>b c y. afxdp_rx_and_process api obs ctx = Some (b, c) \<and> xsk_socket c = Some y
      \<and> frames_inv cents pents pspace kframes y \<and> (b \<longrightarrow> global_exit c)"
proof (induction obs arbitrary: ctx x)
  case (Cons ob obs)
  let ?c1 = "ro_other ob ctx"
  obtain y where y: "xsk_socket ?c1 = Some y" "y = x \<or> kernel_move cents pents pspace kframes x y"
    using Cons.prems by (auto simp: rx_env_ok_def)
  have inv: "frames_inv cents pents pspace kframes y"
    using y(2) Cons.prems(2) xsk_rings.inv_kernel_move [OF rings] by blast
  obtain z where z: "receive_step api y = Some z" "frames_inv cents pents pspace kframes z"
    using xsk_rings.inv_receive_step [OF rings inv] by blast
  have step: "afxdp_handle_receive api ?c1 = Some (?c1\<lparr>xsk_socket := Some z\<rparr>)"
    using y(1) z(1) by (simp add: afxdp_handle_receive_def)
  show ?case
    using Cons.IH [of ?c1 y] Cons.IH [of "?c1\<lparr>xsk_socket := Some z\<rparr>" z] Cons.prems(3) y(1) inv z(2) step
    by (auto simp: Let_def)
qed auto

lemma rx_loop_ends:
  assumes "afxdp_rx_and_process api obs ctx = Some (b, c)"
    and "\<exists>ob \<in> set obs. \<forall>d. global_exit (ro_other ob d)"
  shows "b \<and> global_exit c"
  using assms
proof (induction obs arbitrary: ctx)
  case (Cons ob obs)
  then show ?case by (auto simp: Let_def split: if_splits Option.bind_splits)
qed simp

section \<open>Properties\<close>

text \<open>
  C26. The RX thread: from any state of the frame invariant, when between the iterations the kernel
  only makes moves that conserve frames (\<^const>\<open>kernel_move\<close>: copy or zero-copy, any headroom, any number
  of frames in flight) and the other threads leave the socket alone, the polling loop never aborts and
  keeps the invariant; it ends only with \<^verbatim>\<open>global_exit\<close> set, and it does end once some iteration sees
  \<^verbatim>\<open>global_exit\<close>.
\<close>

theorem rx_thread_runs:
  assumes "xsk_rings api cents pents pspace kframes" and "xsk_socket ctx = Some x"
    and "frames_inv cents pents pspace kframes x" and "list_all (rx_env_ok cents pents pspace kframes) obs"
  shows "\<exists>ended c y. afxdp_rx_and_process api obs ctx = Some (ended, c) \<and> xsk_socket c = Some y
    \<and> frames_inv cents pents pspace kframes y \<and> (ended \<longrightarrow> global_exit c)
    \<and> ((\<exists>ob \<in> set obs. \<forall>d. global_exit (ro_other ob d)) \<longrightarrow> ended)"
proof -
  obtain b c y where *: "afxdp_rx_and_process api obs ctx = Some (b, c)" "xsk_socket c = Some y"
    "frames_inv cents pents pspace kframes y" "b \<longrightarrow> global_exit c"
    using rx_loop_invariant [OF assms] by blast
  then show ?thesis using rx_loop_ends [OF *(1)] by blast
qed

definition stop_obs :: "(ref_prod, ref_cons, unit) rx_obs" where
  "stop_obs = \<lparr>ro_other = afxdp_signal_handler True, ro_poll = 0\<rparr>"

definition deliver_obs :: "(ref_prod, ref_cons, unit) rx_obs" where
  "deliver_obs = \<lparr>ro_other = (\<lambda>ctx. ctx\<lparr>xsk_socket := map_option demo_deliver (xsk_socket ctx)\<rparr>), ro_poll = 0\<rparr>"

lemma demo_obs_ok: "list_all (rx_env_ok rc_ents rp_ents ref_space no_kframes) [deliver_obs, stop_obs]"
proof -
  have "rx_env_ok rc_ents rp_ents ref_space no_kframes deliver_obs"
    unfolding rx_env_ok_def
  proof (intro allI impI)
    fix ctx :: "(ref_prod, ref_cons, unit) afxdp_manager_ctx" and x
    assume "xsk_socket ctx = Some x"
    then show "\<exists>y. xsk_socket (ro_other deliver_obs ctx) = Some y
        \<and> (y = x \<or> kernel_move rc_ents rp_ents ref_space no_kframes x y)"
      using demo_deliver_move [of x] by (simp add: deliver_obs_def)
  qed
  moreover have "rx_env_ok rc_ents rp_ents ref_space no_kframes stop_obs"
    by (simp add: rx_env_ok_def stop_obs_def afxdp_signal_handler_def)
  ultimately show ?thesis by simp
qed

text \<open>The receive step after the delivery counts the packet.\<close>

lemma demo_receives:
  assumes "started rc_ents rp_ents ref_space no_kframes x" and "length (rc_ents (rx (demo_deliver x))) = 1"
  shows "\<exists>z. receive_step ref_api (demo_deliver x) = Some z \<and> rx_packets (stats z) = 1"
proof -
  have inv: "frames_inv rc_ents rp_ents ref_space no_kframes (demo_deliver x)"
    using started_inv [OF assms(1)] demo_deliver_move [of x] ref_rings.inv_kernel_move by metis
  have wf: "umem_wf (demo_deliver x)" using inv by (simp add: frames_inv_def)
  have st: "stats (demo_deliver x) = zero_stats"
    using assms(1) by (auto simp: demo_deliver_def started_def split: list.splits)
  from ref_rings.receive_step_spec [OF wf inv_beyond_fill [OF inv]]
  obtain z r and w :: "(ref_prod, ref_cons, unit) afxdp_socket_info" where z: "receive_step ref_api (demo_deliver x) = Some z"
    "r \<le> length (rc_ents (rx (demo_deliver x)))" "r = 0 \<longrightarrow> rc_ents (rx (demo_deliver x)) = []"
    "stats z = rx_account (take r (rc_ents (rx (demo_deliver x)))) (min r (ref_space (tx w))) (stats (demo_deliver x))"
    by (elim exE conjE) blast
  have "r = 1" using z(2,3) assms(2) by (cases r) auto
  then have "rx_packets (stats z) = 1" using z(4) st assms(2) by (simp add: rx_account_def zero_stats_def)
  then show ?thesis using z(1) by blast
qed

theorem rx_thread_runs_witness:
  "\<exists>x c y. started rc_ents rp_ents ref_space no_kframes x
     \<and> afxdp_rx_and_process ref_api [deliver_obs, stop_obs] (zero_ctx\<lparr>xsk_socket := Some x\<rparr>) = Some (True, c)
     \<and> global_exit c \<and> xsk_socket c = Some y \<and> rx_packets (stats y) = 1"
proof -
  obtain x where x: "started rc_ents rp_ents ref_space no_kframes x" "length (rc_ents (rx (demo_deliver x))) = 1"
    using demo_delivered by blast
  let ?ctx = "zero_ctx\<lparr>xsk_socket := Some x\<rparr>"
  obtain z where z: "receive_step ref_api (demo_deliver x) = Some z" "rx_packets (stats z) = 1"
    using demo_receives [OF x] by blast
  have run: "afxdp_rx_and_process ref_api [deliver_obs, stop_obs] ?ctx = Some (True, ?ctx\<lparr>xsk_socket := Some z, global_exit := True\<rparr>)"
    using z(1) by (simp add: deliver_obs_def stop_obs_def afxdp_signal_handler_def afxdp_handle_receive_def zero_ctx_def zero_config_def)
  obtain ended c y where c: "afxdp_rx_and_process ref_api [deliver_obs, stop_obs] ?ctx = Some (ended, c)"
    "xsk_socket c = Some y" "ended \<longrightarrow> global_exit c"
    using rx_thread_runs [OF ref_rings.xsk_rings_axioms _ started_inv [OF x(1)] demo_obs_ok, of ?ctx] by auto
  then have "c = ?ctx\<lparr>xsk_socket := Some z, global_exit := True\<rparr>" "ended" using run by simp_all
  then show ?thesis using x(1) c z(2) by (intro exI [of _ x] exI [of _ c] exI [of _ y]) simp
qed

text \<open>The environment of the management thread: others never clear the exit flag, keep the socket and the configuration.\<close>

definition mgr_env_ok :: "('p, 'c, 'k) mgr_obs \<Rightarrow> bool" where
  "mgr_env_ok ob \<longleftrightarrow> (\<forall>f \<in> {mo_other ob, mo_sleep ob}. \<forall>ctx.
     ctx_cfg (f ctx) = ctx_cfg ctx \<and> (global_exit ctx \<longrightarrow> global_exit (f ctx))
     \<and> (xsk_socket ctx \<noteq> None \<longrightarrow> xsk_socket (f ctx) \<noteq> None))"

definition ttl_expired :: "u64 \<Rightarrow> afxdp_config \<Rightarrow> ('p, 'c, 'k) mgr_obs \<Rightarrow> bool" where
  "ttl_expired start cf ob \<longleftrightarrow> time_to_live cf \<noteq> 0
     \<and> unat (time_to_live cf) \<le> unat (mo_now_ttl ob - start) div 1000000000"

lemma ttl_word: "(ucast t :: u64) \<le> d div 1000000000 \<longleftrightarrow> unat t \<le> unat d div 1000000000" for t :: u32
  by (simp add: word_le_nat_alt unat_div)

lemma mgr_tick_exit:
  assumes "xsk_socket ctx = Some x"
  shows "\<exists>c prev'. mgr_tick start (mo_now_stats ob) (mo_now_ttl ob) (ctx, prev) = Some (c, prev') \<and> ctx_cfg c = ctx_cfg ctx
    \<and> xsk_socket c \<noteq> None
    \<and> (global_exit c \<longleftrightarrow> global_exit ctx \<or> ttl_expired start (ctx_cfg ctx) ob
         \<or> pkt_limit (ctx_cfg ctx) \<noteq> 0 \<and> pkt_limit (ctx_cfg ctx) \<le> rx_packets (stats x))"
  using assms by (simp add: mgr_tick_def Let_def ttl_expired_def ttl_word [symmetric])

text \<open>Once the exit flag is set, the thread ends at the next check.\<close>

lemma mgr_loop_exit:
  assumes "global_exit (fst cp)" "obs \<noteq> []" "list_all mgr_env_ok obs"
  shows "\<exists>c. mgr_loop start obs cp = Some (True, c) \<and> global_exit c"
  using assms by (cases obs) (auto simp: mgr_env_ok_def Let_def)

lemma mgr_loop_ttl:
  "xsk_socket (fst cp) \<noteq> None \<Longrightarrow> list_all mgr_env_ok (obs @ ob # later) \<Longrightarrow> later \<noteq> [] \<Longrightarrow>
   ttl_expired start (ctx_cfg (fst cp)) ob \<Longrightarrow>
   \<exists>c. mgr_loop start (obs @ ob # later) cp = Some (True, c) \<and> global_exit c"
proof (induction obs arbitrary: cp)
  case Nil
  let ?c2 = "mo_sleep ob (mo_other ob (fst cp))"
  have ok: "xsk_socket ?c2 \<noteq> None" "ctx_cfg ?c2 = ctx_cfg (fst cp)"
    using Nil.prems by (simp_all add: mgr_env_ok_def)
  then obtain x where "xsk_socket ?c2 = Some x" by blast
  from mgr_tick_exit [OF this, of start ob "snd cp"] obtain c prev'
    where t: "mgr_tick start (mo_now_stats ob) (mo_now_ttl ob) (?c2, snd cp) = Some (c, prev')" "global_exit c"
    using Nil.prems(4) ok(2) by auto
  then show ?case
    using mgr_loop_exit [of "(c, prev')" later start] Nil.prems by (auto simp: Let_def)
next
  case (Cons o1 obs)
  let ?c2 = "mo_sleep o1 (mo_other o1 (fst cp))"
  have ok: "xsk_socket ?c2 \<noteq> None" "ctx_cfg ?c2 = ctx_cfg (fst cp)"
    using Cons.prems by (simp_all add: mgr_env_ok_def)
  then obtain x where "xsk_socket ?c2 = Some x" by blast
  from mgr_tick_exit [OF this, of start o1 "snd cp"] obtain c prev'
    where t: "mgr_tick start (mo_now_stats o1) (mo_now_ttl o1) (?c2, snd cp) = Some (c, prev')"
      "ctx_cfg c = ctx_cfg ?c2" "xsk_socket c \<noteq> None" by auto
  then show ?case
    using Cons.IH [of "(c, prev')"] Cons.prems ok by (auto simp: Let_def)
qed

text \<open>
  The management thread enforces the time to live: with a nonzero limit, if some wake-up finds
  that many whole seconds elapsed since the start, the thread sets \<^verbatim>\<open>global_exit\<close> and ends at
  its next check at the latest, whatever happened before and however often it woke up.
\<close>

lemma mgr_thread_enforces_ttl:
  assumes "xsk_socket ctx \<noteq> None" and "list_all mgr_env_ok (obs @ ob # later)" and "later \<noteq> []"
    and "time_to_live (ctx_cfg ctx) \<noteq> 0"
    and "unat (time_to_live (ctx_cfg ctx)) \<le> unat (mo_now_ttl ob - start) div 1000000000"
  shows "\<exists>c. afxdp_mgr_thread_main start (obs @ ob # later) ctx = Some (True, c) \<and> global_exit c"
  unfolding afxdp_mgr_thread_main_def
  using assms by (intro mgr_loop_ttl) (simp_all add: ttl_expired_def)

definition tick_obs :: "u64 \<Rightarrow> (ref_prod, ref_cons, unit) mgr_obs" where
  "tick_obs t = \<lparr>mo_other = id, mo_sleep = id, mo_now_stats = t, mo_now_ttl = t\<rparr>"

text \<open>
  One wake-up of the management thread: it sets \<^verbatim>\<open>global_exit\<close> exactly when the time to live has
  expired or the packet limit is reached (a limit of 0 is off), it never clears it, and apart from
  that it changes nothing but the time stamp of the statistics, and that in verbose mode only.
\<close>

lemma mgr_tick_effect:
  assumes "xsk_socket ctx = Some x"
  shows "\<exists>c prev'. mgr_tick start (mo_now_stats ob) (mo_now_ttl ob) (ctx, prev) = Some (c, prev')
    \<and> (global_exit c \<longleftrightarrow> global_exit ctx \<or> ttl_expired start (ctx_cfg ctx) ob
         \<or> pkt_limit (ctx_cfg ctx) \<noteq> 0 \<and> pkt_limit (ctx_cfg ctx) \<le> rx_packets (stats x))
    \<and> c\<lparr>global_exit := global_exit ctx\<rparr> =
        (if verbose (ctx_cfg ctx)
         then ctx\<lparr>xsk_socket := Some (x\<lparr>stats := (stats x)\<lparr>timestamp := mo_now_stats ob\<rparr>\<rparr>)\<rparr> else ctx)
    \<and> prev' = (if verbose (ctx_cfg ctx) then (stats x)\<lparr>timestamp := mo_now_stats ob\<rparr> else prev)"
  using assms by (simp add: mgr_tick_def Let_def ttl_expired_def ttl_word [symmetric])


definition no_umem_sys :: "(ref_prod, ref_cons, unit) sys_env" where
  "no_umem_sys = demo_sys\<lparr>se_umem_create := (\<lambda>b n cfg. Inl (-22))\<rparr>"

lemma no_umem_init:
  "\<exists>ctx. afxdp_init no_umem_sys demo_argv zero_ctx =
     Inr (- ENOMEM, ctx, [Signals, Acquire R_Prog, Acquire R_Attached, Acquire R_Buffer, Acquire R_Umem_Info, Release R_Umem_Info])"
proof -
  have host: "se_host no_umem_sys = demo_env" by (simp add: no_umem_sys_def demo_sys_def)
  show ?thesis
    by (simp add: afxdp_init_def host demo_args demo_preflight init_program_def init_buffer_def init_socket_def
        afxdp_configure_umem_def afxdp_alloc_hugepage_buffer_def Let_def no_umem_sys_def demo_sys_def zero_ctx_def)
qed


text \<open>The sign conventions of the calls \<^verbatim>\<open>afxdp_init\<close> passes errors on from.\<close>

definition errors_negative :: "('p, 'c, 'k) sys_env \<Rightarrow> bool" where
  "errors_negative env \<longleftrightarrow> (\<forall>f n e. se_prog_create env f n = Inl e \<longrightarrow> e < 0)
     \<and> (\<forall>h i m. se_attach env h i m \<le> 0) \<and> 0 \<le> se_setrlimit env"

lemma preflight_nonpositive: "afxdp_preflight_checks env cf \<le> 0"
  by (auto simp: afxdp_preflight_checks_def check_driver_def check_queue_def check_kernel_def check_bind_flags_def
      Let_def split: option.splits prod.splits)

lemma init_result_cases:
  assumes "afxdp_init env argv ctx0 = Inr (r, c, ev)" "errors_negative env" "idle_ctx ctx0"
  shows "r < 0 \<or> (\<exists>e. xdp_prog c = Some (Inl e) \<and> xsk_socket c = None) \<or> (r = 0 \<and> xsk_socket c \<noteq> None \<and> (\<exists>h. xdp_prog c = Some (Inr h)))"
  using assms preflight_nonpositive [of "se_host env"]
  by (auto simp: afxdp_init_def init_program_def init_buffer_def init_socket_def afxdp_alloc_hugepage_buffer_def
      idle_ctx_def errors_negative_def Let_def less_le
      split: sum.splits if_splits option.splits prod.splits)

text \<open>
  \<^verbatim>\<open>main\<close> enters \<^verbatim>\<open>afxdp_run\<close> with a configured socket, except when loading the XDP program
  failed: libxdp's negative error is negated by \<^verbatim>\<open>afxdp_init\<close>, the result is positive, and \<^verbatim>\<open>main\<close>,
  which tests for a negative value, goes on without a socket, on which the first receive step
  dereferences a null pointer.
\<close>

lemma main_runs_without_socket_iff:
  assumes "afxdp_main env argv = Main_Run ctx ev" and "errors_negative env"
  shows "(xsk_socket ctx = None \<longleftrightarrow> (\<exists>e. xdp_prog ctx = Some (Inl e)))
    \<and> (xsk_socket ctx = None \<longrightarrow> afxdp_handle_receive api ctx = None)"
proof -
  obtain r where i: "afxdp_init env argv zero_ctx = Inr (r, ctx, ev)" "\<not> r < 0"
    using assms(1) by (auto simp: afxdp_main_def split: sum.splits prod.splits if_splits)
  have "idle_ctx (zero_ctx :: ('a, 'b, 'c) afxdp_manager_ctx)" by (simp add: idle_ctx_def zero_ctx_def)
  from init_result_cases [OF i(1) assms(2) this] show ?thesis
    using i(2) by (auto simp: afxdp_handle_receive_def)
qed

definition no_prog_sys :: "(ref_prod, ref_cons, unit) sys_env" where
  "no_prog_sys = demo_sys\<lparr>se_prog_create := (\<lambda>f n. Inl (-2))\<rparr>"

text \<open>When \<^verbatim>\<open>afxdp_init\<close> fails with a negative value after attaching, \<^verbatim>\<open>main\<close> returns without a
  clean-up: the program stays attached to the interface.\<close>

lemma main_leaves_program_attached:
  "\<exists>ev. afxdp_main no_umem_sys demo_argv = Main_Return (-1) ev \<and> live ev {} = {R_Prog, R_Attached, R_Buffer}"
proof -
  obtain ctx where "afxdp_init no_umem_sys demo_argv zero_ctx =
     Inr (- ENOMEM, ctx, [Signals, Acquire R_Prog, Acquire R_Attached, Acquire R_Buffer, Acquire R_Umem_Info, Release R_Umem_Info])"
    using no_umem_init by blast
  then show ?thesis by (auto simp: afxdp_main_def)
qed

end
