(* ===== verification/XdpKern.thy ===== *)
theory XdpKern
  imports Prelude "HOL-Library.Monad_Syntax"
begin

text \<open>
  The XDP program of \<^verbatim>\<open>af_xdp_kern.c\<close>, which runs in the kernel for every packet of the
  interface. The packet is the list of bytes between \<^verbatim>\<open>data\<close> and \<^verbatim>\<open>data_end\<close>; every read
  outside it is \<open>None\<close>, so that memory safety is a theorem and not a convention of the model.
  The state is the two BPF maps of the program: the socket of each RX queue and this CPU's packet
  counters.
\<close>

section \<open>State and packet access\<close>

datatype xdp_action = XDP_ABORTED | XDP_DROP | XDP_PASS | XDP_TX | XDP_REDIRECT nat

record xdp_maps =
  xsks_map :: "u32 \<Rightarrow> nat option"
  xdp_stats_map :: "u32 list"

record xdp_md =
  md_data :: "u8 list"
  rx_queue_index :: u32

definition read_u8 :: "u8 list \<Rightarrow> nat \<Rightarrow> u8 option" where
  "read_u8 d i = (if i < length d then Some (d ! i) else None)"

text \<open>A 16-bit field in network order, as the number it denotes.\<close>

definition read_be16 :: "u8 list \<Rightarrow> nat \<Rightarrow> u16 option" where
  "read_be16 d i = do { h \<leftarrow> read_u8 d i; l \<leftarrow> read_u8 d (i + 1); Some (ucast h * 256 + ucast l) }"

abbreviation ETH_HLEN :: nat where "ETH_HLEN \<equiv> 14"
abbreviation IPHDR_LEN :: nat where "IPHDR_LEN \<equiv> 20"
abbreviation TCPHDR_LEN :: nat where "TCPHDR_LEN \<equiv> 20"
abbreviation ETH_P_IP :: u16 where "ETH_P_IP \<equiv> 0x0800"
abbreviation ETH_P_ARP :: u16 where "ETH_P_ARP \<equiv> 0x0806"
abbreviation IPPROTO_TCP :: u8 where "IPPROTO_TCP \<equiv> 6"
abbreviation SSH_PORT :: u16 where "SSH_PORT \<equiv> 22"

section \<open>The program\<close>

text \<open>Array maps have 64 entries; a lookup beyond them finds nothing.\<close>

abbreviation XSK_MAX_ENTRIES :: nat where "XSK_MAX_ENTRIES \<equiv> 64"

definition xsk_lookup :: "xdp_maps \<Rightarrow> u32 \<Rightarrow> nat option" where
  "xsk_lookup m i = (if unat i < XSK_MAX_ENTRIES then xsks_map m i else None)"

definition bpf_redirect_map :: "xdp_maps \<Rightarrow> u32 \<Rightarrow> xdp_action" where
  "bpf_redirect_map m i = (case xsk_lookup m i of Some s \<Rightarrow> XDP_REDIRECT s | None \<Rightarrow> XDP_ABORTED)"

definition count_packet :: "xdp_maps \<Rightarrow> u32 \<Rightarrow> xdp_maps" where
  "count_packet m i =
     (if unat i < length (xdp_stats_map m)
      then m\<lparr>xdp_stats_map := (xdp_stats_map m)[unat i := xdp_stats_map m ! unat i + 1]\<rparr> else m)"

definition redirect_step :: "xdp_maps \<Rightarrow> u32 \<Rightarrow> xdp_action \<times> xdp_maps" where
  "redirect_step m index =
     (let m1 = count_packet m index in
      if xsk_lookup m1 index \<noteq> None then (bpf_redirect_map m1 index, m1) else (XDP_PASS, m1))"

definition xdp_sock_prog :: "xdp_maps \<Rightarrow> xdp_md \<Rightarrow> (xdp_action \<times> xdp_maps) option" where
  "xdp_sock_prog m ctx =
     (let data = md_data ctx; data_end = length data in
      if ETH_HLEN > data_end then Some (XDP_PASS, m)
      else do {
        h_proto \<leftarrow> read_be16 data 12;
        if h_proto = ETH_P_ARP then Some (XDP_PASS, m)
        else if h_proto = ETH_P_IP then
          if ETH_HLEN + IPHDR_LEN > data_end then Some (XDP_PASS, m)
          else do {
            protocol \<leftarrow> read_u8 data (ETH_HLEN + 9);
            if protocol = IPPROTO_TCP then do {
              ver_ihl \<leftarrow> read_u8 data ETH_HLEN;
              let tcph = ETH_HLEN + unat (ver_ihl AND 15) * 4;
              if tcph + TCPHDR_LEN > data_end then Some (XDP_PASS, m)
              else do {
                dest \<leftarrow> read_be16 data (tcph + 2);
                source \<leftarrow> read_be16 data tcph;
                if dest = SSH_PORT \<or> source = SSH_PORT then Some (XDP_PASS, m)
                else Some (redirect_step m (rx_queue_index ctx))
              }
            }
            else Some (redirect_step m (rx_queue_index ctx))
          }
        else Some (redirect_step m (rx_queue_index ctx))
      })"

section \<open>Specification\<close>

text \<open>Which packets stay with the host, read off the bytes.\<close>

definition be16 :: "u8 list \<Rightarrow> nat \<Rightarrow> u16" where
  "be16 d i = ucast (d ! i) * 256 + ucast (d ! (i + 1))"

definition tcp_offset :: "u8 list \<Rightarrow> nat" where
  "tcp_offset d = 14 + unat (d ! 14 AND 15) * 4"

definition host_packet :: "u8 list \<Rightarrow> bool" where
  "host_packet d \<longleftrightarrow>
     length d < 14 \<or> be16 d 12 = ETH_P_ARP
     \<or> be16 d 12 = ETH_P_IP \<and>
         (length d < 34 \<or> d ! 23 = IPPROTO_TCP \<and>
            (length d < tcp_offset d + 20 \<or> be16 d (tcp_offset d) = SSH_PORT \<or> be16 d (tcp_offset d + 2) = SSH_PORT))"

lemma read_be16_inside [simp]: "Suc i < length d \<Longrightarrow> read_be16 d i = Some (be16 d i)"
  by (simp add: read_be16_def read_u8_def be16_def)

lemma read_u8_inside [simp]: "i < length d \<Longrightarrow> read_u8 d i = Some (d ! i)"
  by (simp add: read_u8_def)

lemma xdp_sock_prog_decision:
  "xdp_sock_prog m ctx =
     Some (if host_packet (md_data ctx) then (XDP_PASS, m) else redirect_step m (rx_queue_index ctx))"
proof (cases "length (md_data ctx) < 14")
  case True
  then show ?thesis by (simp add: xdp_sock_prog_def host_packet_def)
next
  case False
  then show ?thesis
    by (auto simp: xdp_sock_prog_def host_packet_def tcp_offset_def Let_def)
qed

lemma redirect_step_cases:
  "redirect_step m i = (case xsk_lookup m i of Some s \<Rightarrow> XDP_REDIRECT s | None \<Rightarrow> XDP_PASS, count_packet m i)"
  by (auto simp: redirect_step_def bpf_redirect_map_def Let_def count_packet_def xsk_lookup_def split: option.splits)

section \<open>Properties\<close>

text \<open>
  C32. The XDP program never reads outside the packet (it always returns), and redirects a packet
  exactly when it is not one for the host (short, ARP, truncated IP or TCP, or SSH in either
  direction) and an AF\_XDP socket is registered for its queue; every other packet is passed to the
  kernel stack. It never aborts, drops or bounces a packet and leaves the socket map unchanged.
\<close>

theorem xdp_sock_prog_redirects_iff:
  "\<exists>act m'. xdp_sock_prog m ctx = Some (act, m') \<and> xsks_map m' = xsks_map m
     \<and> (act = XDP_PASS \<or> (\<exists>s. act = XDP_REDIRECT s))
     \<and> (\<forall>s. act = XDP_REDIRECT s \<longleftrightarrow>
           \<not> host_packet (md_data ctx) \<and> unat (rx_queue_index ctx) < 64 \<and> xsks_map m (rx_queue_index ctx) = Some s)"
  by (auto simp: xdp_sock_prog_decision redirect_step_cases count_packet_def xsk_lookup_def split: option.splits)

text \<open>
  The per-queue counter: a packet that is not for the host adds one, modulo \<open>2 ^ 32\<close>, to the
  counter of its queue and to no other; a packet for the host, or of a queue beyond the map, leaves
  all counters as they are.
\<close>

lemma xdp_sock_prog_counts:
  assumes "xdp_sock_prog m ctx = Some (act, m')" and "i < length (xdp_stats_map m)"
  shows "length (xdp_stats_map m') = length (xdp_stats_map m)
    \<and> xdp_stats_map m' ! i =
        (if \<not> host_packet (md_data ctx) \<and> i = unat (rx_queue_index ctx)
         then xdp_stats_map m ! i + 1 else xdp_stats_map m ! i)"
  using assms
  by (auto simp: xdp_sock_prog_decision redirect_step_cases count_packet_def split: if_splits)

definition udp_frame :: "u8 list" where
  "udp_frame = replicate 12 0 @ [8, 0, 69] @ replicate 8 0 @ [17] @ replicate 10 0"

end
