(* ===== verification/OnvmTypes.thy ===== *)
theory OnvmTypes
  imports Prelude
begin

text \<open>
  Shared data of the DPDK manager and the NF library (\<^verbatim>\<open>onvm_common.h\<close>, \<^verbatim>\<open>onvm_msg_common.h\<close>):
  limits, packet actions, NF states, the per-packet metadata, core status and the NF record. A field
  \<^verbatim>\<open>x\<close> of \<^verbatim>\<open>struct onvm_nf\<close> is the field \<open>nf_x\<close>. Rings are objects of DPDK: their type is
  a parameter (\<open>'q\<close> for packet rings, \<open>'mq\<close> for message rings).
\<close>

section \<open>Limits and codes\<close>

definition ONVM_MAX_CHAIN_LENGTH :: nat where "ONVM_MAX_CHAIN_LENGTH = 4"
definition MAX_NFS :: nat where "MAX_NFS = 128"
definition MAX_SERVICES :: nat where "MAX_SERVICES = 32"
definition MAX_NFS_PER_SERVICE :: nat where "MAX_NFS_PER_SERVICE = 32"
definition NF_QUEUE_RINGSIZE :: nat where "NF_QUEUE_RINGSIZE = 16384"
definition PACKET_READ_SIZE :: nat where "PACKET_READ_SIZE = 32"

lemmas onvm_limits = MAX_NFS_def MAX_SERVICES_def MAX_NFS_PER_SERVICE_def ONVM_MAX_CHAIN_LENGTH_def
  PACKET_READ_SIZE_def

abbreviation ONVM_NF_ACTION_DROP :: u8 where "ONVM_NF_ACTION_DROP \<equiv> 0"
abbreviation ONVM_NF_ACTION_NEXT :: u8 where "ONVM_NF_ACTION_NEXT \<equiv> 1"
abbreviation ONVM_NF_ACTION_TONF :: u8 where "ONVM_NF_ACTION_TONF \<equiv> 2"
abbreviation ONVM_NF_ACTION_OUT :: u8 where "ONVM_NF_ACTION_OUT \<equiv> 3"

abbreviation MANUAL_CORE_ASSIGNMENT_BIT :: nat where "MANUAL_CORE_ASSIGNMENT_BIT \<equiv> 0"
abbreviation SHARE_CORE_BIT :: nat where "SHARE_CORE_BIT \<equiv> 1"

definition NF_WAITING_FOR_ID :: u8 where "NF_WAITING_FOR_ID = 0"
definition NF_STARTING :: u8 where "NF_STARTING = 1"
definition NF_RUNNING :: u8 where "NF_RUNNING = 2"
definition NF_PAUSED :: u8 where "NF_PAUSED = 3"
definition NF_STOPPED :: u8 where "NF_STOPPED = 4"
definition NF_ID_CONFLICT :: u8 where "NF_ID_CONFLICT = 5"
definition NF_NO_IDS :: u8 where "NF_NO_IDS = 6"
definition NF_SERVICE_MAX :: u8 where "NF_SERVICE_MAX = 7"
definition NF_SERVICE_COUNT_MAX :: u8 where "NF_SERVICE_COUNT_MAX = 8"
definition NF_NO_CORES :: u8 where "NF_NO_CORES = 9"
definition NF_NO_DEDICATED_CORES :: u8 where "NF_NO_DEDICATED_CORES = 10"
definition NF_CORE_OUT_OF_RANGE :: u8 where "NF_CORE_OUT_OF_RANGE = 11"
definition NF_CORE_BUSY :: u8 where "NF_CORE_BUSY = 12"

lemmas nf_states = NF_WAITING_FOR_ID_def NF_STARTING_def NF_RUNNING_def NF_PAUSED_def NF_STOPPED_def
  NF_ID_CONFLICT_def NF_NO_IDS_def NF_SERVICE_MAX_def NF_SERVICE_COUNT_MAX_def NF_NO_CORES_def
  NF_NO_DEDICATED_CORES_def NF_CORE_OUT_OF_RANGE_def NF_CORE_BUSY_def

abbreviation NF_NO_ID :: u16 where "NF_NO_ID \<equiv> -1"

section \<open>Bit flags\<close>

definition ONVM_CHECK_BIT :: "u8 \<Rightarrow> nat \<Rightarrow> bool" where
  "ONVM_CHECK_BIT flags n \<longleftrightarrow> flags AND push_bit n 1 \<noteq> 0"

definition ONVM_SET_BIT :: "u8 \<Rightarrow> nat \<Rightarrow> u8" where
  "ONVM_SET_BIT flags n = flags OR push_bit n 1"

definition ONVM_CLEAR_BIT :: "u8 \<Rightarrow> nat \<Rightarrow> u8" where
  "ONVM_CLEAR_BIT flags n = flags AND push_bit n 0"

lemma check_bit_iff: "ONVM_CHECK_BIT flags n \<longleftrightarrow> bit flags n"
proof -
  have "flags AND push_bit n 1 = (if bit flags n then push_bit n 1 else 0)"
    by (rule bit_word_eqI) (auto simp: bit_simps)
  moreover have "bit flags n \<Longrightarrow> push_bit n (1 :: u8) \<noteq> 0"
    using bit_imp_le_length [of flags n] by (simp add: push_bit_of_1 exp_eq_zero_iff)
  ultimately show ?thesis by (simp add: ONVM_CHECK_BIT_def)
qed

text \<open>\<^verbatim>\<open>0 << n\<close> is 0 for every \<open>n\<close>: the macro clears all flags, not the one it names.\<close>

lemma clear_bit_clears_all: "ONVM_CLEAR_BIT flags n = 0"
  by (simp add: ONVM_CLEAR_BIT_def)

section \<open>Structures\<close>

record onvm_pkt_meta =
  action :: u8
  destination :: u16
  src :: u16
  chain_index :: u8
  meta_flags :: u8

record core_status =
  enabled :: u8
  is_dedicated_core :: u8
  nf_count :: u16

record onvm_nf_stats =
  st_rx :: u64
  st_rx_drop :: u64
  st_tx :: u64
  st_tx_drop :: u64
  st_tx_buffer :: u64
  st_tx_returned :: u64
  st_act_out :: u64
  st_act_tonf :: u64
  st_act_drop :: u64
  st_act_next :: u64
  st_act_buffer :: u64

definition zero_nf_stats :: onvm_nf_stats where
  "zero_nf_stats = \<lparr>st_rx = 0, st_rx_drop = 0, st_tx = 0, st_tx_drop = 0, st_tx_buffer = 0, st_tx_returned = 0,
     st_act_out = 0, st_act_tonf = 0, st_act_drop = 0, st_act_next = 0, st_act_buffer = 0\<rparr>"

record ('q, 'mq) onvm_nf =
  nf_rx_q :: "'q option"
  nf_tx_q :: "'q option"
  nf_msg_q :: "'mq option"
  nf_instance_id :: u16
  nf_service_id :: u16
  nf_status :: u8
  nf_tag :: "string option"
  nf_core :: u16
  nf_parent :: u16
  nf_children_cnt :: i16
  nf_init_options :: u16
  nf_time_to_live :: u16
  nf_pkt_limit :: u16
  nf_stats :: onvm_nf_stats

definition zero_nf :: "('q, 'mq) onvm_nf" where
  "zero_nf = \<lparr>nf_rx_q = None, nf_tx_q = None, nf_msg_q = None, nf_instance_id = 0, nf_service_id = 0,
     nf_status = 0, nf_tag = None, nf_core = 0, nf_parent = 0, nf_children_cnt = 0, nf_init_options = 0,
     nf_time_to_live = 0, nf_pkt_limit = 0, nf_stats = zero_nf_stats\<rparr>"

record onvm_nf_init_cfg =
  ic_instance_id :: u16
  ic_service_id :: u16
  ic_core :: u16
  ic_init_options :: u16
  ic_status :: u8
  ic_tag :: "string option"
  ic_time_to_live :: u16
  ic_pkt_limit :: u16

definition onvm_nf_is_valid :: "('q, 'mq) onvm_nf \<Rightarrow> bool" where
  "onvm_nf_is_valid nf \<longleftrightarrow> nf_status nf = NF_RUNNING"

section \<open>Names of shared objects\<close>

fun show_nat :: "nat \<Rightarrow> string" where
  "show_nat n = (if n < 10 then [char_of (48 + n)] else show_nat (n div 10) @ [char_of (48 + n mod 10)])"

declare show_nat.simps [simp del]

text \<open>
  The buffers hold the template with its two-character directive replaced by up to three digits
  (\<^verbatim>\<open>snprintf(buffer, sizeof(buffer) - 1, ...)\<close> keeps one character less than its size).
\<close>

definition get_rx_queue_name :: "u32 \<Rightarrow> string" where
  "get_rx_queue_name i = take 19 (''MProc_Client_'' @ show_nat (unat i) @ ''_RX'')"

definition get_tx_queue_name :: "u32 \<Rightarrow> string" where
  "get_tx_queue_name i = take 19 (''MProc_Client_'' @ show_nat (unat i) @ ''_TX'')"

definition get_msg_queue_name :: "u32 \<Rightarrow> string" where
  "get_msg_queue_name i = take 16 (''NF_'' @ show_nat (unat i) @ ''_MSG_QUEUE'')"

definition get_sem_name :: "u32 \<Rightarrow> string" where
  "get_sem_name i = take 20 (''MProc_Client_'' @ show_nat (unat i) @ ''_SEM'')"

definition get_rx_shmkey :: "u32 \<Rightarrow> u32" where
  "get_rx_shmkey i = 123 * 10 + i"

definition decode_nat :: "string \<Rightarrow> nat" where
  "decode_nat s = foldl (\<lambda>a c. 10 * a + (of_char c - 48)) 0 s"

lemma decode_show_nat: "decode_nat (show_nat n) = n"
proof (induction n rule: show_nat.induct)
  case (1 n)
  have d: "of_char (char_of (48 + k)) - 48 = k" if "k < 10" for k :: nat
    using that by (simp add: of_char_of take_bit_nat_eq_self)
  show ?case
  proof (cases "n < 10")
    case True
    then show ?thesis using d [of n] by (simp add: show_nat.simps [of n] decode_nat_def)
  next
    case False
    then show ?thesis using 1 d [of "n mod 10"] by (simp add: show_nat.simps [of n] decode_nat_def)
  qed
qed

lemma show_nat_inj: "show_nat m = show_nat n \<longleftrightarrow> m = n"
  by (metis decode_show_nat)

lemma length_show_nat: "n < 1000 \<Longrightarrow> length (show_nat n) \<le> 3"
  by (subst show_nat.simps, subst show_nat.simps, subst show_nat.simps) auto

text \<open>
  The names of the shared rings and semaphores: for instance ids below 1000 (the code has
  128) they are not truncated, and two ids have the same receive, transmit or message ring name
  or semaphore name only when they are equal.
\<close>

lemma queue_names_unique:
  assumes "unat i < 1000" and "unat j < 1000"
  shows "get_rx_queue_name i = ''MProc_Client_'' @ show_nat (unat i) @ ''_RX''
    \<and> get_msg_queue_name i = ''NF_'' @ show_nat (unat i) @ ''_MSG_QUEUE''
    \<and> (get_rx_queue_name i = get_rx_queue_name j \<longleftrightarrow> i = j) \<and> (get_tx_queue_name i = get_tx_queue_name j \<longleftrightarrow> i = j)
    \<and> (get_msg_queue_name i = get_msg_queue_name j \<longleftrightarrow> i = j) \<and> (get_sem_name i = get_sem_name j \<longleftrightarrow> i = j)
    \<and> get_rx_queue_name i \<noteq> get_tx_queue_name j"
proof -
  have len: "length (show_nat (unat i)) \<le> 3" "length (show_nat (unat j)) \<le> 3"
    using assms by (simp_all add: length_show_nat)
  have names: "get_rx_queue_name k = ''MProc_Client_'' @ show_nat (unat k) @ ''_RX''"
    "get_tx_queue_name k = ''MProc_Client_'' @ show_nat (unat k) @ ''_TX''"
    "get_msg_queue_name k = ''NF_'' @ show_nat (unat k) @ ''_MSG_QUEUE''"
    "get_sem_name k = ''MProc_Client_'' @ show_nat (unat k) @ ''_SEM''" if "unat k < 1000" for k :: u32
    using length_show_nat [OF that]
    by (simp_all add: get_rx_queue_name_def get_tx_queue_name_def get_msg_queue_name_def get_sem_name_def)
  have "last (get_rx_queue_name i) = CHR ''X''" "last (butlast (get_rx_queue_name i)) = CHR ''R''"
    "last (butlast (get_tx_queue_name j)) = CHR ''T''"
    by (simp_all add: names [OF assms(1)] names [OF assms(2)] butlast_append)
  then have "get_rx_queue_name i \<noteq> get_tx_queue_name j" by auto
  then show ?thesis
    using assms by (simp add: names show_nat_inj word_unat_eq_iff)
qed

end
