(* ===== verification/PktHelper.thy ===== *)
theory PktHelper
  imports OnvmTypes CLib "HOL-Library.Monad_Syntax"
begin

text \<open>
  Packet helpers of the NF library (\<^verbatim>\<open>onvm_pkt_helper.c\<close>): header access, MAC rewriting, checksums,
  header swaps, address parsing and packet generation. A packet is a record \<open>mbuf\<close> with the
  bytes from the start of its data to the end of its buffer; header fields are read and written at the offsets
  of the packed DPDK header structs, 16-bit fields in the order of a little-endian host, and an access
  outside the buffer is \<open>None\<close>. What DPDK computes is a parameter (\<open>helper_env\<close>).
\<close>

section \<open>Packets\<close>

record mbuf =
  mb_bytes :: "u8 list"
  mb_data_len :: u16
  mb_pkt_len :: u32
  mb_port :: u16
  mb_rss :: u32
  mb_ol_flags :: u64
  mb_l2_len :: "7 word"
  mb_l3_len :: "9 word"
  mb_l4_len :: "8 word"
  mb_meta :: onvm_pkt_meta

abbreviation ETHER_HDR_LEN :: nat where "ETHER_HDR_LEN \<equiv> 14"
abbreviation IPV4_HDR_LEN :: nat where "IPV4_HDR_LEN \<equiv> 20"
abbreviation TCP_HDR_LEN :: nat where "TCP_HDR_LEN \<equiv> 20"
abbreviation UDP_HDR_LEN :: nat where "UDP_HDR_LEN \<equiv> 8"

abbreviation IP_PROTOCOL_TCP :: u8 where "IP_PROTOCOL_TCP \<equiv> 6"
abbreviation IP_PROTOCOL_UDP :: u8 where "IP_PROTOCOL_UDP \<equiv> 17"

definition byte_at :: "u8 list \<Rightarrow> nat \<Rightarrow> u8 option" where
  "byte_at bs i = (if i < length bs then Some (bs ! i) else None)"

definition le16 :: "u8 \<Rightarrow> u8 \<Rightarrow> u16" where
  "le16 lo hi = ucast lo + 256 * ucast hi"

definition half_at :: "u8 list \<Rightarrow> nat \<Rightarrow> u16 option" where
  "half_at bs i = do { lo \<leftarrow> byte_at bs i; hi \<leftarrow> byte_at bs (i + 1); Some (le16 lo hi) }"

definition put_half :: "u8 list \<Rightarrow> nat \<Rightarrow> u16 \<Rightarrow> u8 list option" where
  "put_half bs i v =
     (if i + 1 < length bs then Some (bs[i := ucast v, i + 1 := ucast (drop_bit 8 v)]) else None)"

text \<open>A block of bytes, and a block overwritten (a struct copy).\<close>

definition block_at :: "u8 list \<Rightarrow> nat \<Rightarrow> nat \<Rightarrow> u8 list option" where
  "block_at bs i n = (if i + n \<le> length bs then Some (take n (drop i bs)) else None)"

definition put_block :: "u8 list \<Rightarrow> nat \<Rightarrow> u8 list \<Rightarrow> u8 list option" where
  "put_block bs i xs =
     (if i + length xs \<le> length bs then Some (take i bs @ xs @ drop (i + length xs) bs) else None)"

definition word_at :: "u8 list \<Rightarrow> nat \<Rightarrow> u32 option" where
  "word_at bs i = do { lo \<leftarrow> half_at bs i; hi \<leftarrow> half_at bs (i + 2); Some (ucast lo + 65536 * ucast hi) }"

definition on_bytes :: "(u8 list \<Rightarrow> u8 list option) \<Rightarrow> mbuf \<Rightarrow> mbuf option" where
  "on_bytes f m = map_option (\<lambda>bs. m\<lparr>mb_bytes := bs\<rparr>) (f (mb_bytes m))"

section \<open>Headers\<close>

text \<open>A header pointer is its offset; the inner \<open>None\<close> is the null pointer.\<close>

definition onvm_pkt_ether_hdr :: "mbuf option \<Rightarrow> nat option" where
  "onvm_pkt_ether_hdr pkt = map_option (\<lambda>_. 0) pkt"

definition onvm_pkt_ipv4_hdr :: "mbuf \<Rightarrow> nat option option" where
  "onvm_pkt_ipv4_hdr m = do {
     version_ihl \<leftarrow> byte_at (mb_bytes m) ETHER_HDR_LEN;
     let version = drop_bit 4 version_ihl AND 15;
     Some (if version \<noteq> 4 then None else Some ETHER_HDR_LEN) }"

definition l4_hdr :: "u8 \<Rightarrow> mbuf \<Rightarrow> nat option option" where
  "l4_hdr protocol m = do {
     ipv4 \<leftarrow> onvm_pkt_ipv4_hdr m;
     case ipv4 of
       None \<Rightarrow> Some None
     | Some ip \<Rightarrow> do {
         next_proto_id \<leftarrow> byte_at (mb_bytes m) (ip + 9);
         Some (if next_proto_id \<noteq> protocol then None else Some (ETHER_HDR_LEN + IPV4_HDR_LEN)) } }"

definition onvm_pkt_tcp_hdr :: "mbuf \<Rightarrow> nat option option" where
  "onvm_pkt_tcp_hdr m = l4_hdr IP_PROTOCOL_TCP m"

definition onvm_pkt_udp_hdr :: "mbuf \<Rightarrow> nat option option" where
  "onvm_pkt_udp_hdr m = l4_hdr IP_PROTOCOL_UDP m"

definition onvm_pkt_is_tcp :: "mbuf \<Rightarrow> bool option" where
  "onvm_pkt_is_tcp m = map_option (\<lambda>h. h \<noteq> None) (onvm_pkt_tcp_hdr m)"

definition onvm_pkt_is_udp :: "mbuf \<Rightarrow> bool option" where
  "onvm_pkt_is_udp m = map_option (\<lambda>h. h \<noteq> None) (onvm_pkt_udp_hdr m)"

definition onvm_pkt_is_ipv4 :: "mbuf \<Rightarrow> bool option" where
  "onvm_pkt_is_ipv4 m = map_option (\<lambda>h. h \<noteq> None) (onvm_pkt_ipv4_hdr m)"

section \<open>MAC addresses\<close>

text \<open>\<open>macs\<close> is \<^verbatim>\<open>ports->mac\<close>, a list of addresses of six bytes; a result \<open>None\<close> is an access outside it.\<close>

definition port_mac :: "u8 list list \<Rightarrow> nat \<Rightarrow> u8 list option" where
  "port_mac macs p = (if p < length macs then Some (macs ! p) else None)"

definition onvm_pkt_set_mac_addr :: "mbuf option \<Rightarrow> nat \<Rightarrow> nat \<Rightarrow> u8 list list \<Rightarrow> (int \<times> mbuf option) option" where
  "onvm_pkt_set_mac_addr pkt src_port_id dst_port_id macs =
     (case pkt of
        None \<Rightarrow> Some (- 1, None)
      | Some m \<Rightarrow> do {
          s \<leftarrow> port_mac macs src_port_id;
          m1 \<leftarrow> on_bytes (\<lambda>bs. put_block bs 6 s) m;
          d \<leftarrow> port_mac macs dst_port_id;
          m2 \<leftarrow> on_bytes (\<lambda>bs. put_block bs 0 d) m1;
          Some (0, Some m2) })"

definition onvm_pkt_swap_src_mac_addr :: "mbuf option \<Rightarrow> nat \<Rightarrow> u8 list list \<Rightarrow> (int \<times> mbuf option) option" where
  "onvm_pkt_swap_src_mac_addr pkt dst_port_id macs =
     (case pkt of
        None \<Rightarrow> Some (- 1, None)
      | Some m \<Rightarrow> do {
          s \<leftarrow> block_at (mb_bytes m) 6 6;
          m1 \<leftarrow> on_bytes (\<lambda>bs. put_block bs 0 s) m;
          p \<leftarrow> port_mac macs dst_port_id;
          m2 \<leftarrow> on_bytes (\<lambda>bs. put_block bs 6 p) m1;
          Some (0, Some m2) })"

definition onvm_pkt_swap_dst_mac_addr :: "mbuf option \<Rightarrow> nat \<Rightarrow> u8 list list \<Rightarrow> (int \<times> mbuf option) option" where
  "onvm_pkt_swap_dst_mac_addr pkt src_port_id macs =
     (case pkt of
        None \<Rightarrow> Some (- 1, None)
      | Some m \<Rightarrow> do {
          d \<leftarrow> block_at (mb_bytes m) 0 6;
          m1 \<leftarrow> on_bytes (\<lambda>bs. put_block bs 6 d) m;
          p \<leftarrow> port_mac macs src_port_id;
          m2 \<leftarrow> on_bytes (\<lambda>bs. put_block bs 0 p) m1;
          Some (0, Some m2) })"

section \<open>Header swaps\<close>

text \<open>
  The code copies byte by byte through a temporary; on the six bytes of each address this is a
  block exchange. \<open>o\<close> is the offset of the header.
\<close>

definition swap_blocks :: "u8 list \<Rightarrow> nat \<Rightarrow> nat \<Rightarrow> nat \<Rightarrow> u8 list option" where
  "swap_blocks bs i j n = do {
     a \<leftarrow> block_at bs i n; b \<leftarrow> block_at bs j n;
     bs1 \<leftarrow> put_block bs i b; put_block bs1 j a }"

definition onvm_pkt_swap_ether_hdr :: "nat \<Rightarrow> mbuf \<Rightarrow> mbuf option" where
  "onvm_pkt_swap_ether_hdr h m = on_bytes (\<lambda>bs. swap_blocks bs (h + 6) h 6) m"

definition onvm_pkt_swap_ip_hdr :: "nat \<Rightarrow> mbuf \<Rightarrow> mbuf option" where
  "onvm_pkt_swap_ip_hdr h m = on_bytes (\<lambda>bs. swap_blocks bs (h + 12) (h + 16) 4) m"

definition onvm_pkt_swap_tcp_hdr :: "nat \<Rightarrow> mbuf \<Rightarrow> mbuf option" where
  "onvm_pkt_swap_tcp_hdr h m = on_bytes (\<lambda>bs. swap_blocks bs h (h + 2) 2) m"

section \<open>Checksums\<close>

text \<open>
  What DPDK provides: the raw one's complement sum of a block and the pseudo header checksum of an IPv4 header,
  the checksums a port computes in hardware, the values of the mbuf flags, allocation and
  \<^verbatim>\<open>rte_pktmbuf_prepend\<close>, and the header values in network order.
\<close>

record helper_env =
  he_raw_cksum :: "u8 list \<Rightarrow> u16"
  he_phdr_cksum :: "u8 list \<Rightarrow> u64 \<Rightarrow> u16"
  he_ipv4_offload :: "u8 \<Rightarrow> bool"
  he_tcp_offload :: "u8 \<Rightarrow> bool"
  he_udp_offload :: "u8 \<Rightarrow> bool"
  he_PKT_TX_IPV4 :: u64
  he_PKT_TX_IP_CKSUM :: u64
  he_PKT_TX_TCP_CKSUM :: u64
  he_PKT_TX_UDP_CKSUM :: u64
  he_alloc :: "mbuf option"
  he_prepend :: "mbuf \<Rightarrow> nat \<Rightarrow> mbuf option"

abbreviation SUPPORTS_IPV4_CHECKSUM_OFFLOAD :: u32 where "SUPPORTS_IPV4_CHECKSUM_OFFLOAD \<equiv> 1"
abbreviation SUPPORTS_TCP_CHECKSUM_OFFLOAD :: u32 where "SUPPORTS_TCP_CHECKSUM_OFFLOAD \<equiv> 2"
abbreviation SUPPORTS_UDP_CHECKSUM_OFFLOAD :: u32 where "SUPPORTS_UDP_CHECKSUM_OFFLOAD \<equiv> 4"

definition onvm_pkt_get_checksum_offload_flags :: "helper_env \<Rightarrow> u8 \<Rightarrow> u32" where
  "onvm_pkt_get_checksum_offload_flags env port_id =
     (let f0 = 0;
          f1 = (if he_ipv4_offload env port_id then f0 OR SUPPORTS_IPV4_CHECKSUM_OFFLOAD else f0);
          f2 = (if he_tcp_offload env port_id then f1 OR SUPPORTS_TCP_CHECKSUM_OFFLOAD else f1)
      in if he_udp_offload env port_id then f2 OR SUPPORTS_UDP_CHECKSUM_OFFLOAD else f2)"

text \<open>The folding loop; each round at least halves a value above 16 bits.\<close>

lemma fold_decreases:
  fixes c :: u32
  assumes "c AND 0xffff0000 \<noteq> 0"
  shows "unat (drop_bit 16 (c AND 0xffff0000) + (c AND 0xffff)) = unat c div 65536 + unat c mod 65536"
    and "65536 \<le> unat c"
proof -
  have m: "(0xffff0000 :: u32) = push_bit 16 (mask 16)" by (simp add: mask_eq_exp_minus_1 push_bit_eq_mult)
  have hi: "drop_bit 16 (c AND 0xffff0000) = drop_bit 16 c"
    unfolding m by (rule bit_word_eqI) (auto simp: bit_simps dest: bit_imp_le_length)
  have lo: "c AND 0xffff = take_bit 16 c"
    by (simp add: take_bit_eq_mask mask_eq_exp_minus_1)
  have b: "unat (drop_bit 16 c) = unat c div 65536" "unat (take_bit 16 c) = unat c mod 65536"
    by (simp_all add: drop_bit_eq_div take_bit_eq_mod unat_div_distrib unat_mod_distrib)
  have "unat c < 4294967296" using unat_less_2p [of c] by simp
  then have "unat (drop_bit 16 c) + unat (take_bit 16 c) < 2 ^ LENGTH(32)"
    using b by simp
  from unat_plus_exact [OF this] show "unat (drop_bit 16 (c AND 0xffff0000) + (c AND 0xffff)) = unat c div 65536 + unat c mod 65536"
    unfolding hi lo b .
  show "65536 \<le> unat c"
  proof (rule ccontr)
    assume "\<not> 65536 \<le> unat c"
    then have "unat (drop_bit 16 c) = 0" using b by simp
    then have "drop_bit 16 (c AND 0xffff0000) = 0" unfolding hi by (simp only: unat_eq_zero)
    moreover have "c AND 0xffff0000 = push_bit 16 (drop_bit 16 (c AND 0xffff0000))"
      unfolding m by (rule bit_word_eqI) (auto simp: bit_simps)
    ultimately show False using assms by simp
  qed
qed

function fold_cksum :: "u32 \<Rightarrow> u32" where
  "fold_cksum c = (if c AND 0xffff0000 \<noteq> 0 then fold_cksum (drop_bit 16 (c AND 0xffff0000) + (c AND 0xffff)) else c)"
  by pat_completeness auto
termination
proof (relation "measure unat")
  fix c :: u32
  assume c: "c AND 0xffff0000 \<noteq> 0"
  have "unat c div 65536 + unat c mod 65536 < unat c"
    using fold_decreases(2) [OF c] div_mult_mod_eq [of "unat c" 65536] by linarith
  then show "(drop_bit 16 (c AND 0xffff0000) + (c AND 0xffff), c) \<in> measure unat"
    using fold_decreases(1) [OF c] by simp
qed simp

declare fold_cksum.simps [simp del]

text \<open>
  \<open>ip\<close> and \<open>l4\<close> are header offsets. The total length is used as it is stored, in network order on a
  little-endian host, and the pseudo header is the packed struct the code builds.
\<close>

definition calculate_tcpudp_cksum :: "helper_env \<Rightarrow> u8 list \<Rightarrow> nat \<Rightarrow> nat \<Rightarrow> u32 \<Rightarrow> u8 \<Rightarrow> u16 option" where
  "calculate_tcpudp_cksum env bs ip l4 l3_len protocol = do {
     total_length \<leftarrow> half_at bs (ip + 2);
     let l4_len = (ucast total_length :: u32) - l3_len;
     saddr \<leftarrow> block_at bs (ip + 12) 4;
     daddr \<leftarrow> block_at bs (ip + 16) 4;
     let ph_len = (ucast l4_len :: u16);
     let ph = saddr @ daddr @ [0, protocol, ucast ph_len, ucast (drop_bit 8 ph_len)];
     l4_bytes \<leftarrow> block_at bs l4 (unat l4_len);
     let cksum = (ucast (he_raw_cksum env ph) :: u32) + ucast (he_raw_cksum env l4_bytes);
     Some (NOT (ucast (fold_cksum cksum))) }"

definition calculate_ip_cksum :: "helper_env \<Rightarrow> u8 list \<Rightarrow> nat \<Rightarrow> nat \<Rightarrow> u16 option" where
  "calculate_ip_cksum env bs ip l3_len = do {
     hdr \<leftarrow> block_at bs ip l3_len;
     let cksum = he_raw_cksum env hdr;
     Some (if cksum = 0xffff then cksum else NOT cksum) }"

text \<open>
  The part of \<^verbatim>\<open>onvm_pkt_set_checksums\<close> for one transport header: the checksum field is \<open>off\<close> bytes
  into it, and the header length was stored in the mbuf before.
\<close>

definition set_l4_cksum ::
  "helper_env \<Rightarrow> bool \<Rightarrow> u64 \<Rightarrow> u8 \<Rightarrow> nat \<Rightarrow> nat \<Rightarrow> nat \<Rightarrow> mbuf \<Rightarrow> mbuf option" where
  "set_l4_cksum env offload flag protocol ip l4 off m =
     (if offload then do {
        hdr \<leftarrow> block_at (mb_bytes m) ip IPV4_HDR_LEN;
        m1 \<leftarrow> on_bytes (\<lambda>bs. put_half bs (l4 + off) (he_phdr_cksum env hdr (mb_ol_flags m))) m;
        Some (m1\<lparr>mb_ol_flags := mb_ol_flags m1 OR flag\<rparr>) }
      else do {
        c \<leftarrow> calculate_tcpudp_cksum env (mb_bytes m) ip l4 (ucast (mb_l3_len m)) protocol;
        on_bytes (\<lambda>bs. put_half bs (l4 + off) c) m })"

definition set_tcp_cksum :: "helper_env \<Rightarrow> u32 \<Rightarrow> nat \<Rightarrow> nat option \<Rightarrow> mbuf \<Rightarrow> mbuf option" where
  "set_tcp_cksum env hw ip tcp m =
     (case tcp of
        None \<Rightarrow> Some m
      | Some t \<Rightarrow> do {
          m1 \<leftarrow> on_bytes (\<lambda>bs. put_half bs (t + 16) 0) m;
          data_off \<leftarrow> byte_at (mb_bytes m1) (t + 12);
          set_l4_cksum env (hw AND SUPPORTS_TCP_CHECKSUM_OFFLOAD \<noteq> 0) (he_PKT_TX_TCP_CKSUM env) IP_PROTOCOL_TCP ip t 16
            (m1\<lparr>mb_l4_len := drop_bit 4 data_off AND 15\<rparr>) })"

definition set_udp_cksum :: "helper_env \<Rightarrow> u32 \<Rightarrow> nat \<Rightarrow> nat option \<Rightarrow> mbuf \<Rightarrow> mbuf option" where
  "set_udp_cksum env hw ip udp m =
     (case udp of
        None \<Rightarrow> Some m
      | Some u \<Rightarrow> do {
          m1 \<leftarrow> on_bytes (\<lambda>bs. put_half bs (u + 6) 0) m;
          set_l4_cksum env (hw AND SUPPORTS_UDP_CHECKSUM_OFFLOAD \<noteq> 0) (he_PKT_TX_UDP_CKSUM env) IP_PROTOCOL_UDP ip u 6
            (m1\<lparr>mb_l4_len := 8\<rparr>) })"

definition set_ip_cksum :: "helper_env \<Rightarrow> u32 \<Rightarrow> nat \<Rightarrow> mbuf \<Rightarrow> mbuf option" where
  "set_ip_cksum env hw ip m =
     (if hw AND SUPPORTS_IPV4_CHECKSUM_OFFLOAD \<noteq> 0
      then Some (m\<lparr>mb_ol_flags := mb_ol_flags m OR he_PKT_TX_IP_CKSUM env\<rparr>)
      else do {
        c \<leftarrow> calculate_ip_cksum env (mb_bytes m) ip (unat (mb_l3_len m));
        on_bytes (\<lambda>bs. put_half bs (ip + 10) c) m })"

definition onvm_pkt_set_checksums :: "helper_env \<Rightarrow> mbuf \<Rightarrow> mbuf option" where
  "onvm_pkt_set_checksums env m = do {
     let hw = onvm_pkt_get_checksum_offload_flags env (ucast (mb_port m));
     ip \<leftarrow> onvm_pkt_ipv4_hdr m; tcp \<leftarrow> onvm_pkt_tcp_hdr m; udp \<leftarrow> onvm_pkt_udp_hdr m;
     case ip of
       None \<Rightarrow> Some m
     | Some i \<Rightarrow> do {
         m1 \<leftarrow> on_bytes (\<lambda>bs. put_half bs (i + 10) 0) m;
         version_ihl \<leftarrow> byte_at (mb_bytes m1) i;
         let m2 = m1\<lparr>mb_l2_len := 14, mb_l3_len := ucast (version_ihl AND 15) * 4,
                      mb_ol_flags := mb_ol_flags m1 OR he_PKT_TX_IPV4 env\<rparr>;
         m3 \<leftarrow> set_tcp_cksum env hw i tcp m2;
         m4 \<leftarrow> set_udp_cksum env hw i udp m3;
         set_ip_cksum env hw i m4 } }"

section \<open>Address parsing\<close>

text \<open>
  \<^verbatim>\<open>sscanf\<close> with a sequence of unsigned conversions of one base separated by a character: the numbers
  read before the first mismatch.
\<close>

fun scan_fields :: "nat \<Rightarrow> char \<Rightarrow> nat \<Rightarrow> string \<Rightarrow> u32 list" where
  "scan_fields base sep 0 s = []"
| "scan_fields base sep (Suc n) s =
     (case scan_number base s of
        None \<Rightarrow> []
      | Some (neg, v, rest) \<Rightarrow>
          ucast (fst (strtoul_c base s)) #
            (case rest of [] \<Rightarrow> [] | c # r \<Rightarrow> if c = sep then scan_fields base sep n r else []))"

text \<open>\<^verbatim>\<open>RTE_IPV4(a, b, c, d)\<close> keeps the low byte of each argument.\<close>

definition rte_ipv4 :: "u32 \<Rightarrow> u32 \<Rightarrow> u32 \<Rightarrow> u32 \<Rightarrow> u32" where
  "rte_ipv4 a b c d = push_bit 24 (a AND 0xff) OR push_bit 16 (b AND 0xff) OR push_bit 8 (c AND 0xff) OR (d AND 0xff)"

definition onvm_pkt_parse_ip :: "string option \<Rightarrow> int \<times> u32 option" where
  "onvm_pkt_parse_ip ip_str =
     (case ip_str of
        None \<Rightarrow> (- 1, None)
      | Some s \<Rightarrow>
          (case scan_fields 10 CHR ''.'' 4 s of
             [a, b, c, d] \<Rightarrow> (0, Some (rte_ipv4 a b c d))
           | _ \<Rightarrow> (- 1, None)))"

definition onvm_pkt_parse_char_ip :: "u32 \<Rightarrow> string" where
  "onvm_pkt_parse_char_ip ip_src =
     take 15 (show_nat (unat (drop_bit 24 ip_src AND 0xff)) @ ''.'' @ show_nat (unat (drop_bit 16 ip_src AND 0xff)) @ ''.'' @
       show_nat (unat (drop_bit 8 ip_src AND 0xff)) @ ''.'' @ show_nat (unat (ip_src AND 0xff)))"

definition onvm_pkt_parse_mac :: "string option \<Rightarrow> int \<times> u8 list option" where
  "onvm_pkt_parse_mac mac_str =
     (case mac_str of
        None \<Rightarrow> (- 1, None)
      | Some s \<Rightarrow>
          let mac = scan_fields 16 CHR '':'' 6 s in
          if length mac \<noteq> 6 then (- 1, None) else (0, Some (map ucast mac)))"

section \<open>Packet generation\<close>

text \<open>
  Headers are given as their bytes. Prepending and copying; \<open>Some None\<close> is the null pointer the function
  returns when there is no headroom left.
\<close>

definition prepend_copy :: "helper_env \<Rightarrow> u8 list \<Rightarrow> mbuf \<Rightarrow> mbuf option option" where
  "prepend_copy env xs m =
     (case he_prepend env m (length xs) of
        None \<Rightarrow> Some None
      | Some m1 \<Rightarrow> map_option Some (on_bytes (\<lambda>bs. put_block bs 0 xs) m1))"

primrec prepend_all :: "helper_env \<Rightarrow> u8 list list \<Rightarrow> mbuf \<Rightarrow> mbuf option option" where
  "prepend_all env [] m = Some (Some m)"
| "prepend_all env (x # xs) m = do {
     r \<leftarrow> prepend_copy env x m;
     case r of None \<Rightarrow> Some None | Some m1 \<Rightarrow> prepend_all env xs m1 }"

definition be_bytes16 :: "u16 \<Rightarrow> u8 list" where
  "be_bytes16 v = [ucast (drop_bit 8 v), ucast v]"

definition be_bytes32 :: "u32 \<Rightarrow> u8 list" where
  "be_bytes32 v = be_bytes16 (ucast (drop_bit 16 v)) @ be_bytes16 (ucast v)"

text \<open>The result is the packet and the IP header of the caller, whose total length is set after it was copied.\<close>

definition onvm_pkt_generate_tcp ::
  "helper_env \<Rightarrow> u8 list \<Rightarrow> u8 list \<Rightarrow> u8 list \<Rightarrow> u8 list \<Rightarrow> u8 list \<Rightarrow> (mbuf option \<times> u8 list) option" where
  "onvm_pkt_generate_tcp env tcp_hdr iph eth_hdr options payload =
     (case he_alloc env of
        None \<Rightarrow> Some (None, iph)
      | Some m0 \<Rightarrow>
          let m1 = m0\<lparr>mb_ol_flags := he_PKT_TX_IP_CKSUM env OR he_PKT_TX_IPV4 env OR he_PKT_TX_TCP_CKSUM env,
                      mb_l2_len := 14, mb_l3_len := 20\<rparr>;
              parts = (if payload \<noteq> [] then [payload] else []) @ (if options \<noteq> [] then [options] else []) @ [tcp_hdr, iph, eth_hdr]
          in do {
            r \<leftarrow> prepend_all env parts m1;
            case r of
              None \<Rightarrow> Some (None, iph)
            | Some m2 \<Rightarrow> do {
                let m3 = m2\<lparr>mb_pkt_len := ucast (mb_data_len m2)\<rparr>;
                let len = (of_nat (length payload + length options + TCP_HDR_LEN + IPV4_HDR_LEN - ETHER_HDR_LEN) :: u16);
                iph1 \<leftarrow> put_block iph 2 (be_bytes16 len);
                m4 \<leftarrow> onvm_pkt_set_checksums env m3;
                Some (Some m4, iph1) } })"

definition onvm_pkt_generate_udp ::
  "helper_env \<Rightarrow> u8 list \<Rightarrow> u8 list \<Rightarrow> u8 list \<Rightarrow> u8 list \<Rightarrow> (mbuf option \<times> u8 list) option" where
  "onvm_pkt_generate_udp env udp_hdr iph eth_hdr payload =
     (case he_alloc env of
        None \<Rightarrow> Some (None, iph)
      | Some m0 \<Rightarrow>
          let m1 = m0\<lparr>mb_ol_flags := he_PKT_TX_IP_CKSUM env OR he_PKT_TX_IPV4 env OR he_PKT_TX_UDP_CKSUM env,
                      mb_l2_len := 14, mb_l3_len := 20\<rparr>
          in do {
            r \<leftarrow> prepend_all env [payload, udp_hdr, iph, eth_hdr] m1;
            case r of
              None \<Rightarrow> Some (None, iph)
            | Some m2 \<Rightarrow> do {
                let m3 = m2\<lparr>mb_pkt_len := ucast (mb_data_len m2)\<rparr>;
                let len = (ucast (mb_pkt_len m3 - of_nat ETHER_HDR_LEN) :: u16);
                iph1 \<leftarrow> put_block iph 2 (be_bytes16 len);
                m4 \<leftarrow> onvm_pkt_set_checksums env m3;
                Some (Some m4, iph1) } })"

definition onvm_pkt_fill_udp :: "u8 list \<Rightarrow> u16 \<Rightarrow> u16 \<Rightarrow> u16 \<Rightarrow> u8 list option" where
  "onvm_pkt_fill_udp udp_hdr src_port dst_port payload_len = do {
     h1 \<leftarrow> put_block udp_hdr 0 (be_bytes16 src_port);
     h2 \<leftarrow> put_block h1 2 (be_bytes16 dst_port);
     h3 \<leftarrow> put_block h2 6 [0, 0];
     put_block h3 4 (be_bytes16 (payload_len + of_nat UDP_HDR_LEN)) }"

definition onvm_pkt_fill_ipv4 :: "u8 list \<Rightarrow> u32 \<Rightarrow> u32 \<Rightarrow> u8 \<Rightarrow> u8 list option" where
  "onvm_pkt_fill_ipv4 iph s d l4_proto = do {
     h1 \<leftarrow> put_block iph 12 (be_bytes32 s);
     h2 \<leftarrow> put_block h1 16 (be_bytes32 d);
     h3 \<leftarrow> put_block h2 9 [l4_proto];
     h4 \<leftarrow> put_block h3 0 [69];
     h5 \<leftarrow> put_block h4 8 [64];
     put_block h5 10 [0, 0] }"

definition onvm_pkt_fill_ether :: "u8 list \<Rightarrow> nat \<Rightarrow> u8 list \<Rightarrow> u8 list list \<Rightarrow> u8 list option" where
  "onvm_pkt_fill_ether eth_hdr port dst_mac macs = do {
     s \<leftarrow> port_mac macs port;
     h1 \<leftarrow> put_block eth_hdr 6 s;
     h2 \<leftarrow> put_block h1 12 (be_bytes16 0x0800);
     d \<leftarrow> block_at dst_mac 0 6;
     put_block h2 0 d }"

text \<open>
  The sample packet; the three headers are automatic variables, so their other bytes are arbitrary:
  they are the arguments.
\<close>

definition sample_payload :: "u8 list" where
  "sample_payload = map (\<lambda>c. of_nat (char_code c)) ''UDP packet sent from ONVM.'' @ replicate 6 0"

definition onvm_pkt_generate_udp_sample ::
  "helper_env \<Rightarrow> u8 list list \<Rightarrow> u8 list \<Rightarrow> u8 list \<Rightarrow> u8 list \<Rightarrow> mbuf option option" where
  "onvm_pkt_generate_udp_sample env macs udp0 ip0 eth0 = do {
     udp_hdr \<leftarrow> onvm_pkt_fill_udp udp0 12345 54321 32;
     iph \<leftarrow> onvm_pkt_fill_ipv4 ip0 (rte_ipv4 10 0 0 1) (rte_ipv4 10 0 0 2) IP_PROTOCOL_UDP;
     eth_hdr \<leftarrow> onvm_pkt_fill_ether eth0 0 (replicate 6 0xff) macs;
     (pkt, iph1) \<leftarrow> onvm_pkt_generate_udp env udp_hdr iph eth_hdr sample_payload;
     Some (map_option (\<lambda>m. m\<lparr>mb_meta := (mb_meta m)\<lparr>destination := 0, action := ONVM_NF_ACTION_OUT\<rparr>\<rparr>) pkt) }"

section \<open>Lemmas\<close>

text \<open>The sum of the 16-bit words of a block, an odd last byte counting as a word with a zero high byte.\<close>

fun ones_sum :: "u8 list \<Rightarrow> nat" where
  "ones_sum [] = 0"
| "ones_sum [a] = unat a"
| "ones_sum (a # b # r) = unat a + 256 * unat b + ones_sum r"

text \<open>The documented behaviour of \<^verbatim>\<open>rte_raw_cksum\<close>: the non-complemented one's complement sum in 16 bits.\<close>

definition raw_cksum_ok :: "helper_env \<Rightarrow> bool" where
  "raw_cksum_ok env \<longleftrightarrow> (\<forall>bs. unat (he_raw_cksum env bs) mod 65535 = ones_sum bs mod 65535)"

lemma ones_sum_append: "even (length xs) \<Longrightarrow> ones_sum (xs @ ys) = ones_sum xs + ones_sum ys"
  by (induction xs rule: ones_sum.induct) auto

lemma half_bytes: "unat (ucast v :: u8) + 256 * unat (ucast (drop_bit 8 v) :: u8) = unat v" for v :: u16
proof -
  have "unat v < 65536" using unat_less_2p [of v] by simp
  moreover have lo: "unat (ucast w :: u8) = unat w mod 256" for w :: u16
    by (simp add: unsigned_ucast_eq take_bit_nat_def)
  moreover have "unat (drop_bit 8 v) = unat v div 256" by (simp add: drop_bit_eq_div unat_div_distrib)
  ultimately show ?thesis unfolding lo by simp
qed

lemma length_put_half: "put_half bs i v = Some bs' \<Longrightarrow> length bs' = length bs"
  by (auto simp: put_half_def split: if_splits)

lemma put_half_nth: "put_half bs i v = Some bs' \<Longrightarrow> k \<noteq> i \<Longrightarrow> k \<noteq> i + 1 \<Longrightarrow> bs' ! k = bs ! k"
  by (auto simp: put_half_def split: if_splits)

text \<open>Writing a 16-bit field at an even place of a block whose field is zero adds the value to its sum.\<close>

lemma ones_sum_put:
  assumes "even i" "i + 1 < length hdr" "hdr ! i = 0" "hdr ! (i + 1) = 0"
  shows "ones_sum (hdr[i := ucast v, i + 1 := ucast (drop_bit 8 v)]) = ones_sum hdr + unat (v :: u16)"
proof -
  let ?a = "take i hdr" let ?c = "drop (i + 2) hdr"
  have hdr: "hdr = ?a @ [0, 0] @ ?c"
    using assms(2-4) by (metis Cons_nth_drop_Suc Suc_eq_plus1 Suc_lessD add_2_eq_Suc' append_Cons append_Nil append_take_drop_id)
  have len: "length ?a = i" using assms(2) by simp
  have "hdr[i := ucast v, i + 1 := ucast (drop_bit 8 v)] = ?a @ [ucast v, ucast (drop_bit 8 v)] @ ?c"
    using len by (subst hdr) (simp add: list_update_append)
  moreover have "ones_sum (?a @ [ucast v, ucast (drop_bit 8 v)] @ ?c) = ones_sum ?a + unat v + ones_sum ?c"
    using assms(1) len half_bytes [of v] by (simp add: ones_sum_append)
  moreover have "ones_sum hdr = ones_sum ?a + ones_sum ?c"
    using assms(1) len by (subst hdr) (simp add: ones_sum_append)
  ultimately show ?thesis by simp
qed

text \<open>The checksum that \<open>calculate_ip_cksum\<close> gives makes the sum of the header a multiple of \<open>2 ^ 16 - 1\<close>.\<close>

lemma ip_cksum_completes:
  fixes c :: u16
  assumes "unat c mod 65535 = n mod 65535"
  shows "(n + unat (if c = 0xffff then c else NOT c)) mod 65535 = 0"
proof (cases "c = 0xffff")
  case True
  then have "n mod 65535 = 0" using assms by simp
  then show ?thesis using True by (simp add: mod_add_eq [symmetric])
next
  case False
  have "unat c < 65536" using unat_less_2p [of c] by simp
  have "unat (- 1 :: u16) = 65535" by (simp add: unsigned_minus_1_eq_mask mask_eq_exp_minus_1)
  moreover have "NOT c = - 1 - c" by (simp add: not_eq_complement)
  ultimately have "unat (NOT c) = 65535 - unat c" by (simp add: unat_minus_exact)
  then have "(n + unat (NOT c)) mod 65535 = (unat c mod 65535 + (65535 - unat c)) mod 65535"
    using assms by (metis mod_add_left_eq)
  also have "\<dots> = (unat c + (65535 - unat c)) mod 65535" by (simp add: mod_add_left_eq)
  also have "\<dots> = 0" using \<open>unat c < 65536\<close> by simp
  finally show ?thesis using False by simp
qed

text \<open>\<open>touches S m m'\<close>: only bytes at the offsets \<open>S\<close> may differ, and the mbuf keeps its header length.\<close>

definition touches :: "nat set \<Rightarrow> mbuf \<Rightarrow> mbuf \<Rightarrow> bool" where
  "touches S m m' \<longleftrightarrow> length (mb_bytes m') = length (mb_bytes m) \<and> (\<forall>k. k \<notin> S \<longrightarrow> mb_bytes m' ! k = mb_bytes m ! k)
     \<and> mb_l3_len m' = mb_l3_len m"

lemma touches_refl: "touches S m m"
  by (simp add: touches_def)

lemma touches_trans: "touches S m m1 \<Longrightarrow> touches T m1 m2 \<Longrightarrow> touches (S \<union> T) m m2"
  by (auto simp: touches_def)

lemma put_half_touches:
  assumes "i + 1 < length (mb_bytes m)"
  shows "\<exists>m'. on_bytes (\<lambda>bs. put_half bs i v) m = Some m' \<and> touches {i, i + 1} m m'"
  using assms by (auto simp: on_bytes_def put_half_def touches_def)

text \<open>The number of bytes the software checksum of a transport header reads.\<close>

definition l4_span :: "mbuf \<Rightarrow> nat" where
  "l4_span m = unat ((ucast (le16 (mb_bytes m ! 16) (mb_bytes m ! 17)) :: u32) - ucast (mb_l3_len m))"

lemma tcpudp_cksum_returns:
  assumes "ETHER_HDR_LEN + IPV4_HDR_LEN \<le> length (mb_bytes m)"
  shows "calculate_tcpudp_cksum env (mb_bytes m) 14 34 (ucast (mb_l3_len m)) p = None
    \<longleftrightarrow> length (mb_bytes m) < 34 + l4_span m"
  using assms
  by (auto simp: calculate_tcpudp_cksum_def half_at_def byte_at_def block_at_def l4_span_def Let_def split: if_splits)

lemma set_l4_cksum_cases:
  assumes "60 \<le> length (mb_bytes m)" "off < 20"
  shows "set_l4_cksum env offload flag p 14 34 off m = None \<longleftrightarrow> \<not> offload \<and> length (mb_bytes m) < 34 + l4_span m"
    and "set_l4_cksum env offload flag p 14 34 off m = Some m' \<Longrightarrow> touches {34 + off, 35 + off} m m'"
proof -
  have in_buf: "34 + off + 1 < length (mb_bytes m)" using assms by simp
  show "set_l4_cksum env offload flag p 14 34 off m = None \<longleftrightarrow> \<not> offload \<and> length (mb_bytes m) < 34 + l4_span m"
  proof (cases offload)
    case True
    then show ?thesis using assms in_buf
      by (simp add: set_l4_cksum_def block_at_def on_bytes_def put_half_def)
  next
    case False
    then show ?thesis using assms in_buf tcpudp_cksum_returns [of m env p]
      by (cases "calculate_tcpudp_cksum env (mb_bytes m) 14 34 (ucast (mb_l3_len m)) p")
        (simp_all add: set_l4_cksum_def on_bytes_def put_half_def)
  qed
  show "set_l4_cksum env offload flag p 14 34 off m = Some m' \<Longrightarrow> touches {34 + off, 35 + off} m m'"
    using in_buf
    by (auto simp: set_l4_cksum_def on_bytes_def put_half_def touches_def bind_eq_Some_conv split: if_splits)
qed

lemma l4_span_touches: "touches S m m' \<Longrightarrow> 16 \<notin> S \<Longrightarrow> 17 \<notin> S \<Longrightarrow> l4_span m' = l4_span m"
  by (simp add: touches_def l4_span_def)

text \<open>Both transport headers follow one pattern: clear the field, store the header length, set the checksum.\<close>

lemma clear_then_set:
  assumes len: "60 \<le> length (mb_bytes m)" and off: "off < 20"
    and m1: "on_bytes (\<lambda>bs. put_half bs (34 + off) 0) m = Some m1"
  shows "touches {34 + off, 35 + off} m m1" "60 \<le> length (mb_bytes m1)"
    and "set_l4_cksum env offload flag p 14 34 off (m1\<lparr>mb_l4_len := l\<rparr>) = None
      \<longleftrightarrow> \<not> offload \<and> length (mb_bytes m) < 34 + l4_span m"
    and "set_l4_cksum env offload flag p 14 34 off (m1\<lparr>mb_l4_len := l\<rparr>) = Some m' \<Longrightarrow> touches {34 + off, 35 + off} m m'"
proof -
  show t1: "touches {34 + off, 35 + off} m m1"
    using put_half_touches [of "34 + off" m 0] len off m1 by auto
  then show len1: "60 \<le> length (mb_bytes m1)" using len by (simp add: touches_def)
  let ?m2 = "m1\<lparr>mb_l4_len := l\<rparr>"
  have t2: "touches {34 + off, 35 + off} m ?m2" using t1 by (simp add: touches_def)
  have len2: "60 \<le> length (mb_bytes ?m2)" using len1 by simp
  show "set_l4_cksum env offload flag p 14 34 off ?m2 = None \<longleftrightarrow> \<not> offload \<and> length (mb_bytes m) < 34 + l4_span m"
    using set_l4_cksum_cases(1) [OF len2 off] l4_span_touches [OF t2] t2 by (simp add: touches_def)
  show "set_l4_cksum env offload flag p 14 34 off ?m2 = Some m' \<Longrightarrow> touches {34 + off, 35 + off} m m'"
    using set_l4_cksum_cases(2) [OF len2 off] touches_trans [OF t2] by (metis Un_absorb)
qed

lemma set_tcp_cksum_cases:
  assumes len: "60 \<le> length (mb_bytes m)" and tcp: "tcp = None \<or> tcp = Some 34"
  shows "set_tcp_cksum env hw 14 tcp m = None
      \<longleftrightarrow> tcp \<noteq> None \<and> hw AND SUPPORTS_TCP_CHECKSUM_OFFLOAD = 0 \<and> length (mb_bytes m) < 34 + l4_span m"
    and "set_tcp_cksum env hw 14 tcp m = Some m' \<Longrightarrow> touches {50, 51} m m'"
proof -
  obtain m1 where m1: "on_bytes (\<lambda>bs. put_half bs (34 + 16) 0) m = Some m1"
    using put_half_touches [of "34 + 16" m 0] len by auto
  note c = clear_then_set [OF len _ m1]
  show "set_tcp_cksum env hw 14 tcp m = None
      \<longleftrightarrow> tcp \<noteq> None \<and> hw AND SUPPORTS_TCP_CHECKSUM_OFFLOAD = 0 \<and> length (mb_bytes m) < 34 + l4_span m"
    using tcp c(2,3) m1 by (auto simp: set_tcp_cksum_def byte_at_def split: if_splits)
  show "set_tcp_cksum env hw 14 tcp m = Some m' \<Longrightarrow> touches {50, 51} m m'"
    using tcp c(2,4) m1 by (auto simp: set_tcp_cksum_def byte_at_def touches_refl split: if_splits)
qed

lemma set_udp_cksum_cases:
  assumes len: "60 \<le> length (mb_bytes m)" and udp: "udp = None \<or> udp = Some 34"
  shows "set_udp_cksum env hw 14 udp m = None
      \<longleftrightarrow> udp \<noteq> None \<and> hw AND SUPPORTS_UDP_CHECKSUM_OFFLOAD = 0 \<and> length (mb_bytes m) < 34 + l4_span m"
    and "set_udp_cksum env hw 14 udp m = Some m' \<Longrightarrow> touches {40, 41} m m'"
proof -
  obtain m1 where m1: "on_bytes (\<lambda>bs. put_half bs (34 + 6) 0) m = Some m1"
    using put_half_touches [of "34 + 6" m 0] len by auto
  note c = clear_then_set [OF len _ m1]
  show "set_udp_cksum env hw 14 udp m = None
      \<longleftrightarrow> udp \<noteq> None \<and> hw AND SUPPORTS_UDP_CHECKSUM_OFFLOAD = 0 \<and> length (mb_bytes m) < 34 + l4_span m"
    using udp c(3) m1 by (auto simp: set_udp_cksum_def)
  show "set_udp_cksum env hw 14 udp m = Some m' \<Longrightarrow> touches {40, 41} m m'"
    using udp c(4) m1 by (auto simp: set_udp_cksum_def touches_refl)
qed

lemma offload_flags:
  "onvm_pkt_get_checksum_offload_flags env p AND SUPPORTS_IPV4_CHECKSUM_OFFLOAD = 0 \<longleftrightarrow> \<not> he_ipv4_offload env p"
  "onvm_pkt_get_checksum_offload_flags env p AND SUPPORTS_TCP_CHECKSUM_OFFLOAD = 0 \<longleftrightarrow> \<not> he_tcp_offload env p"
  "onvm_pkt_get_checksum_offload_flags env p AND SUPPORTS_UDP_CHECKSUM_OFFLOAD = 0 \<longleftrightarrow> \<not> he_udp_offload env p"
  by (auto simp: onvm_pkt_get_checksum_offload_flags_def Let_def)

lemma ihl_word: "unat (ucast (w AND 15) * 4 :: 9 word) = 4 * unat (w AND 15)" for w :: u8
proof -
  have "w AND 15 \<le> 15" by (simp add: word_and_le1)
  then have le: "unat (w AND 15) \<le> 15" by (simp add: word_le_nat_alt)
  have "unat (ucast (w AND 15) :: 9 word) = unat (w AND 15)" by (rule unat_ucast_up) simp
  then show ?thesis using le by (simp add: unat_word_ariths)
qed

text \<open>An IPv4 packet whose buffer holds the largest IP header; the offsets of its headers.\<close>

definition plain_ipv4 :: "mbuf \<Rightarrow> bool" where
  "plain_ipv4 m \<longleftrightarrow> onvm_pkt_is_ipv4 m = Some True \<and> 74 \<le> length (mb_bytes m) \<and> 5 \<le> unat (mb_bytes m ! 14 AND 15)"

lemma plain_ipv4_headers:
  assumes "plain_ipv4 m"
  shows "onvm_pkt_ipv4_hdr m = Some (Some 14)"
    and "onvm_pkt_tcp_hdr m = Some (if mb_bytes m ! 23 = IP_PROTOCOL_TCP then Some 34 else None)"
    and "onvm_pkt_udp_hdr m = Some (if mb_bytes m ! 23 = IP_PROTOCOL_UDP then Some 34 else None)"
proof -
  show ip: "onvm_pkt_ipv4_hdr m = Some (Some 14)"
    using assms by (auto simp: plain_ipv4_def onvm_pkt_is_ipv4_def onvm_pkt_ipv4_hdr_def Let_def bind_eq_Some_conv split: if_splits)
  show "onvm_pkt_tcp_hdr m = Some (if mb_bytes m ! 23 = IP_PROTOCOL_TCP then Some 34 else None)"
    "onvm_pkt_udp_hdr m = Some (if mb_bytes m ! 23 = IP_PROTOCOL_UDP then Some 34 else None)"
    using ip assms by (simp_all add: onvm_pkt_tcp_hdr_def onvm_pkt_udp_hdr_def l4_hdr_def byte_at_def plain_ipv4_def)
qed

text \<open>The last step: over a header whose checksum field is zero, the software checksum makes its sum vanish.\<close>

lemma set_ip_cksum_valid:
  assumes raw: "raw_cksum_ok env" and len: "14 + n \<le> length (mb_bytes m)" and n: "12 \<le> n" "unat (mb_l3_len m) = n"
    and zero: "mb_bytes m ! 24 = 0" "mb_bytes m ! 25 = 0" and hw: "hw AND SUPPORTS_IPV4_CHECKSUM_OFFLOAD = 0"
  shows "\<exists>m'. set_ip_cksum env hw 14 m = Some m' \<and> touches {24, 25} m m'
    \<and> ones_sum (take n (drop 14 (mb_bytes m'))) mod 65535 = 0"
proof -
  let ?hdr = "take n (drop 14 (mb_bytes m))"
  let ?c = "he_raw_cksum env ?hdr"
  let ?v = "if ?c = 0xffff then ?c else NOT ?c"
  let ?bs = "(mb_bytes m)[24 := ucast ?v, 25 := ucast (drop_bit 8 ?v)]"
  have s: "set_ip_cksum env hw 14 m = Some (m\<lparr>mb_bytes := ?bs\<rparr>)"
    using len n hw by (simp add: set_ip_cksum_def calculate_ip_cksum_def block_at_def on_bytes_def put_half_def Let_def)
  have "take n (drop 14 ?bs) = ?hdr[10 := ucast ?v, 10 + 1 := ucast (drop_bit 8 ?v)]"
    using n len by (simp add: drop_update_swap take_update_swap)
  then have "ones_sum (take n (drop 14 ?bs)) = ones_sum ?hdr + unat ?v"
    using n len zero ones_sum_put [of 10 ?hdr ?v] by simp
  then have "ones_sum (take n (drop 14 ?bs)) mod 65535 = 0"
    using ip_cksum_completes [of ?c "ones_sum ?hdr"] raw by (simp add: raw_cksum_ok_def)
  then show ?thesis using s by (simp add: touches_def)
qed

text \<open>The packet before the transport checksums are set, and the three steps from there.\<close>

definition cksum_start :: "helper_env \<Rightarrow> mbuf \<Rightarrow> mbuf" where
  "cksum_start env m = m\<lparr>mb_bytes := (mb_bytes m)[24 := 0, 25 := 0], mb_l2_len := 14,
     mb_l3_len := ucast (mb_bytes m ! 14 AND 15) * 4, mb_ol_flags := mb_ol_flags m OR he_PKT_TX_IPV4 env\<rparr>"

abbreviation l4_at :: "u8 \<Rightarrow> mbuf \<Rightarrow> nat option" where
  "l4_at p m \<equiv> if mb_bytes m ! 23 = p then Some 34 else None"

lemma set_checksums_steps:
  fixes env :: helper_env
  assumes "plain_ipv4 m"
  defines "hw \<equiv> onvm_pkt_get_checksum_offload_flags env (ucast (mb_port m))"
  shows "onvm_pkt_set_checksums env m = Option.bind (set_tcp_cksum env hw 14 (l4_at IP_PROTOCOL_TCP m) (cksum_start env m))
      (\<lambda>m3. Option.bind (set_udp_cksum env hw 14 (l4_at IP_PROTOCOL_UDP m) m3) (set_ip_cksum env hw 14))"
  using assms(1) plain_ipv4_headers [OF assms(1)]
  by (simp add: plain_ipv4_def onvm_pkt_set_checksums_def on_bytes_def put_half_def byte_at_def Let_def hw_def cksum_start_def)

lemma ihl_bound: "unat (w AND 15) \<le> 15" for w :: u8
proof -
  have "w AND 15 \<le> 15" by (simp add: word_and_le1)
  then show ?thesis by (simp add: word_le_nat_alt)
qed

lemma cksum_start_span:
  "l4_span (cksum_start env m) = unat ((ucast (le16 (mb_bytes m ! 16) (mb_bytes m ! 17)) :: u32)
     - of_nat (4 * unat (mb_bytes m ! 14 AND 15)))"
proof -
  have "ucast (mb_l3_len (cksum_start env m)) = (of_nat (4 * unat (mb_bytes m ! 14 AND 15)) :: u32)"
    using ihl_bound [of "mb_bytes m ! 14"]
    by (simp add: cksum_start_def word_unat_eq_iff unat_ucast_up unat_of_nat_exact ihl_word del: of_nat_mult)
  then show ?thesis by (simp add: l4_span_def cksum_start_def del: of_nat_mult)
qed

definition cksum_done :: "mbuf \<Rightarrow> mbuf \<Rightarrow> bool" where
  "cksum_done m m' \<longleftrightarrow> ones_sum (take (4 * unat (mb_bytes m ! 14 AND 15)) (drop 14 (mb_bytes m'))) mod 65535 = 0
     \<and> length (mb_bytes m') = length (mb_bytes m) \<and> (\<forall>k. k \<notin> {24, 25, 40, 41, 50, 51} \<longrightarrow> mb_bytes m' ! k = mb_bytes m ! k)"

lemma set_ip_cksum_done:
  assumes "raw_cksum_ok env" "plain_ipv4 m" "hw AND SUPPORTS_IPV4_CHECKSUM_OFFLOAD = 0"
    and t: "touches ({50, 51} \<union> {40, 41}) (cksum_start env m) m4"
  shows "\<exists>m'. set_ip_cksum env hw 14 m4 = Some m' \<and> cksum_done m m'"
proof -
  let ?n = "4 * unat (mb_bytes m ! 14 AND 15)"
  have len: "74 \<le> length (mb_bytes m)" and ihl: "5 \<le> unat (mb_bytes m ! 14 AND 15)"
    using assms(2) by (simp_all add: plain_ipv4_def)
  have l3: "unat (mb_l3_len m4) = ?n" using t by (simp add: touches_def cksum_start_def ihl_word)
  have keep: "mb_bytes m4 ! k = mb_bytes (cksum_start env m) ! k" if "k \<notin> {50, 51} \<union> {40, 41}" for k
    using t that unfolding touches_def by blast
  have zero: "mb_bytes m4 ! 24 = 0" "mb_bytes m4 ! 25 = 0"
    using keep [of 24] keep [of 25] len by (simp_all add: cksum_start_def)
  have len4: "length (mb_bytes m4) = length (mb_bytes m)" using t by (simp add: touches_def cksum_start_def)
  have room: "14 + ?n \<le> length (mb_bytes m4)" using len4 len ihl_bound [of "mb_bytes m ! 14"] by linarith
  have "12 \<le> ?n" using ihl by simp
  from set_ip_cksum_valid [OF assms(1) room this l3 zero assms(3)] obtain m' where
    m': "set_ip_cksum env hw 14 m4 = Some m'" "touches {24, 25} m4 m'" "ones_sum (take ?n (drop 14 (mb_bytes m'))) mod 65535 = 0"
    by (elim exE conjE) (rule that)
  have "mb_bytes m' ! k = mb_bytes m ! k" if "k \<notin> {24, 25, 40, 41, 50, 51}" for k
  proof -
    have "mb_bytes m' ! k = mb_bytes m4 ! k" using m'(2) that unfolding touches_def by blast
    also have "\<dots> = mb_bytes (cksum_start env m) ! k" using keep that by blast
    also have "\<dots> = mb_bytes m ! k" using that by (simp add: cksum_start_def)
    finally show ?thesis .
  qed
  then have "cksum_done m m'" using m'(2,3) len4 by (simp add: touches_def cksum_done_def)
  then show ?thesis using m'(1) by blast
qed

section \<open>Properties\<close>


definition demo_helper_env :: helper_env where
  "demo_helper_env = \<lparr>he_raw_cksum = (\<lambda>bs. of_nat (ones_sum bs mod 65535)), he_phdr_cksum = (\<lambda>_ _. 0),
     he_ipv4_offload = (\<lambda>_. False), he_tcp_offload = (\<lambda>_. True), he_udp_offload = (\<lambda>_. False),
     he_PKT_TX_IPV4 = 1, he_PKT_TX_IP_CKSUM = 2, he_PKT_TX_TCP_CKSUM = 4, he_PKT_TX_UDP_CKSUM = 8, he_alloc = None,
     he_prepend = (\<lambda>_ _. None)\<rparr>"

definition demo_pkt :: mbuf where
  "demo_pkt = \<lparr>mb_bytes = replicate 14 7 @ [0x45, 0, 0, 40, 1, 2, 64, 0, 64, 6, 9, 9, 10, 0, 0, 1, 10, 0, 0, 2] @ [4, 210, 0, 80] @ replicate 60 3,
     mb_data_len = 54, mb_pkt_len = 54, mb_port = 0, mb_rss = 5, mb_ol_flags = 0, mb_l2_len = 0, mb_l3_len = 0, mb_l4_len = 0,
     mb_meta = \<lparr>action = 0, destination = 0, src = 0, chain_index = 0, meta_flags = 0\<rparr>\<rparr>"


section \<open>Printing and parsing addresses\<close>

lemma digit_char:
  fixes d :: nat
  assumes "d < 10"
  shows "digit_value (char_of (48 + d)) = Some d" "is_digit 10 (char_of (48 + d))" "\<not> c_isspace (char_of (48 + d))"
    "char_code (char_of (48 + d)) \<noteq> 45" "char_code (char_of (48 + d)) \<noteq> 43"
proof -
  have c: "char_code (char_of (48 + d)) = 48 + d"
    using assms by (simp add: char_code_def of_char_of take_bit_nat_eq_self)
  then show v: "digit_value (char_of (48 + d)) = Some d" using assms by (simp add: digit_value_def)
  then show "is_digit 10 (char_of (48 + d))" using assms by (simp add: is_digit_def)
  show "\<not> c_isspace (char_of (48 + d))" "char_code (char_of (48 + d)) \<noteq> 45" "char_code (char_of (48 + d)) \<noteq> 43"
    using c by (simp_all add: c_isspace_def)
qed

lemma show_nat_chars: "c \<in> set (show_nat n) \<Longrightarrow> \<exists>d < 10 :: nat. c = char_of (48 + d)"
proof (induction n rule: show_nat.induct)
  case (1 n)
  show ?case
  proof (cases "n < 10 \<or> c \<notin> set (show_nat (n div 10))")
    case True
    then have "c = char_of (48 + n mod 10)" using "1.prems" by (auto simp: show_nat.simps [of n] split: if_splits)
    then show ?thesis by (intro exI [where x = "n mod 10"]) simp
  next
    case False
    then show ?thesis using "1.IH" by blast
  qed
qed

lemma digits_value_show_nat: "digits_value 10 (show_nat n) = n"
proof (induction n rule: show_nat.induct)
  case (1 n)
  show ?case
    using 1 digit_char(1) [of "n mod 10"] digit_char(1) [of n]
    by (cases "n < 10") (simp_all add: show_nat.simps [of n] digits_value_def)
qed

lemma show_nat_not_nil: "show_nat n \<noteq> []"
  by (subst show_nat.simps) simp

text \<open>Scanning a printed number followed by something that is not a digit.\<close>

lemma scan_show_nat:
  assumes "rest = [] \<or> \<not> is_digit 10 (hd rest)"
  shows "scan_number 10 (show_nat n @ rest) = Some (False, n, rest)"
proof -
  let ?s = "show_nat n"
  have all: "\<forall>c \<in> set ?s. is_digit 10 c" using show_nat_chars digit_char(2) by blast
  obtain c r where cr: "?s = c # r" using show_nat_not_nil by (cases ?s) auto
  then obtain d :: nat where "d < 10" "c = char_of (48 + d)" using show_nat_chars [of c n] by auto
  then have c: "\<not> c_isspace c" "char_code c \<noteq> 45" "char_code c \<noteq> 43" using digit_char by blast+
  have tw: "takeWhile (is_digit 10) (?s @ rest) = ?s" "dropWhile (is_digit 10) (?s @ rest) = rest"
    using all assms by (cases rest; simp)+
  have hex: "skip_hex_prefix 10 t = t" for t by (simp add: skip_hex_prefix_def split: list.splits)
  have "scan_number 10 (?s @ rest) =
      (let ds = takeWhile (is_digit 10) (?s @ rest) in
       if ds = [] then None else Some (False, digits_value 10 ds, dropWhile (is_digit 10) (?s @ rest)))"
    using c cr by (simp add: scan_number_def hex Let_def)
  then show ?thesis using tw show_nat_not_nil [of n] by (simp add: digits_value_show_nat)
qed

lemma strtoul_show_nat:
  assumes "rest = [] \<or> \<not> is_digit 10 (hd rest)" "n < 256"
  shows "ucast (fst (strtoul_c 10 (show_nat n @ rest))) = (of_nat n :: u32)"
  using assms(2) by (simp add: strtoul_c_def scan_show_nat [OF assms(1)] ULONG_MAX_def word_unat_eq_iff
      unat_ucast_small unat_of_nat_exact)

lemma byte_of_word: "unat (x AND 0xff) < 256" "of_nat (unat (x AND 0xff)) = x AND 0xff" for x :: u32
proof -
  have "x AND 0xff \<le> 0xff" by (simp add: word_and_le1)
  then show "unat (x AND 0xff) < 256" by (simp add: word_le_nat_alt)
qed simp

lemma rte_ipv4_bytes:
  "rte_ipv4 (drop_bit 24 x AND 0xff) (drop_bit 16 x AND 0xff) (drop_bit 8 x AND 0xff) (x AND 0xff) = x"
proof -
  have m: "(0xff :: u32) = mask 8" by (simp add: mask_eq_exp_minus_1)
  show ?thesis unfolding rte_ipv4_def m
  proof (rule bit_word_eqI)
    fix n
    assume "n < LENGTH(32)"
    then consider "n < 8" | "8 \<le> n \<and> n < 16" | "16 \<le> n \<and> n < 24" | "24 \<le> n \<and> n < 32" by fastforce
    then show "bit (push_bit 24 ((drop_bit 24 x AND mask 8) AND mask 8) OR push_bit 16 ((drop_bit 16 x AND mask 8) AND mask 8) OR
        push_bit 8 ((drop_bit 8 x AND mask 8) AND mask 8) OR ((x AND mask 8) AND mask 8)) n = bit x n"
      by cases (auto simp: bit_simps)
  qed
qed

lemma scan_fields_step:
  assumes "n < 256" "\<not> is_digit 10 sep"
  shows "scan_fields 10 sep (Suc k) (show_nat n @ sep # s) = of_nat n # scan_fields 10 sep k s"
    "scan_fields 10 sep (Suc k) (show_nat n) = [of_nat n]"
  using scan_show_nat [of "sep # s" n] scan_show_nat [of "[]" n] strtoul_show_nat [of "sep # s" n] strtoul_show_nat [of "[]" n] assms
  by simp_all

text \<open>
  Every IPv4 address survives a round trip: what \<^verbatim>\<open>onvm_pkt_parse_char_ip\<close> prints,
  \<^verbatim>\<open>onvm_pkt_parse_ip\<close> reads back as the same address, and the text never exceeds its buffer of 16.
\<close>

lemma parse_ip_roundtrip:
  "onvm_pkt_parse_ip (Some (onvm_pkt_parse_char_ip x)) = (0, Some x) \<and> length (onvm_pkt_parse_char_ip x) \<le> 15"
proof -
  let ?a = "unat (drop_bit 24 x AND 0xff)" and ?b = "unat (drop_bit 16 x AND 0xff)"
  let ?c = "unat (drop_bit 8 x AND 0xff)" and ?d = "unat (x AND 0xff)"
  let ?t = "show_nat ?a @ ''.'' @ show_nat ?b @ ''.'' @ show_nat ?c @ ''.'' @ show_nat ?d"
  have len3: "length (show_nat (unat (y AND 0xff))) \<le> 3" for y :: u32
    using byte_of_word(1) [of y] by (intro length_show_nat) simp
  have "length ?t \<le> 15"
    using len3 [of "drop_bit 24 x"] len3 [of "drop_bit 16 x"] len3 [of "drop_bit 8 x"] len3 [of x] by simp
  then have t: "onvm_pkt_parse_char_ip x = ?t" by (simp add: onvm_pkt_parse_char_ip_def)
  have dot: "\<not> is_digit 10 CHR ''.''" by code_simp
  have "scan_fields 10 CHR ''.'' (Suc (Suc (Suc (Suc 0)))) ?t = [of_nat ?a, of_nat ?b, of_nat ?c, of_nat ?d]"
    using byte_of_word(1) dot by (simp add: scan_fields_step del: scan_fields.simps)
  moreover have "Suc (Suc (Suc (Suc 0))) = 4" by simp
  ultimately have "onvm_pkt_parse_ip (Some ?t) = (0, Some (rte_ipv4 (of_nat ?a) (of_nat ?b) (of_nat ?c) (of_nat ?d)))"
    by (simp add: onvm_pkt_parse_ip_def del: scan_fields.simps)
  then have "onvm_pkt_parse_ip (Some ?t) = (0, Some x)" by (simp add: byte_of_word(2) rte_ipv4_bytes)
  then show ?thesis using t \<open>length ?t \<le> 15\<close> by simp
qed

end
