(* ===== verification/FlowTable.thy ===== *)
theory FlowTable
  imports PktHelper
begin

text \<open>
  Flow tables (\<^verbatim>\<open>onvm_flow_table.h\<close>, \<^verbatim>\<open>onvm_flow_table.c\<close>): the 5-tuple key of a packet, its symmetric
  form, hashing, and the table itself, a DPDK hash from keys to indices beside an array of user data. DPDK's hash is
  a parameter (\<open>hash_api\<close>); the locale \<open>rte_hash\<close> states its documented behaviour and
  \<open>flow_map\<close>, over it, that the table is a finite map from keys to data. \<open>list_hash\<close> is a
  concrete hash that satisfies the laws.
\<close>

section \<open>Keys\<close>

record onvm_ft_ipv4_5tuple =
  src_addr :: u32
  dst_addr :: u32
  src_port :: u16
  dst_port :: u16
  proto :: u8

definition ports_at :: "mbuf \<Rightarrow> nat option \<Rightarrow> (u16 \<times> u16) option" where
  "ports_at m h =
     (case h of
        None \<Rightarrow> None
      | Some l4 \<Rightarrow> do { s \<leftarrow> half_at (mb_bytes m) l4; d \<leftarrow> half_at (mb_bytes m) (l4 + 2); Some (s, d) })"

text \<open>\<open>Inl\<close> is the error code; \<open>None\<close> an access outside the packet or through a null header.\<close>

definition onvm_ft_fill_key :: "mbuf \<Rightarrow> (int + onvm_ft_ipv4_5tuple) option" where
  "onvm_ft_fill_key m = do {
     v4 \<leftarrow> onvm_pkt_is_ipv4 m;
     if \<not> v4 then Some (Inl (- EPROTONOSUPPORT))
     else do {
       p \<leftarrow> byte_at (mb_bytes m) (ETHER_HDR_LEN + 9);
       s \<leftarrow> word_at (mb_bytes m) (ETHER_HDR_LEN + 12);
       d \<leftarrow> word_at (mb_bytes m) (ETHER_HDR_LEN + 16);
       (sp, dp) \<leftarrow>
         (if p = IP_PROTOCOL_TCP then do { tcp \<leftarrow> onvm_pkt_tcp_hdr m; ports_at m tcp }
          else if p = IP_PROTOCOL_UDP then do { udp \<leftarrow> onvm_pkt_udp_hdr m; ports_at m udp }
          else Some (0, 0));
       Some (Inr \<lparr>src_addr = s, dst_addr = d, src_port = sp, dst_port = dp, proto = p\<rparr>) } }"

definition order_key :: "onvm_ft_ipv4_5tuple \<Rightarrow> onvm_ft_ipv4_5tuple" where
  "order_key k =
     (let k1 = (if dst_addr k > src_addr k then k\<lparr>dst_addr := src_addr k, src_addr := dst_addr k\<rparr> else k)
      in if dst_port k1 > src_port k1 then k1\<lparr>dst_port := src_port k1, src_port := dst_port k1\<rparr> else k1)"

definition onvm_ft_fill_key_symmetric :: "mbuf \<Rightarrow> (int + onvm_ft_ipv4_5tuple) option" where
  "onvm_ft_fill_key_symmetric m = do {
     r \<leftarrow> onvm_ft_fill_key m;
     case r of Inl e \<Rightarrow> Some (Inl (- EPROTONOSUPPORT)) | Inr k \<Rightarrow> Some (Inr (order_key k)) }"

section \<open>Hash values\<close>

definition bswap16 :: "u16 \<Rightarrow> u16" where
  "bswap16 x = push_bit 8 x OR drop_bit 8 x"

definition bswap32 :: "u32 \<Rightarrow> u32" where
  "bswap32 x = push_bit 24 x OR push_bit 8 (x AND 0xff00) OR drop_bit 8 (x AND 0xff0000) OR drop_bit 24 x"

text \<open>
  \<open>softrss\<close> stands for \<^verbatim>\<open>rte_softrss_be\<close> under the table's symmetric key, on addresses and ports in
  host order; \<open>step\<close> is one step of the CRC (or Jenkins) hash DPDK provides.
\<close>

definition onvm_softrss :: "(u32 \<Rightarrow> u32 \<Rightarrow> u16 \<Rightarrow> u16 \<Rightarrow> u32) \<Rightarrow> onvm_ft_ipv4_5tuple \<Rightarrow> u32" where
  "onvm_softrss softrss k =
     softrss (bswap32 (src_addr k)) (bswap32 (dst_addr k)) (bswap16 (src_port k)) (bswap16 (dst_port k))"

text \<open>The data is read as the 16 bytes of \<^verbatim>\<open>union ipv4_5tuple_host\<close>.\<close>

definition onvm_ft_ipv4_hash_crc :: "(u32 \<Rightarrow> u32 \<Rightarrow> u32) \<Rightarrow> u8 list \<Rightarrow> u32 \<Rightarrow> u32 option" where
  "onvm_ft_ipv4_hash_crc step data init_val = do {
     k \<leftarrow> block_at data 0 16;
     t \<leftarrow> byte_at k 1;
     ip_src \<leftarrow> word_at k 4;
     ip_dst \<leftarrow> word_at k 8;
     p \<leftarrow> word_at k 12;
     let v1 = step (ucast t) init_val;
     let v2 = step ip_src v1;
     let v3 = step ip_dst v2;
     Some (step p v3) }"

section \<open>The table\<close>

record ('h, 'k) hash_api =
  hash_add_key :: "'h \<Rightarrow> 'k \<Rightarrow> u32 \<Rightarrow> int \<times> 'h"
  hash_lookup :: "'h \<Rightarrow> 'k \<Rightarrow> u32 \<Rightarrow> int"
  hash_del_key :: "'h \<Rightarrow> 'k \<Rightarrow> u32 \<Rightarrow> int \<times> 'h"
  hash_iterate :: "'h \<Rightarrow> u32 \<Rightarrow> int \<times> 'k option \<times> u32"

text \<open>The data array holds \<open>cnt\<close> entries; a pointer into it is the index of its entry.\<close>

record ('h, 'd) onvm_ft =
  ft_hash :: 'h
  ft_data :: "'d list"
  ft_cnt :: nat
  ft_entry_size :: nat

definition onvm_ft_get_data :: "('h, 'd) onvm_ft \<Rightarrow> int \<Rightarrow> nat option" where
  "onvm_ft_get_data table index = (if 0 \<le> index \<and> nat index < length (ft_data table) then Some (nat index) else None)"

text \<open>A result code with the pointer that is set when the code is not negative.\<close>

type_synonym ft_result = "int \<times> nat option"

definition index_result :: "('h, 'd) onvm_ft \<Rightarrow> int \<Rightarrow> ft_result" where
  "index_result table i = (i, if i \<ge> 0 then onvm_ft_get_data table i else None)"

definition onvm_ft_add_pkt ::
  "('h, onvm_ft_ipv4_5tuple) hash_api \<Rightarrow> ('h, 'd) onvm_ft \<Rightarrow> mbuf \<Rightarrow> (ft_result \<times> ('h, 'd) onvm_ft) option" where
  "onvm_ft_add_pkt api table pkt = do {
     r \<leftarrow> onvm_ft_fill_key pkt;
     case r of
       Inl err \<Rightarrow> Some ((err, None), table)
     | Inr key \<Rightarrow>
         let (tbl_index, h) = hash_add_key api (ft_hash table) key (mb_rss pkt)
         in Some (index_result table tbl_index, table\<lparr>ft_hash := h\<rparr>) }"

definition onvm_ft_lookup_pkt ::
  "('h, onvm_ft_ipv4_5tuple) hash_api \<Rightarrow> ('h, 'd) onvm_ft \<Rightarrow> mbuf \<Rightarrow> ft_result option" where
  "onvm_ft_lookup_pkt api table pkt = do {
     r \<leftarrow> onvm_ft_fill_key pkt;
     case r of
       Inl err \<Rightarrow> Some (err, None)
     | Inr key \<Rightarrow> Some (index_result table (hash_lookup api (ft_hash table) key (mb_rss pkt))) }"

definition onvm_ft_remove_pkt ::
  "('h, onvm_ft_ipv4_5tuple) hash_api \<Rightarrow> ('h, 'd) onvm_ft \<Rightarrow> mbuf \<Rightarrow> (int \<times> ('h, 'd) onvm_ft) option" where
  "onvm_ft_remove_pkt api table pkt = do {
     r \<leftarrow> onvm_ft_fill_key pkt;
     case r of
       Inl err \<Rightarrow> Some (err, table)
     | Inr key \<Rightarrow>
         let (ret, h) = hash_del_key api (ft_hash table) key (mb_rss pkt) in Some (ret, table\<lparr>ft_hash := h\<rparr>) }"

definition onvm_ft_add_key ::
  "('h, onvm_ft_ipv4_5tuple) hash_api \<Rightarrow> (u32 \<Rightarrow> u32 \<Rightarrow> u16 \<Rightarrow> u16 \<Rightarrow> u32) \<Rightarrow> ('h, 'd) onvm_ft \<Rightarrow> onvm_ft_ipv4_5tuple
    \<Rightarrow> ft_result \<times> ('h, 'd) onvm_ft" where
  "onvm_ft_add_key api softrss table key =
     (let (tbl_index, h) = hash_add_key api (ft_hash table) key (onvm_softrss softrss key)
      in (index_result table tbl_index, table\<lparr>ft_hash := h\<rparr>))"

definition onvm_ft_lookup_key ::
  "('h, onvm_ft_ipv4_5tuple) hash_api \<Rightarrow> (u32 \<Rightarrow> u32 \<Rightarrow> u16 \<Rightarrow> u16 \<Rightarrow> u32) \<Rightarrow> ('h, 'd) onvm_ft \<Rightarrow> onvm_ft_ipv4_5tuple \<Rightarrow> ft_result" where
  "onvm_ft_lookup_key api softrss table key =
     index_result table (hash_lookup api (ft_hash table) key (onvm_softrss softrss key))"

definition onvm_ft_remove_key ::
  "('h, onvm_ft_ipv4_5tuple) hash_api \<Rightarrow> (u32 \<Rightarrow> u32 \<Rightarrow> u16 \<Rightarrow> u16 \<Rightarrow> u32) \<Rightarrow> ('h, 'd) onvm_ft \<Rightarrow> onvm_ft_ipv4_5tuple
    \<Rightarrow> int \<times> ('h, 'd) onvm_ft" where
  "onvm_ft_remove_key api softrss table key =
     (let (ret, h) = hash_del_key api (ft_hash table) key (onvm_softrss softrss key) in (ret, table\<lparr>ft_hash := h\<rparr>))"

definition onvm_ft_iterate ::
  "('h, onvm_ft_ipv4_5tuple) hash_api \<Rightarrow> ('h, 'd) onvm_ft \<Rightarrow> u32 \<Rightarrow> ft_result \<times> onvm_ft_ipv4_5tuple option \<times> u32" where
  "onvm_ft_iterate api table next =
     (let (tbl_index, key, next') = hash_iterate api (ft_hash table) next in (index_result table tbl_index, key, next'))"

text \<open>
  Creation and release, with the allocations that are live afterwards. The arguments are what the allocators and
  \<^verbatim>\<open>rte_hash_create\<close> (or, in a secondary process, the manager and \<^verbatim>\<open>rte_hash_find_existing\<close>) answer;
  a name that could not be allocated is written to all the same (\<open>None\<close>).
\<close>

datatype ft_res = FR_Params | FR_Name | FR_Hash | FR_Table | FR_Data

record ('h, 'd) ft_alloc =
  fa_params :: bool
  fa_name :: bool
  fa_primary :: bool
  fa_request_status :: int
  fa_hash :: "'h option"
  fa_table :: bool
  fa_data :: bool
  fa_zero :: 'd

definition onvm_ft_create :: "('h, 'd) ft_alloc \<Rightarrow> nat \<Rightarrow> nat \<Rightarrow> (('h, 'd) onvm_ft option \<times> ft_res list) option" where
  "onvm_ft_create fa cnt entry_size =
     (if \<not> fa_params fa then Some (None, [])
      else if \<not> fa_name fa then None
      else if \<not> fa_primary fa \<and> fa_request_status fa < 0 then Some (None, [FR_Name, FR_Params])
      else
        case fa_hash fa of
          None \<Rightarrow> Some (None, [FR_Params])
        | Some h \<Rightarrow>
            if \<not> fa_table fa then Some (None, [FR_Params])
            else if \<not> fa_data fa then Some (None, [FR_Params])
            else Some (Some \<lparr>ft_hash = h, ft_data = replicate cnt (fa_zero fa), ft_cnt = cnt, ft_entry_size = entry_size\<rparr>,
                       [FR_Data, FR_Table, FR_Hash, FR_Params]))"

definition onvm_ft_free :: "ft_res list \<Rightarrow> ft_res list" where
  "onvm_ft_free live = removeAll FR_Table (removeAll FR_Data (removeAll FR_Hash live))"

section \<open>The hash interface\<close>

text \<open>The table as a map from keys to data, given the index of each key; a table of \<open>cap\<close> entries.\<close>

definition ft_map :: "('h \<Rightarrow> 'k \<Rightarrow> nat option) \<Rightarrow> ('h, 'd) onvm_ft \<Rightarrow> 'k \<Rightarrow> 'd option" where
  "ft_map slots t k = map_option (\<lambda>i. ft_data t ! i) (slots (ft_hash t) k)"

definition ft_ok :: "('h \<Rightarrow> bool) \<Rightarrow> nat \<Rightarrow> ('h, 'd) onvm_ft \<Rightarrow> bool" where
  "ft_ok hinv cap t \<longleftrightarrow> hinv (ft_hash t) \<and> length (ft_data t) = cap"

text \<open>
  A hash of \<open>cap\<close> entries: \<open>slots h\<close> gives each key that was added its index, and \<open>sig\<close> is the
  hash value the callers pass with a key, a function of the key.
\<close>

locale rte_hash =
  fixes api :: "('h, 'k) hash_api"
    and slots :: "'h \<Rightarrow> 'k \<Rightarrow> nat option"
    and sig :: "'k \<Rightarrow> u32"
    and cap :: nat
    and hinv :: "'h \<Rightarrow> bool"
  assumes slots_bound: "hinv h \<Longrightarrow> slots h k = Some i \<Longrightarrow> i < cap"
    and slots_inj: "hinv h \<Longrightarrow> slots h k = Some i \<Longrightarrow> slots h k' = Some i \<Longrightarrow> k = k'"
    and lookup_slot: "hinv h \<Longrightarrow> hash_lookup api h k (sig k) = (case slots h k of None \<Rightarrow> - ENOENT | Some i \<Rightarrow> int i)"
    and add_present: "hinv h \<Longrightarrow> slots h k = Some i \<Longrightarrow> hash_add_key api h k (sig k) = (r, h') \<Longrightarrow>
          r = int i \<and> hinv h' \<and> slots h' = slots h"
    and add_absent: "hinv h \<Longrightarrow> slots h k = None \<Longrightarrow> hash_add_key api h k (sig k) = (r, h') \<Longrightarrow>
          hinv h' \<and> (r = - ENOSPC \<and> slots h' = slots h \<or> (\<exists>i. r = int i \<and> slots h' = (slots h)(k \<mapsto> i)))"
    and del_slot: "hinv h \<Longrightarrow> hash_del_key api h k (sig k) = (r, h') \<Longrightarrow>
          hinv h' \<and> slots h' = (slots h)(k := None) \<and> r = (case slots h k of None \<Rightarrow> - ENOENT | Some i \<Rightarrow> int i)"
begin

lemma index_in_range:
  "ft_ok hinv cap t \<Longrightarrow> slots (ft_hash t) k = Some p \<Longrightarrow> index_result t (int p) = (int p, Some p)"
  using slots_bound by (auto simp: ft_ok_def index_result_def onvm_ft_get_data_def)

lemma lookup_map:
  assumes "ft_ok hinv cap t"
  shows "index_result t (hash_lookup api (ft_hash t) k (sig k)) =
    (case slots (ft_hash t) k of None \<Rightarrow> (- ENOENT, None) | Some p \<Rightarrow> (int p, Some p))"
proof (cases "slots (ft_hash t) k")
  case None
  then show ?thesis using assms by (simp add: lookup_slot ft_ok_def index_result_def)
next
  case (Some p)
  then show ?thesis using assms index_in_range [OF assms Some] by (simp add: lookup_slot ft_ok_def)
qed

text \<open>Adding a key gives a place of its own: what is written there is what the key maps to.\<close>

lemma add_map:
  assumes ok: "ft_ok hinv cap t" and add: "hash_add_key api (ft_hash t) k (sig k) = (r, h')"
  defines "t' \<equiv> t\<lparr>ft_hash := h'\<rparr>"
  shows "r = - ENOSPC \<and> ft_map slots t k = None \<and> ft_map slots t' = ft_map slots t \<and> ft_ok hinv cap t'
    \<or> (\<exists>p. index_result t r = (int p, Some p) \<and> (\<forall>v. ft_map slots (t'\<lparr>ft_data := (ft_data t)[p := v]\<rparr>) = (ft_map slots t)(k \<mapsto> v)
         \<and> ft_ok hinv cap (t'\<lparr>ft_data := (ft_data t)[p := v]\<rparr>)))"
proof -
  have h: "hinv (ft_hash t)" "length (ft_data t) = cap" using ok by (simp_all add: ft_ok_def)
  have written: "ft_map slots (t'\<lparr>ft_data := (ft_data t)[p := v]\<rparr>) = (ft_map slots t)(k \<mapsto> v)
      \<and> ft_ok hinv cap (t'\<lparr>ft_data := (ft_data t)[p := v]\<rparr>) \<and> index_result t (int p) = (int p, Some p)"
    if s: "slots h' = (slots (ft_hash t))(k \<mapsto> p)" and hi: "hinv h'" for p v
  proof -
    have p: "p < cap" using slots_bound [OF hi, of k p] s by simp
    have other: "i \<noteq> p" if "slots (ft_hash t) k' = Some i" "k' \<noteq> k" for k' i
      using slots_inj [OF hi, of k' p k] s that by auto
    have "ft_map slots (t'\<lparr>ft_data := (ft_data t)[p := v]\<rparr>) k' = ((ft_map slots t)(k \<mapsto> v)) k'" for k'
      using s p h(2) other [of k'] by (cases "k' = k"; cases "slots (ft_hash t) k'") (auto simp: ft_map_def t'_def)
    then show ?thesis using hi h(2) p by (auto simp: ft_ok_def t'_def index_result_def onvm_ft_get_data_def)
  qed
  show ?thesis
  proof (cases "slots (ft_hash t) k")
    case None
    then have "hinv h'" "r = - ENOSPC \<and> slots h' = slots (ft_hash t) \<or> (\<exists>p. r = int p \<and> slots h' = (slots (ft_hash t))(k \<mapsto> p))"
      using add_absent [OF h(1) None add] by auto
    then show ?thesis using written None h(2) by (auto simp: ft_map_def t'_def ft_ok_def)
  next
    case (Some p)
    have a: "r = int p" "hinv h'" "slots h' = slots (ft_hash t)" using add_present [OF h(1) Some add] by simp_all
    then have "slots h' = (slots (ft_hash t))(k \<mapsto> p)" using Some by (simp add: fun_upd_idem)
    then show ?thesis using written a by blast
  qed
qed

lemma del_map:
  assumes "ft_ok hinv cap t" "hash_del_key api (ft_hash t) k (sig k) = (r, h')"
  shows "ft_map slots (t\<lparr>ft_hash := h'\<rparr>) = (ft_map slots t)(k := None)" "ft_ok hinv cap (t\<lparr>ft_hash := h'\<rparr>)"
    "r = (case slots (ft_hash t) k of None \<Rightarrow> - ENOENT | Some i \<Rightarrow> int i)"
  using del_slot [of "ft_hash t" k r h'] assms by (auto simp: ft_map_def ft_ok_def)

end

section \<open>A concrete hash\<close>

text \<open>A list of keys with their indices; a new key takes the first index that is not in use.\<close>

definition free_index :: "nat \<Rightarrow> nat list \<Rightarrow> nat option" where
  "free_index cap used = find (\<lambda>i. i \<notin> set used) [0..<cap]"

definition list_hash_api :: "nat \<Rightarrow> (('k \<times> nat) list, 'k) hash_api" where
  "list_hash_api cap = \<lparr>
     hash_add_key = (\<lambda>h k s. case map_of h k of
        Some i \<Rightarrow> (int i, h)
      | None \<Rightarrow> (case free_index cap (map snd h) of None \<Rightarrow> (- ENOSPC, h) | Some i \<Rightarrow> (int i, (k, i) # h))),
     hash_lookup = (\<lambda>h k s. case map_of h k of None \<Rightarrow> - ENOENT | Some i \<Rightarrow> int i),
     hash_del_key = (\<lambda>h k s. (case map_of h k of None \<Rightarrow> - ENOENT | Some i \<Rightarrow> int i, filter (\<lambda>e. fst e \<noteq> k) h)),
     hash_iterate = (\<lambda>h n. if unat n < length h then (int (snd (h ! unat n)), Some (fst (h ! unat n)), n + 1)
                           else (- ENOENT, None, n))\<rparr>"

definition list_hash_ok :: "nat \<Rightarrow> ('k \<times> nat) list \<Rightarrow> bool" where
  "list_hash_ok cap h \<longleftrightarrow> distinct (map fst h) \<and> distinct (map snd h) \<and> (\<forall>i \<in> set (map snd h). i < cap)"

lemma map_of_filter_ne: "map_of (filter (\<lambda>e. fst e \<noteq> k) h) = (map_of h)(k := None)"
  by (induction h) (auto simp: fun_eq_iff)

lemma list_hash_inj: "list_hash_ok cap h \<Longrightarrow> map_of h k = Some i \<Longrightarrow> map_of h k' = Some i \<Longrightarrow> k = k'"
  unfolding list_hash_ok_def distinct_map by (metis fst_conv inj_onD map_of_SomeD snd_conv)

lemma list_hash_filter: "list_hash_ok cap h \<Longrightarrow> list_hash_ok cap (filter P h)"
  by (auto simp: list_hash_ok_def distinct_map_filter)

interpretation list_hash: rte_hash "list_hash_api cap" map_of sig cap "list_hash_ok cap" for sig :: "'k \<Rightarrow> u32" and cap
proof (unfold_locales, goal_cases)
  case (1 h k i)
  then show ?case by (auto simp: list_hash_ok_def dest: map_of_SomeD)
next
  case (2 h k i k')
  then show ?case by (rule list_hash_inj)
next
  case (5 h k r h')
  show ?case
  proof (cases "free_index cap (map snd h)")
    case None
    then show ?thesis using 5 by (simp add: list_hash_api_def)
  next
    case (Some i)
    then have "i < cap" "i \<notin> set (map snd h)" by (auto simp: free_index_def find_Some_iff)
    moreover have "k \<notin> set (map fst h)" using 5(2) by (simp add: map_of_eq_None_iff)
    ultimately show ?thesis using 5 Some by (auto simp: list_hash_api_def list_hash_ok_def)
  qed
qed (auto simp: list_hash_api_def map_of_filter_ne list_hash_filter)

section \<open>Properties\<close>

text \<open>
  C12. A flow table refines a finite map: for a packet whose hash value is the one of its key, adding
  finds the key's place or a fresh one (or reports that the table is full, changing nothing), what is
  then written through the returned pointer is exactly the key's new data and no other key's,
  looking up returns the place of the key and \<open>-ENOENT\<close> for an absent one, and removing deletes just that key.
\<close>

theorem flow_table_refines_map:
  assumes "rte_hash api slots sig cap hinv" and "ft_ok hinv cap t"
    and "onvm_ft_fill_key pkt = Some (Inr k)" and "mb_rss pkt = sig k"
  shows "(\<exists>res t'. onvm_ft_add_pkt api t pkt = Some (res, t') \<and>
        (fst res = - ENOSPC \<and> ft_map slots t k = None \<and> ft_map slots t' = ft_map slots t \<and> ft_ok hinv cap t'
         \<or> (\<exists>p. res = (int p, Some p) \<and> (\<forall>v. ft_map slots (t'\<lparr>ft_data := (ft_data t')[p := v]\<rparr>) = (ft_map slots t)(k \<mapsto> v)
               \<and> ft_ok hinv cap (t'\<lparr>ft_data := (ft_data t')[p := v]\<rparr>)))))
    \<and> (\<exists>res. onvm_ft_lookup_pkt api t pkt = Some res \<and>
        (case ft_map slots t k of None \<Rightarrow> res = (- ENOENT, None) | Some v \<Rightarrow> \<exists>p. res = (int p, Some p) \<and> ft_data t ! p = v))
    \<and> (\<exists>r t'. onvm_ft_remove_pkt api t pkt = Some (r, t') \<and> ft_map slots t' = (ft_map slots t)(k := None) \<and> ft_ok hinv cap t'
        \<and> (r = - ENOENT \<longleftrightarrow> ft_map slots t k = None))"
proof -
  obtain ra ha where add: "hash_add_key api (ft_hash t) k (sig k) = (ra, ha)" by (metis surj_pair)
  obtain rd hd where del: "hash_del_key api (ft_hash t) k (sig k) = (rd, hd)" by (metis surj_pair)
  note a = rte_hash.add_map [OF assms(1,2) add] and l = rte_hash.lookup_map [OF assms(1,2), of k]
    and d = rte_hash.del_map [OF assms(1,2) del]
  have 1: "onvm_ft_add_pkt api t pkt = Some (index_result t ra, t\<lparr>ft_hash := ha\<rparr>)"
    using assms(3,4) add by (simp add: onvm_ft_add_pkt_def)
  have e: "fst (index_result t ra) = ra" by (simp add: index_result_def)
  have 2: "onvm_ft_lookup_pkt api t pkt = Some (case slots (ft_hash t) k of None \<Rightarrow> (- ENOENT, None) | Some p \<Rightarrow> (int p, Some p))"
    using assms(3,4) l by (simp add: onvm_ft_lookup_pkt_def)
  have 3: "onvm_ft_remove_pkt api t pkt = Some (rd, t\<lparr>ft_hash := hd\<rparr>)"
    using assms(3,4) del by (simp add: onvm_ft_remove_pkt_def)
  have 4: "rd = - ENOENT \<longleftrightarrow> ft_map slots t k = None" using d(3) by (auto simp: ft_map_def split: option.splits)
  have 5: "case ft_map slots t k of None \<Rightarrow> (case slots (ft_hash t) k of None \<Rightarrow> (- ENOENT, None) | Some p \<Rightarrow> (int p, Some p)) = (- ENOENT, None)
      | Some v \<Rightarrow> \<exists>p. (case slots (ft_hash t) k of None \<Rightarrow> (- ENOENT, None) | Some p \<Rightarrow> (int p, Some p)) = (int p, Some p) \<and> ft_data t ! p = v"
    by (auto simp: ft_map_def split: option.splits)
  show ?thesis
  proof (intro conjI)
    show "\<exists>res t'. onvm_ft_add_pkt api t pkt = Some (res, t') \<and>
        (fst res = - ENOSPC \<and> ft_map slots t k = None \<and> ft_map slots t' = ft_map slots t \<and> ft_ok hinv cap t'
         \<or> (\<exists>p. res = (int p, Some p) \<and> (\<forall>v. ft_map slots (t'\<lparr>ft_data := (ft_data t')[p := v]\<rparr>) = (ft_map slots t)(k \<mapsto> v)
               \<and> ft_ok hinv cap (t'\<lparr>ft_data := (ft_data t')[p := v]\<rparr>))))"
      unfolding 1 using a e by (intro exI [of _ "index_result t ra"] exI [of _ "t\<lparr>ft_hash := ha\<rparr>"] conjI refl) simp
    show "\<exists>res. onvm_ft_lookup_pkt api t pkt = Some res \<and>
        (case ft_map slots t k of None \<Rightarrow> res = (- ENOENT, None) | Some v \<Rightarrow> \<exists>p. res = (int p, Some p) \<and> ft_data t ! p = v)"
      unfolding 2 using 5 by (intro exI conjI) (rule refl)
    show "\<exists>r t'. onvm_ft_remove_pkt api t pkt = Some (r, t') \<and> ft_map slots t' = (ft_map slots t)(k := None) \<and> ft_ok hinv cap t'
        \<and> (r = - ENOENT \<longleftrightarrow> ft_map slots t k = None)"
      using 3 4 d(1,2) by (intro exI [of _ rd] exI [of _ "t\<lparr>ft_hash := hd\<rparr>"]) simp
  qed
qed

definition demo_key :: onvm_ft_ipv4_5tuple where
  "demo_key = \<lparr>src_addr = 0x0100000a, dst_addr = 0x0200000a, src_port = 0xd204, dst_port = 0x5000, proto = 6\<rparr>"

definition demo_ft :: "((onvm_ft_ipv4_5tuple \<times> nat) list, nat) onvm_ft" where
  "demo_ft = \<lparr>ft_hash = [], ft_data = replicate 4 0, ft_cnt = 4, ft_entry_size = 1\<rparr>"

lemma demo_fill_key: "onvm_ft_fill_key demo_pkt = Some (Inr demo_key)"
  by code_simp

theorem flow_table_refines_map_witness:
  "\<exists>res t'. onvm_ft_add_pkt (list_hash_api 4) demo_ft demo_pkt = Some (res, t')
     \<and> (\<exists>p. res = (int p, Some p) \<and> ft_map map_of (t'\<lparr>ft_data := (ft_data t')[p := 9]\<rparr>) demo_key = Some 9)"
proof -
  have hash: "rte_hash (list_hash_api 4) map_of (\<lambda>_. 5) 4 (list_hash_ok 4)" by (rule list_hash.rte_hash_axioms)
  have ok: "ft_ok (list_hash_ok 4) 4 demo_ft" by (simp add: ft_ok_def demo_ft_def list_hash_ok_def)
  have rss: "mb_rss demo_pkt = 5" by (simp add: demo_pkt_def)
  have room: "case onvm_ft_add_pkt (list_hash_api 4) demo_ft demo_pkt of Some (r, _) \<Rightarrow> fst r = 0 | None \<Rightarrow> False"
    by code_simp
  from flow_table_refines_map [OF hash ok demo_fill_key rss, THEN conjunct1] room show ?thesis
    by (auto simp: fun_upd_apply)
qed

section \<open>Reversed packets\<close>

definition reverse_key :: "onvm_ft_ipv4_5tuple \<Rightarrow> onvm_ft_ipv4_5tuple" where
  "reverse_key k = k\<lparr>src_addr := dst_addr k, dst_addr := src_addr k, src_port := dst_port k, dst_port := src_port k\<rparr>"

lemma order_key_reverse: "order_key (reverse_key k) = order_key k"
  by (auto simp: order_key_def reverse_key_def Let_def)

text \<open>Sorting addresses and ports independently also identifies a flow with one whose ports are exchanged.\<close>

lemma order_key_ports: "order_key (k\<lparr>src_port := dst_port k, dst_port := src_port k\<rparr>) = order_key k"
  by (auto simp: order_key_def Let_def)

lemma swap_adjacent:
  assumes "length X = n" "length Y = n" "i = length A"
  shows "swap_blocks (A @ X @ Y @ C) i (i + n) n = Some (A @ Y @ X @ C)"
  using assms by (simp add: swap_blocks_def block_at_def put_block_def)

text \<open>The bytes of a packet around its addresses and ports.\<close>

lemma split_addresses:
  assumes "38 \<le> length bs"
  obtains A x0 x1 x2 x3 y0 y1 y2 y3 p0 p1 q0 q1 C where "length A = 26"
    "bs = A @ [x0, x1, x2, x3] @ [y0, y1, y2, y3] @ [p0, p1] @ [q0, q1] @ C"
proof -
  have four: "\<exists>a b c d. take 4 ys = [a, b, c, d]" if "4 \<le> length ys" for ys :: "'a list"
    using that by (auto simp: numeral_eq_Suc Suc_le_length_iff)
  have two: "\<exists>a b. take 2 ys = [a, b]" if "2 \<le> length ys" for ys :: "'a list"
    using that by (auto simp: numeral_eq_Suc Suc_le_length_iff)
  have len: "4 \<le> length (drop 26 bs)" "4 \<le> length (drop 30 bs)" "2 \<le> length (drop 34 bs)" "2 \<le> length (drop 36 bs)"
    using assms by simp_all
  obtain x0 x1 x2 x3 where x: "take 4 (drop 26 bs) = [x0, x1, x2, x3]" using four [OF len(1)] by blast
  obtain y0 y1 y2 y3 where y: "take 4 (drop 30 bs) = [y0, y1, y2, y3]" using four [OF len(2)] by blast
  obtain p0 p1 where p: "take 2 (drop 34 bs) = [p0, p1]" using two [OF len(3)] by blast
  obtain q0 q1 where q: "take 2 (drop 36 bs) = [q0, q1]" using two [OF len(4)] by blast
  have step: "drop i bs = take n (drop i bs) @ drop (i + n) bs" for i n
    using append_take_drop_id [of n "drop i bs"] by (simp add: add.commute)
  have "bs = take 26 bs @ take 4 (drop 26 bs) @ take 4 (drop 30 bs) @ take 2 (drop 34 bs) @ take 2 (drop 36 bs) @ drop 38 bs"
    using step [of 26 4] step [of 30 4] step [of 34 2] step [of 36 2] append_take_drop_id [of 26 bs] by simp
  then show thesis using that [of "take 26 bs"] x y p q assms by simp
qed

lemma fill_key_split:
  assumes "length A = 26" "mb_bytes m = A @ [x0, x1, x2, x3] @ [y0, y1, y2, y3] @ [p0, p1] @ [q0, q1] @ C"
  shows "onvm_ft_fill_key m = Some (if drop_bit 4 (A ! 14) AND 15 \<noteq> 4 then Inl (- EPROTONOSUPPORT)
      else Inr \<lparr>src_addr = ucast (le16 x0 x1) + 65536 * ucast (le16 x2 x3), dst_addr = ucast (le16 y0 y1) + 65536 * ucast (le16 y2 y3),
        src_port = (if A ! 23 = IP_PROTOCOL_TCP \<or> A ! 23 = IP_PROTOCOL_UDP then le16 p0 p1 else 0),
        dst_port = (if A ! 23 = IP_PROTOCOL_TCP \<or> A ! 23 = IP_PROTOCOL_UDP then le16 q0 q1 else 0), proto = A ! 23\<rparr>)"
proof -
  have len: "26 < length (mb_bytes m)" "37 < length (mb_bytes m)" using assms by simp_all
  have b: "mb_bytes m ! 14 = A ! 14" "mb_bytes m ! 23 = A ! 23" "mb_bytes m ! 26 = x0" "mb_bytes m ! 27 = x1" "mb_bytes m ! 28 = x2"
    "mb_bytes m ! 29 = x3" "mb_bytes m ! 30 = y0" "mb_bytes m ! 31 = y1" "mb_bytes m ! 32 = y2" "mb_bytes m ! 33 = y3"
    "mb_bytes m ! 34 = p0" "mb_bytes m ! 35 = p1" "mb_bytes m ! 36 = q0" "mb_bytes m ! 37 = q1"
    using assms by (simp_all add: nth_append)
  show ?thesis
    using len b by (simp add: onvm_ft_fill_key_def onvm_pkt_is_ipv4_def onvm_pkt_ipv4_hdr_def onvm_pkt_tcp_hdr_def
        onvm_pkt_udp_hdr_def l4_hdr_def ports_at_def word_at_def half_at_def byte_at_def Let_def)
qed

text \<open>
  C23. Both directions of a connection: exchanging the IP addresses and the ports of a TCP or UDP
  packet with the swap helpers reverses its flow key, and its symmetric key is unchanged. The symmetric key also
  identifies the flow with the one that has only its ports exchanged.
\<close>

theorem reversed_packet_keys:
  assumes "onvm_ft_fill_key m = Some (Inr k)" and "proto k = IP_PROTOCOL_TCP \<or> proto k = IP_PROTOCOL_UDP"
  shows "\<exists>m1 m2. onvm_pkt_swap_ip_hdr ETHER_HDR_LEN m = Some m1
    \<and> onvm_pkt_swap_tcp_hdr (ETHER_HDR_LEN + IPV4_HDR_LEN) m1 = Some m2
    \<and> onvm_ft_fill_key m2 = Some (Inr \<lparr>src_addr = dst_addr k, dst_addr = src_addr k, src_port = dst_port k, dst_port = src_port k, proto = proto k\<rparr>)
    \<and> onvm_ft_fill_key_symmetric m2 = onvm_ft_fill_key_symmetric m
    \<and> onvm_ft_fill_key_symmetric m = Some (Inr (order_key (k\<lparr>src_port := dst_port k, dst_port := src_port k\<rparr>)))"
proof -
  have len: "38 \<le> length (mb_bytes m)"
    using assms
    by (auto simp: onvm_ft_fill_key_def bind_eq_Some_conv onvm_pkt_tcp_hdr_def onvm_pkt_udp_hdr_def l4_hdr_def ports_at_def
        half_at_def byte_at_def split: if_splits option.splits)
  obtain A x0 x1 x2 x3 y0 y1 y2 y3 p0 p1 q0 q1 C where A: "length A = 26"
    and bs: "mb_bytes m = A @ [x0, x1, x2, x3] @ [y0, y1, y2, y3] @ [p0, p1] @ [q0, q1] @ C"
    by (rule split_addresses [OF len])
  let ?m1 = "m\<lparr>mb_bytes := A @ [y0, y1, y2, y3] @ [x0, x1, x2, x3] @ [p0, p1] @ [q0, q1] @ C\<rparr>"
  let ?m2 = "m\<lparr>mb_bytes := A @ [y0, y1, y2, y3] @ [x0, x1, x2, x3] @ [q0, q1] @ [p0, p1] @ C\<rparr>"
  have 1: "onvm_pkt_swap_ip_hdr ETHER_HDR_LEN m = Some ?m1"
    using swap_adjacent [of "[x0, x1, x2, x3]" 4 "[y0, y1, y2, y3]" 26 A] A bs
    by (simp add: onvm_pkt_swap_ip_hdr_def on_bytes_def)
  have 2: "onvm_pkt_swap_tcp_hdr (ETHER_HDR_LEN + IPV4_HDR_LEN) ?m1 = Some ?m2"
    using swap_adjacent [of "[p0, p1]" 2 "[q0, q1]" 34 "A @ [y0, y1, y2, y3] @ [x0, x1, x2, x3]"] A
    by (simp add: onvm_pkt_swap_tcp_hdr_def on_bytes_def)
  note f = fill_key_split [OF A bs] and f2 = fill_key_split [OF A, of ?m2 y0 y1 y2 y3 x0 x1 x2 x3 q0 q1 p0 p1 C]
  have v: "drop_bit 4 (A ! 14) AND 15 = 4" using f assms(1) by (simp split: if_splits)
  then have k: "k = \<lparr>src_addr = ucast (le16 x0 x1) + 65536 * ucast (le16 x2 x3), dst_addr = ucast (le16 y0 y1) + 65536 * ucast (le16 y2 y3),
      src_port = le16 p0 p1, dst_port = le16 q0 q1, proto = A ! 23\<rparr>"
    using f assms by (auto split: if_splits)
  have 3: "onvm_ft_fill_key ?m2 = Some (Inr (reverse_key k))"
    using f2 v k assms(2) by (auto simp: reverse_key_def)
  have "onvm_ft_fill_key_symmetric ?m2 = Some (Inr (order_key k))" "onvm_ft_fill_key_symmetric m = Some (Inr (order_key k))"
    using 3 assms(1) by (simp_all add: onvm_ft_fill_key_symmetric_def order_key_reverse)
  moreover have "reverse_key k = \<lparr>src_addr = dst_addr k, dst_addr = src_addr k, src_port = dst_port k, dst_port = src_port k, proto = proto k\<rparr>"
    by (cases k) (simp add: reverse_key_def)
  ultimately show ?thesis using 1 2 3 by (intro exI [of _ ?m1] exI [of _ ?m2]) (simp only: order_key_ports simp_thms)
qed

theorem reversed_packet_keys_witness:
  "\<exists>m1 m2. onvm_pkt_swap_ip_hdr 14 demo_pkt = Some m1 \<and> onvm_pkt_swap_tcp_hdr 34 m1 = Some m2
     \<and> onvm_ft_fill_key_symmetric m2 = onvm_ft_fill_key_symmetric demo_pkt"
  using reversed_packet_keys [OF demo_fill_key] by (auto simp: demo_key_def)

end
