(* ===== verification/ServiceChain.thy ===== *)
theory ServiceChain
  imports OnvmTypes
begin

text \<open>
  Service chains (\<^verbatim>\<open>onvm_sc_common.c\<close>, \<^verbatim>\<open>onvm_sc_mgr.c\<close>, \<^verbatim>\<open>onvm_sc_mgr.h\<close>): creation, appending and
  setting of entries, the next action and destination of a packet, and the choice of an NF instance
  of a service. An access outside an array is \<open>None\<close>.
\<close>

section \<open>Chains\<close>

record onvm_service_chain_entry =
  entry_destination :: u16
  entry_action :: u8

record onvm_service_chain =
  sc :: "onvm_service_chain_entry list"
  chain_length :: u8
  ref_cnt :: int

definition zero_entry :: onvm_service_chain_entry where
  "zero_entry = \<lparr>entry_destination = 0, entry_action = 0\<rparr>"

definition onvm_sc_create :: "bool \<Rightarrow> onvm_service_chain option" where
  "onvm_sc_create calloc_ok =
     (if calloc_ok then Some \<lparr>sc = replicate ONVM_MAX_CHAIN_LENGTH zero_entry, chain_length = 0, ref_cnt = 0\<rparr>
      else None)"

definition set_sc :: "onvm_service_chain \<Rightarrow> nat \<Rightarrow> u8 \<Rightarrow> u16 \<Rightarrow> onvm_service_chain option" where
  "set_sc chain i act dest =
     (if i < length (sc chain)
      then Some (chain\<lparr>sc := (sc chain)[i := \<lparr>entry_destination = dest, entry_action = act\<rparr>]\<rparr>) else None)"

text \<open>\<open>None\<close>: the entry is written beyond the array.\<close>

definition onvm_sc_append_entry :: "onvm_service_chain \<Rightarrow> u8 \<Rightarrow> u16 \<Rightarrow> (int \<times> onvm_service_chain) option" where
  "onvm_sc_append_entry chain act dest =
     (let n = unat (chain_length chain) in
      if n > ONVM_MAX_CHAIN_LENGTH then Some (ENOSPC, chain)
      else map_option (\<lambda>c. (0, c)) (set_sc (chain\<lparr>chain_length := chain_length chain + 1\<rparr>) (n + 1) act dest))"

definition onvm_sc_set_entry :: "onvm_service_chain \<Rightarrow> int \<Rightarrow> u8 \<Rightarrow> u16 \<Rightarrow> (int \<times> onvm_service_chain) option" where
  "onvm_sc_set_entry chain entry act dest =
     (if entry > uint (chain_length chain) then Some (- 1, chain)
      else if entry < 0 then None
      else map_option (\<lambda>c. (0, c)) (set_sc chain (nat entry) act dest))"

definition onvm_next_action :: "onvm_service_chain \<Rightarrow> u16 \<Rightarrow> u8 option" where
  "onvm_next_action chain cur_nf =
     (if unat cur_nf \<ge> unat (chain_length chain) then Some ONVM_NF_ACTION_DROP
      else if unat cur_nf + 1 < length (sc chain) then Some (entry_action (sc chain ! (unat cur_nf + 1))) else None)"

definition onvm_next_destination :: "onvm_service_chain \<Rightarrow> u16 \<Rightarrow> u16 option" where
  "onvm_next_destination chain cur_nf =
     (if unat cur_nf \<ge> unat (chain_length chain) then Some 0
      else if unat cur_nf + 1 < length (sc chain) then Some (entry_destination (sc chain ! (unat cur_nf + 1))) else None)"

definition onvm_sc_next_action :: "onvm_service_chain \<Rightarrow> onvm_pkt_meta \<Rightarrow> u8 option" where
  "onvm_sc_next_action chain pm = onvm_next_action chain (ucast (chain_index pm))"

definition onvm_sc_next_destination :: "onvm_service_chain \<Rightarrow> onvm_pkt_meta \<Rightarrow> u16 option" where
  "onvm_sc_next_destination chain pm = onvm_next_destination chain (ucast (chain_index pm))"

section \<open>From a service to an instance\<close>

text \<open>
  The packet contributes its RSS hash (\<open>None\<close> for a message). The result \<open>None\<close> is an access
  outside the tables.
\<close>

definition onvm_sc_service_to_nf_map ::
  "u16 list list \<Rightarrow> u16 list \<Rightarrow> u16 \<Rightarrow> u32 option \<Rightarrow> u16 option" where
  "onvm_sc_service_to_nf_map services counts service_id pkt_rss =
     (if unat service_id \<ge> length counts \<or> unat service_id \<ge> length services then None
      else
        let num_nfs_available = counts ! unat service_id; row = services ! unat service_id in
        if num_nfs_available = 0 then Some 0
        else case pkt_rss of
               None \<Rightarrow> if row \<noteq> [] then Some (row ! 0) else None
             | Some rss \<Rightarrow>
                 let instance_index = ucast (rss mod ucast num_nfs_available) :: u16
                 in if unat instance_index < length row then Some (row ! unat instance_index) else None)"

section \<open>Chains built by appending\<close>

text \<open>Appending a list of (action, destination) pairs to a fresh chain; stops at the first failure.\<close>

primrec append_all :: "(u8 \<times> u16) list \<Rightarrow> onvm_service_chain \<Rightarrow> (int \<times> onvm_service_chain) option" where
  "append_all [] c = Some (0, c)"
| "append_all (e # es) c =
     (case onvm_sc_append_entry c (fst e) (snd e) of
        None \<Rightarrow> None | Some (r, c1) \<Rightarrow> if r \<noteq> 0 then Some (r, c1) else append_all es c1)"

text \<open>The chain that holds exactly the entries \<open>es\<close>, the first slot being reserved.\<close>

definition chain_holds :: "(u8 \<times> u16) list \<Rightarrow> onvm_service_chain \<Rightarrow> bool" where
  "chain_holds es c \<longleftrightarrow> length (sc c) = ONVM_MAX_CHAIN_LENGTH \<and> unat (chain_length c) = length es
     \<and> (\<forall>i < length es. Suc i < ONVM_MAX_CHAIN_LENGTH \<longrightarrow>
          sc c ! Suc i = \<lparr>entry_destination = snd (es ! i), entry_action = fst (es ! i)\<rparr>)"

lemma chain_holds_append:
  assumes "chain_holds es c" "length es < 3"
  shows "\<exists>c'. onvm_sc_append_entry c act dest = Some (0, c') \<and> chain_holds (es @ [(act, dest)]) c'"
proof -
  have n: "unat (chain_length c) = length es" "length (sc c) = 4"
    using assms(1) by (simp_all add: chain_holds_def onvm_limits)
  have inc: "unat (chain_length c + 1) = Suc (length es)"
    using n assms(2) by (subst unat_inc) simp_all
  show ?thesis
    using assms n inc
    by (auto simp: onvm_sc_append_entry_def set_sc_def Let_def chain_holds_def onvm_limits nth_append nth_list_update)
qed

lemma append_all_holds:
  "chain_holds fs c \<Longrightarrow> length (fs @ es) \<le> 3 \<Longrightarrow> \<exists>c'. append_all es c = Some (0, c') \<and> chain_holds (fs @ es) c'"
proof (induction es arbitrary: fs c)
  case (Cons e es)
  obtain c1 where "onvm_sc_append_entry c (fst e) (snd e) = Some (0, c1)" "chain_holds (fs @ [e]) c1"
    using chain_holds_append [OF Cons.prems(1), of "fst e" "snd e"] Cons.prems(2) by auto
  then show ?case using Cons.IH [of "fs @ [e]" c1] Cons.prems(2) by simp
qed simp

lemma append_overruns:
  assumes "length (sc c) = 4" "unat (chain_length c) = 3 \<or> unat (chain_length c) = 4"
  shows "onvm_sc_append_entry c act dest = None"
  using assms by (auto simp: onvm_sc_append_entry_def set_sc_def Let_def onvm_limits)

lemma next_action_holds:
  assumes "chain_holds es c" "length es \<le> 3"
  shows "onvm_next_action c i = Some (if unat i < length es then fst (es ! unat i) else ONVM_NF_ACTION_DROP)"
    and "onvm_next_destination c i = Some (if unat i < length es then snd (es ! unat i) else 0)"
  using assms by (auto simp: chain_holds_def onvm_next_action_def onvm_next_destination_def onvm_limits)

section \<open>Properties\<close>

text \<open>
  C27. Building a chain and walking it: up to three entries can be appended to a fresh chain, and a
  packet at step \<open>i\<close> of it then gets the action and destination of entry \<open>i\<close>, and the action
  drop behind the last one.
\<close>

theorem chain_append_walk:
  assumes "onvm_sc_create True = Some c0" and "length es \<le> 3"
  shows "\<exists>c. append_all es c0 = Some (0, c) \<and> unat (chain_length c) = length es
    \<and> (\<forall>pm. onvm_sc_next_action c pm =
              Some (if unat (chain_index pm) < length es then fst (es ! unat (chain_index pm)) else ONVM_NF_ACTION_DROP)
          \<and> onvm_sc_next_destination c pm =
              Some (if unat (chain_index pm) < length es then snd (es ! unat (chain_index pm)) else 0))"
proof -
  have "chain_holds [] c0" using assms(1) by (auto simp: onvm_sc_create_def chain_holds_def)
  then obtain c where c: "append_all es c0 = Some (0, c)" "chain_holds es c"
    using append_all_holds [of "[]" c0 es] assms(2) by auto
  have "unat (ucast b :: u16) = unat b" for b :: u8
    by (rule unat_ucast_up) simp
  then show ?thesis
    using c next_action_holds [OF c(2) assms(2)]
    by (intro exI [where x = c]) (simp add: onvm_sc_next_action_def onvm_sc_next_destination_def, simp add: chain_holds_def)
qed

theorem chain_append_walk_witness:
  "\<exists>c0 c. onvm_sc_create True = Some c0 \<and> append_all [(2, 1), (3, 0)] c0 = Some (0, c)
     \<and> onvm_sc_next_action c \<lparr>action = 1, destination = 0, src = 0, chain_index = 1, meta_flags = 0\<rparr> = Some 3"
proof -
  obtain c0 where c0: "onvm_sc_create True = Some c0" by (simp add: onvm_sc_create_def)
  then show ?thesis using chain_append_walk [OF c0, of "[(2, 1), (3, 0)]"] by auto
qed

text \<open>
  C29. The bound of \<^verbatim>\<open>onvm_sc_append_entry\<close>: the check against the maximal length 4 lets the fourth
  and the fifth entry through, and both are written outside the array of four slots (slot 0 is
  reserved); the code reports \<^verbatim>\<open>ENOSPC\<close> only for a chain that is already longer than the array.
\<close>

theorem append_entry_overrun_iff:
  assumes "length (sc c) = ONVM_MAX_CHAIN_LENGTH"
  shows "(onvm_sc_append_entry c act dest = None \<longleftrightarrow> unat (chain_length c) \<in> {3, 4})
    \<and> (\<forall>r c'. onvm_sc_append_entry c act dest = Some (r, c') \<longrightarrow>
         r = (if unat (chain_length c) \<le> 2 then 0 else ENOSPC) \<and> length (sc c') = ONVM_MAX_CHAIN_LENGTH)"
proof -
  have "unat (chain_length c) \<le> 2 \<or> unat (chain_length c) \<in> {3, 4} \<or> 4 < unat (chain_length c)" by auto
  then show ?thesis
    using assms by (auto simp: onvm_sc_append_entry_def set_sc_def Let_def onvm_limits)
qed

theorem append_entry_overrun_iff_witness:
  "\<exists>c0 c. onvm_sc_create True = Some c0 \<and> append_all [(2, 1), (2, 2), (2, 3)] c0 = Some (0, c)
     \<and> onvm_sc_append_entry c 3 0 = None"
proof -
  obtain c0 where c0: "onvm_sc_create True = Some c0" by (simp add: onvm_sc_create_def)
  have "chain_holds [] c0" using c0 by (auto simp: onvm_sc_create_def chain_holds_def)
  then obtain c where c: "append_all [(2, 1), (2, 2), (2, 3)] c0 = Some (0, c)" "chain_holds [(2, 1), (2, 2), (2, 3)] c"
    using append_all_holds [of "[]" c0 "[(2, 1), (2, 2), (2, 3)]"] by auto
  then have "onvm_sc_append_entry c 3 0 = None"
    using append_entry_overrun_iff [of c 3 0] by (simp add: chain_holds_def)
  with c0 c show ?thesis by blast
qed

text \<open>
  The load balancing over the instances of a service: with a table whose first \<open>n\<close> entries of
  the row are the instances, every packet goes to one of them, and packets with the same RSS hash
  go to the same one; with no instance the answer is the reserved id 0.
\<close>

lemma service_map_selects_instance:
  assumes "unat s < length counts" and "unat s < length services"
    and "unat (counts ! unat s) \<le> length (services ! unat s)"
  shows "\<exists>i. onvm_sc_service_to_nf_map services counts s (Some rss) = Some i
    \<and> (if counts ! unat s = 0 then i = 0
       else i = services ! unat s ! (unat rss mod unat (counts ! unat s))
            \<and> i \<in> set (take (unat (counts ! unat s)) (services ! unat s)))"
proof (cases "counts ! unat s = 0")
  case True
  then show ?thesis using assms by (simp add: onvm_sc_service_to_nf_map_def)
next
  case False
  let ?n = "unat (counts ! unat s)" and ?row = "services ! unat s"
  have n: "0 < ?n" using False by (simp add: unat_gt_0)
  have up: "unat (ucast (counts ! unat s) :: u32) = ?n"
    by (rule unat_ucast_up) simp
  have "unat rss mod ?n < 2 ^ 16"
    using n unat_less_2p [of "counts ! unat s"] by (simp add: less_trans [OF mod_less_divisor])
  then have idx: "unat (ucast (rss mod ucast (counts ! unat s)) :: u16) = unat rss mod ?n"
    using unat_ucast_small [of "rss mod ucast (counts ! unat s)", where 'b = 16] by (simp add: unat_mod up)
  have lt: "unat rss mod ?n < ?n" using n by simp
  then have "?row ! (unat rss mod ?n) \<in> set (take ?n ?row)"
    using assms(3) by (auto simp: in_set_conv_nth intro!: exI [where x = "unat rss mod ?n"])
  then show ?thesis
    using False assms lt by (simp add: onvm_sc_service_to_nf_map_def Let_def idx)
qed

end
