(* ===== verification/FlowDir.thy ===== *)
theory FlowDir
  imports FlowTable ServiceChain
begin

text \<open>
  The flow director (\<^verbatim>\<open>onvm_flow_dir.c\<close>): the flow table of the manager whose entries point to service chains.
  A chain pointer is an address of the heap \<open>sc_heap\<close>; using a pointer whose chain was freed is \<open>None\<close>.
\<close>

section \<open>State\<close>

record onvm_flow_entry =
  fl_key :: nat
  fl_sc :: nat
  fl_ref_cnt :: u64
  fl_idle_timeout :: u16
  fl_hard_timeout :: u16
  fl_packet_count :: u64
  fl_byte_count :: u64

record 'h flow_dir =
  sdn_ft :: "('h, onvm_flow_entry) onvm_ft"
  sc_heap :: "nat \<Rightarrow> onvm_service_chain option"
  fd_freed :: "nat list"

type_synonym 'h ft_api = "('h, onvm_ft_ipv4_5tuple) hash_api"
type_synonym softrss_fn = "u32 \<Rightarrow> u32 \<Rightarrow> u16 \<Rightarrow> u16 \<Rightarrow> u32"

abbreviation SDN_FT_ENTRIES :: nat where "SDN_FT_ENTRIES \<equiv> 1024"
abbreviation FLOW_ENTRY_SIZE :: nat where "FLOW_ENTRY_SIZE \<equiv> 48"

text \<open>
  Initialisation in the manager and in an NF: \<open>None\<close> when the process exits, because the table or the shared zone that
  holds its pointer could not be made or found.
\<close>

definition onvm_flow_dir_init :: "('h, onvm_flow_entry) ft_alloc \<Rightarrow> bool \<Rightarrow> ('h, onvm_flow_entry) onvm_ft option" where
  "onvm_flow_dir_init fa mz_ok =
     (case onvm_ft_create fa SDN_FT_ENTRIES FLOW_ENTRY_SIZE of
        Some (Some ft, live) \<Rightarrow> if mz_ok then Some ft else None
      | _ \<Rightarrow> None)"

definition onvm_flow_dir_nf_init :: "('h, onvm_flow_entry) onvm_ft option \<Rightarrow> 'h flow_dir \<Rightarrow> 'h flow_dir option" where
  "onvm_flow_dir_nf_init mz_ftp fd = (case mz_ftp of None \<Rightarrow> None | Some ft \<Rightarrow> Some (fd\<lparr>sdn_ft := ft\<rparr>))"

section \<open>Operations\<close>

definition onvm_flow_dir_get_pkt :: "'h ft_api \<Rightarrow> 'h flow_dir \<Rightarrow> mbuf \<Rightarrow> ft_result option" where
  "onvm_flow_dir_get_pkt api fd pkt = onvm_ft_lookup_pkt api (sdn_ft fd) pkt"

definition onvm_flow_dir_add_pkt :: "'h ft_api \<Rightarrow> 'h flow_dir \<Rightarrow> mbuf \<Rightarrow> (ft_result \<times> 'h flow_dir) option" where
  "onvm_flow_dir_add_pkt api fd pkt = map_option (\<lambda>(r, ft). (r, fd\<lparr>sdn_ft := ft\<rparr>)) (onvm_ft_add_pkt api (sdn_ft fd) pkt)"

text \<open>\<^verbatim>\<open>rte_free\<close> of the chain and the key of an entry, and the decrement of the chain's counter.\<close>

definition free_entry :: "onvm_flow_entry \<Rightarrow> 'h flow_dir \<Rightarrow> 'h flow_dir" where
  "free_entry e fd = fd\<lparr>sc_heap := (sc_heap fd)(fl_sc e := None), fd_freed := fd_freed fd @ [fl_sc e, fl_key e]\<rparr>"

definition drop_ref :: "onvm_flow_entry \<Rightarrow> 'h flow_dir \<Rightarrow> (int \<times> 'h flow_dir) option" where
  "drop_ref e fd =
     (case sc_heap fd (fl_sc e) of
        None \<Rightarrow> None
      | Some c \<Rightarrow> Some (ref_cnt c, fd\<lparr>sc_heap := (sc_heap fd)(fl_sc e \<mapsto> c\<lparr>ref_cnt := ref_cnt c - 1\<rparr>)\<rparr>))"

definition entry_at :: "'h flow_dir \<Rightarrow> nat option \<Rightarrow> onvm_flow_entry option" where
  "entry_at fd p = (case p of None \<Rightarrow> None | Some i \<Rightarrow> if i < length (ft_data (sdn_ft fd)) then Some (ft_data (sdn_ft fd) ! i) else None)"

definition onvm_flow_dir_del_and_free_pkt :: "'h ft_api \<Rightarrow> 'h flow_dir \<Rightarrow> mbuf \<Rightarrow> (int \<times> 'h flow_dir) option" where
  "onvm_flow_dir_del_and_free_pkt api fd pkt = do {
     (ret, p) \<leftarrow> onvm_flow_dir_get_pkt api fd pkt;
     if ret < 0 then Some (ret, fd)
     else do {
       e \<leftarrow> entry_at fd p;
       let fd1 = free_entry e fd;
       (r, ft) \<leftarrow> onvm_ft_remove_pkt api (sdn_ft fd1) pkt;
       Some (r, fd1\<lparr>sdn_ft := ft\<rparr>) } }"

definition onvm_flow_dir_del_pkt :: "'h ft_api \<Rightarrow> 'h flow_dir \<Rightarrow> mbuf \<Rightarrow> (int \<times> 'h flow_dir) option" where
  "onvm_flow_dir_del_pkt api fd pkt = do {
     (ret, p) \<leftarrow> onvm_flow_dir_get_pkt api fd pkt;
     if ret < 0 then Some (ret, fd)
     else do {
       e \<leftarrow> entry_at fd p;
       (cnt, fd1) \<leftarrow> drop_ref e fd;
       if cnt \<le> 0 then onvm_flow_dir_del_and_free_pkt api fd1 pkt else Some (ret, fd1) } }"

definition onvm_flow_dir_get_key :: "'h ft_api \<Rightarrow> softrss_fn \<Rightarrow> 'h flow_dir \<Rightarrow> onvm_ft_ipv4_5tuple \<Rightarrow> ft_result" where
  "onvm_flow_dir_get_key api softrss fd key = onvm_ft_lookup_key api softrss (sdn_ft fd) key"

definition onvm_flow_dir_add_key ::
  "'h ft_api \<Rightarrow> softrss_fn \<Rightarrow> 'h flow_dir \<Rightarrow> onvm_ft_ipv4_5tuple \<Rightarrow> ft_result \<times> 'h flow_dir" where
  "onvm_flow_dir_add_key api softrss fd key =
     (let (r, ft) = onvm_ft_add_key api softrss (sdn_ft fd) key in (r, fd\<lparr>sdn_ft := ft\<rparr>))"

definition onvm_flow_dir_del_and_free_key ::
  "'h ft_api \<Rightarrow> softrss_fn \<Rightarrow> 'h flow_dir \<Rightarrow> onvm_ft_ipv4_5tuple \<Rightarrow> (int \<times> 'h flow_dir) option" where
  "onvm_flow_dir_del_and_free_key api softrss fd key =
     (let (ret, p) = onvm_flow_dir_get_key api softrss fd key in
      if ret < 0 then Some (ret, fd)
      else do {
        e \<leftarrow> entry_at fd p;
        let fd1 = free_entry e fd;
        let (r, ft) = onvm_ft_remove_key api softrss (sdn_ft fd1) key;
        Some (r, fd1\<lparr>sdn_ft := ft\<rparr>) })"

definition onvm_flow_dir_del_key ::
  "'h ft_api \<Rightarrow> softrss_fn \<Rightarrow> 'h flow_dir \<Rightarrow> onvm_ft_ipv4_5tuple \<Rightarrow> (int \<times> 'h flow_dir) option" where
  "onvm_flow_dir_del_key api softrss fd key =
     (let (ret, p) = onvm_flow_dir_get_key api softrss fd key in
      if ret < 0 then Some (ret, fd)
      else do {
        e \<leftarrow> entry_at fd p;
        (cnt, fd1) \<leftarrow> drop_ref e fd;
        if cnt \<le> 0 then onvm_flow_dir_del_and_free_key api softrss fd1 key else Some (ret, fd1) })"

section \<open>Properties\<close>

text \<open>Where the entry of a present key is.\<close>

lemma present_entry:
  assumes "rte_hash api slots sig cap hinv" "ft_ok hinv cap (sdn_ft fd)"
    and "onvm_ft_fill_key pkt = Some (Inr k)" "mb_rss pkt = sig k" "ft_map slots (sdn_ft fd) k = Some e"
  obtains p where "onvm_flow_dir_get_pkt api fd pkt = Some (int p, Some p)" "entry_at fd (Some p) = Some e"
proof -
  obtain p where p: "slots (ft_hash (sdn_ft fd)) k = Some p" "ft_data (sdn_ft fd) ! p = e"
    using assms(5) by (auto simp: ft_map_def)
  have "p < length (ft_data (sdn_ft fd))"
    using rte_hash.slots_bound [OF assms(1) _ p(1)] assms(2) by (simp add: ft_ok_def)
  then show thesis
    using that [of p] assms(3,4) p rte_hash.lookup_map [OF assms(1,2), of k]
    by (simp add: onvm_flow_dir_get_pkt_def onvm_ft_lookup_pkt_def entry_at_def)
qed

text \<open>Removing the entry of a present key and freeing what it points to.\<close>

lemma del_and_free_present:
  assumes "rte_hash api slots sig cap hinv" "ft_ok hinv cap (sdn_ft fd)"
    and "onvm_ft_fill_key pkt = Some (Inr k)" "mb_rss pkt = sig k" "ft_map slots (sdn_ft fd) k = Some e"
  shows "\<exists>r fd'. onvm_flow_dir_del_and_free_pkt api fd pkt = Some (r, fd') \<and> 0 \<le> r
    \<and> ft_map slots (sdn_ft fd') = (ft_map slots (sdn_ft fd))(k := None) \<and> ft_ok hinv cap (sdn_ft fd')
    \<and> sc_heap fd' = (sc_heap fd)(fl_sc e := None) \<and> fd_freed fd' = fd_freed fd @ [fl_sc e, fl_key e]"
proof -
  obtain p where p: "onvm_flow_dir_get_pkt api fd pkt = Some (int p, Some p)" "entry_at fd (Some p) = Some e"
    by (rule present_entry [OF assms])
  obtain r h where del: "hash_del_key api (ft_hash (sdn_ft fd)) k (sig k) = (r, h)" by (metis surj_pair)
  note d = rte_hash.del_map [OF assms(1,2) del]
  have "0 \<le> r" using d(3) assms(5) by (auto simp: ft_map_def)
  then show ?thesis
    using p d(1,2) del assms(3,4)
    by (simp add: onvm_flow_dir_del_and_free_pkt_def onvm_ft_remove_pkt_def free_entry_def)
qed

text \<open>
  C24. Deleting a flow (\<^verbatim>\<open>onvm_flow_dir_del_pkt\<close>): an absent flow gives \<open>-ENOENT\<close> and nothing changes. The
  counter of the chain of a present flow is decremented; the entry is removed, and its chain and key freed,
  exactly when the counter was not positive before, otherwise the flow stays in the table.
\<close>

theorem flow_dir_del_pkt_spec:
  assumes "rte_hash api slots sig cap hinv" and "ft_ok hinv cap (sdn_ft fd)"
    and "onvm_ft_fill_key pkt = Some (Inr k)" and "mb_rss pkt = sig k"
    and "\<forall>e. ft_map slots (sdn_ft fd) k = Some e \<longrightarrow> sc_heap fd (fl_sc e) \<noteq> None"
  shows "\<exists>r fd'. onvm_flow_dir_del_pkt api fd pkt = Some (r, fd') \<and>
    (case ft_map slots (sdn_ft fd) k of
       None \<Rightarrow> r = - ENOENT \<and> fd' = fd
     | Some e \<Rightarrow> 0 \<le> r \<and>
         (\<exists>c. sc_heap fd (fl_sc e) = Some c \<and>
           (if ref_cnt c \<le> 0
            then ft_map slots (sdn_ft fd') = (ft_map slots (sdn_ft fd))(k := None) \<and> ft_ok hinv cap (sdn_ft fd')
              \<and> sc_heap fd' (fl_sc e) = None \<and> fd_freed fd' = fd_freed fd @ [fl_sc e, fl_key e]
            else sdn_ft fd' = sdn_ft fd \<and> fd_freed fd' = fd_freed fd
              \<and> sc_heap fd' = (sc_heap fd)(fl_sc e \<mapsto> c\<lparr>ref_cnt := ref_cnt c - 1\<rparr>))))"
proof (cases "ft_map slots (sdn_ft fd) k")
  case None
  then have "slots (ft_hash (sdn_ft fd)) k = None" by (simp add: ft_map_def)
  then have "onvm_flow_dir_get_pkt api fd pkt = Some (- ENOENT, None)"
    using assms(3,4) rte_hash.lookup_map [OF assms(1,2), of k] by (simp add: onvm_flow_dir_get_pkt_def onvm_ft_lookup_pkt_def)
  then show ?thesis using None by (simp add: onvm_flow_dir_del_pkt_def)
next
  case (Some e)
  obtain p where p: "onvm_flow_dir_get_pkt api fd pkt = Some (int p, Some p)" "entry_at fd (Some p) = Some e"
    by (rule present_entry [OF assms(1-4) Some])
  obtain c where c: "sc_heap fd (fl_sc e) = Some c" using assms(5) Some by blast
  let ?fd1 = "fd\<lparr>sc_heap := (sc_heap fd)(fl_sc e \<mapsto> c\<lparr>ref_cnt := ref_cnt c - 1\<rparr>)\<rparr>"
  have step: "onvm_flow_dir_del_pkt api fd pkt =
      (if ref_cnt c \<le> 0 then onvm_flow_dir_del_and_free_pkt api ?fd1 pkt else Some (int p, ?fd1))"
    using p c by (simp add: onvm_flow_dir_del_pkt_def drop_ref_def)
  have ok1: "ft_ok hinv cap (sdn_ft ?fd1)" "ft_map slots (sdn_ft ?fd1) k = Some e" using assms(2) Some by simp_all
  show ?thesis
    using del_and_free_present [OF assms(1) ok1(1) assms(3,4) ok1(2)] step c Some by (auto simp: fun_upd_apply)
qed

definition demo_chain :: onvm_service_chain where
  "demo_chain = \<lparr>sc = replicate 4 zero_entry, chain_length = 0, ref_cnt = 0\<rparr>"

definition demo_flow_dir :: "(onvm_ft_ipv4_5tuple \<times> nat) list flow_dir" where
  "demo_flow_dir = \<lparr>sdn_ft = \<lparr>ft_hash = [(demo_key, 1)],
       ft_data = replicate 4 \<lparr>fl_key = 70, fl_sc = 80, fl_ref_cnt = 0, fl_idle_timeout = 0, fl_hard_timeout = 0,
         fl_packet_count = 0, fl_byte_count = 0\<rparr>, ft_cnt = 4, ft_entry_size = 48\<rparr>,
     sc_heap = [80 \<mapsto> demo_chain], fd_freed = []\<rparr>"

theorem flow_dir_del_pkt_spec_witness:
  "\<exists>r fd'. onvm_flow_dir_del_pkt (list_hash_api 4) demo_flow_dir demo_pkt = Some (r, fd') \<and> fd_freed fd' = [80, 70]"
proof -
  have hash: "rte_hash (list_hash_api 4) map_of (\<lambda>_. 5) 4 (list_hash_ok 4)" by (rule list_hash.rte_hash_axioms)
  have ok: "ft_ok (list_hash_ok 4) 4 (sdn_ft demo_flow_dir)" by (simp add: ft_ok_def demo_flow_dir_def list_hash_ok_def)
  have rss: "mb_rss demo_pkt = 5" by (simp add: demo_pkt_def)
  have e: "ft_map map_of (sdn_ft demo_flow_dir) demo_key = Some \<lparr>fl_key = 70, fl_sc = 80, fl_ref_cnt = 0,
      fl_idle_timeout = 0, fl_hard_timeout = 0, fl_packet_count = 0, fl_byte_count = 0\<rparr>"
    by (simp add: ft_map_def demo_flow_dir_def)
  have heap: "sc_heap demo_flow_dir 80 = Some demo_chain" by (simp add: demo_flow_dir_def)
  from flow_dir_del_pkt_spec [OF hash ok demo_fill_key rss] e heap show ?thesis
    by (auto simp: demo_chain_def demo_flow_dir_def [THEN arg_cong, of fd_freed])
qed

end
