(* ===== verification/RteRing.thy ===== *)
theory RteRing
  imports Prelude
begin

text \<open>
  The DPDK ring interface the manager and the NF library use. DPDK is not part of the repository:
  its calls are the fields of the record \<open>ring_api\<close>, and the locale \<open>rte_ring\<close> states their
  documented behaviour, a bounded FIFO whose bulk calls are all-or-nothing and whose burst calls
  move what they can. \<open>list_ring\<close> is a concrete ring that satisfies it.
\<close>

record ('q, 'a) ring_api =
  ring_count :: "'q \<Rightarrow> nat"
  ring_enqueue_bulk :: "'q \<Rightarrow> 'a list \<Rightarrow> nat \<times> 'q"
  ring_enqueue :: "'q \<Rightarrow> 'a \<Rightarrow> int \<times> 'q"
  ring_dequeue_bulk :: "'q \<Rightarrow> nat \<Rightarrow> 'a list \<times> 'q"
  ring_dequeue_burst :: "'q \<Rightarrow> nat \<Rightarrow> 'a list \<times> 'q"
  ring_dequeue :: "'q \<Rightarrow> 'a option \<times> 'q"

text \<open>
  The loops that empty a ring, in bursts and one by one (\<^verbatim>\<open>while ((n = rte_ring_dequeue_burst(...)) > 0)\<close>
  and \<^verbatim>\<open>while (rte_ring_dequeue(...) == 0)\<close>); the result is what they took out.
\<close>

partial_function (option) drain_burst :: "('q, 'a) ring_api \<Rightarrow> nat \<Rightarrow> 'a list \<Rightarrow> 'q \<Rightarrow> ('a list \<times> 'q) option" where
  "drain_burst api n acc q =
     (let (xs, q1) = ring_dequeue_burst api q n in
      if xs = [] then Some (acc, q1) else drain_burst api n (acc @ xs) q1)"

partial_function (option) drain_each :: "('q, 'a) ring_api \<Rightarrow> 'a list \<Rightarrow> 'q \<Rightarrow> ('a list \<times> 'q) option" where
  "drain_each api acc q =
     (case ring_dequeue api q of
        (None, q1) \<Rightarrow> Some (acc, q1)
      | (Some x, q1) \<Rightarrow> drain_each api (acc @ [x]) q1)"

declare drain_burst.simps [code] drain_each.simps [code]

locale rte_ring =
  fixes api :: "('q, 'a) ring_api"
    and items :: "'q \<Rightarrow> 'a list"
    and room :: "'q \<Rightarrow> nat"
  assumes count_items: "ring_count api q = length (items q)"
    and enq_bulk_ok: "length xs \<le> room q \<Longrightarrow> ring_enqueue_bulk api q xs = (m, q') \<Longrightarrow>
          m = length xs \<and> items q' = items q @ xs \<and> room q' = room q - length xs"
    and enq_bulk_full: "room q < length xs \<Longrightarrow> ring_enqueue_bulk api q xs = (m, q') \<Longrightarrow>
          m = 0 \<and> items q' = items q \<and> room q' = room q"
    and enq_ok: "0 < room q \<Longrightarrow> ring_enqueue api q x = (r, q') \<Longrightarrow> r = 0 \<and> items q' = items q @ [x] \<and> room q' = room q - 1"
    and enq_full: "room q = 0 \<Longrightarrow> ring_enqueue api q x = (r, q') \<Longrightarrow> r < 0 \<and> items q' = items q \<and> room q' = room q"
    and deq_bulk_ok: "n \<le> length (items q) \<Longrightarrow> ring_dequeue_bulk api q n = (xs, q') \<Longrightarrow>
          xs = take n (items q) \<and> items q' = drop n (items q) \<and> room q' = room q + n"
    and deq_bulk_none: "length (items q) < n \<Longrightarrow> ring_dequeue_bulk api q n = (xs, q') \<Longrightarrow> xs = [] \<and> items q' = items q"
    and deq_burst: "ring_dequeue_burst api q n = (xs, q') \<Longrightarrow>
          xs = take n (items q) \<and> items q' = drop n (items q) \<and> room q' = room q + length xs"
    and deq_one: "ring_dequeue api q = (z, q') \<Longrightarrow>
          (case items q of [] \<Rightarrow> z = None \<and> items q' = [] | y # ys \<Rightarrow> z = Some y \<and> items q' = ys)"
begin

text \<open>Draining a ring ends and returns everything that was in it, in order.\<close>

lemma drain_burst_all:
  assumes "0 < n"
  shows "\<exists>q'. drain_burst api n acc q = Some (acc @ items q, q') \<and> items q' = []"
proof (induction "length (items q)" arbitrary: acc q rule: less_induct)
  case less
  obtain xs q1 where d: "ring_dequeue_burst api q n = (xs, q1)" by (metis surj_pair)
  have xs: "xs = take n (items q)" "items q1 = drop n (items q)" using deq_burst [OF d] by simp_all
  show ?case
  proof (cases "xs = []")
    case True
    then have "items q = []" using xs(1) assms by simp
    then show ?thesis using d True xs(2) by (simp add: drain_burst.simps)
  next
    case False
    then have "length (items q1) < length (items q)" using xs assms by (cases "items q") auto
    from less [OF this, of "acc @ xs"] obtain q' where
      "drain_burst api n (acc @ xs) q1 = Some (acc @ xs @ items q1, q')" "items q' = []" by auto
    moreover have "xs @ items q1 = items q" using xs by simp
    ultimately show ?thesis using d False by (simp add: drain_burst.simps [of api n acc q])
  qed
qed

lemma drain_each_all: "\<exists>q'. drain_each api acc q = Some (acc @ items q, q') \<and> items q' = []"
proof (induction "items q" arbitrary: acc q)
  case Nil
  then show ?case
    using deq_one [of q "fst (ring_dequeue api q)" "snd (ring_dequeue api q)"]
    by (cases "ring_dequeue api q") (simp add: drain_each.simps)
next
  case (Cons y ys)
  obtain x q1 where d: "ring_dequeue api q = (x, q1)" by (metis surj_pair)
  then have "x = Some y" "items q1 = ys" using deq_one [OF d] Cons.hyps(2) by (auto split: list.splits)
  then show ?case
    using Cons.hyps(1) [of q1 "acc @ [y]"] Cons.hyps(2) [symmetric] d by (simp add: drain_each.simps [of api acc q])
qed

end

section \<open>A concrete ring\<close>

record 'a list_ring =
  lr_items :: "'a list"
  lr_room :: nat

definition list_ring_api :: "('a list_ring, 'a) ring_api" where
  "list_ring_api = \<lparr>
     ring_count = (\<lambda>q. length (lr_items q)),
     ring_enqueue_bulk = (\<lambda>q xs. if length xs \<le> lr_room q
        then (length xs, \<lparr>lr_items = lr_items q @ xs, lr_room = lr_room q - length xs\<rparr>) else (0, q)),
     ring_enqueue = (\<lambda>q x. if 0 < lr_room q
        then (0, \<lparr>lr_items = lr_items q @ [x], lr_room = lr_room q - 1\<rparr>) else (- ENOBUFS, q)),
     ring_dequeue_bulk = (\<lambda>q n. if n \<le> length (lr_items q)
        then (take n (lr_items q), \<lparr>lr_items = drop n (lr_items q), lr_room = lr_room q + n\<rparr>) else ([], q)),
     ring_dequeue_burst = (\<lambda>q n. (take n (lr_items q),
        \<lparr>lr_items = drop n (lr_items q), lr_room = lr_room q + length (take n (lr_items q))\<rparr>)),
     ring_dequeue = (\<lambda>q. case lr_items q of [] \<Rightarrow> (None, q)
        | x # xs \<Rightarrow> (Some x, \<lparr>lr_items = xs, lr_room = lr_room q + 1\<rparr>))\<rparr>"

interpretation list_ring: rte_ring list_ring_api lr_items lr_room
  by unfold_locales (auto simp: list_ring_api_def split: if_splits list.splits)

end
