(* ===== verification/PktProc.thy ===== *)
theory PktProc
  imports FlowDir RteRing
begin

text \<open>
  The packet paths of the manager and the NFs (\<^verbatim>\<open>onvm_pkt_common.c\<close>, \<^verbatim>\<open>onvm_pkt.c\<close>): batching packets
  towards NFs and ports, flushing batches into rings and to the NIC, following a service chain. Packets
  are pointers into a store of mbufs; an NF pointer is an index of the NF table. An access outside an array, through a null ring
  or through the wrong member of the union in \<^verbatim>\<open>struct queue_mgr\<close> is \<open>None\<close>. Freed packets and packets handed to a
  NIC are logged.
\<close>

section \<open>State\<close>

record packet_buf =
  pb_buffer :: "nat list"
  pb_count :: u16

record tx_thread_info =
  first_nf :: nat
  last_nf :: nat
  port_tx_bufs :: "packet_buf list"

text \<open>The type tag of \<^verbatim>\<open>struct queue_mgr\<close> with the union member that belongs to it.\<close>

datatype mgr_side = MGR_side tx_thread_info | NF_side packet_buf

record queue_mgr =
  qm_id :: nat
  qm_side :: mgr_side
  nf_rx_bufs :: "packet_buf list"

record port_info =
  num_ports :: u8
  port_id :: "u8 list"
  port_init :: "u8 list"
  port_rx :: "u64 list"
  port_tx :: "u64 list"
  port_tx_drop :: "u64 list"

record ('q, 'mq, 'h) pkt_state =
  pk_nfs :: "('q, 'mq) onvm_nf list"
  pk_services :: "u16 list list"
  pk_counts :: "u16 list"
  default_chain :: onvm_service_chain
  pk_flow_dir :: "'h flow_dir"
  pk_mbufs :: "nat \<Rightarrow> mbuf"
  pk_ports :: port_info
  pk_freed :: "nat list"
  pk_sent :: "(nat \<times> nat) list"

text \<open>
  Rings, the hash of the flow director and the NIC: \<open>pe_tx_burst log port queue pkts\<close> is the number of packets
  \<^verbatim>\<open>rte_eth_tx_burst\<close> takes after what was sent before.
\<close>

record ('q, 'h) pkt_env =
  pe_ring :: "('q, nat) ring_api"
  pe_hash :: "'h ft_api"
  pe_tx_burst :: "(nat \<times> nat) list \<Rightarrow> nat \<Rightarrow> nat \<Rightarrow> nat list \<Rightarrow> u16"

section \<open>Helpers\<close>

definition meta_of :: "('q, 'mq, 'h) pkt_state \<Rightarrow> nat \<Rightarrow> onvm_pkt_meta" where
  "meta_of s pkt = mb_meta (pk_mbufs s pkt)"

definition upd_meta :: "nat \<Rightarrow> (onvm_pkt_meta \<Rightarrow> onvm_pkt_meta) \<Rightarrow> ('q, 'mq, 'h) pkt_state \<Rightarrow> ('q, 'mq, 'h) pkt_state" where
  "upd_meta pkt f s = s\<lparr>pk_mbufs := (pk_mbufs s)(pkt := (pk_mbufs s pkt)\<lparr>mb_meta := f (meta_of s pkt)\<rparr>)\<rparr>"

definition upd_stats :: "nat option \<Rightarrow> (onvm_nf_stats \<Rightarrow> onvm_nf_stats) \<Rightarrow> ('q, 'mq, 'h) pkt_state \<Rightarrow> ('q, 'mq, 'h) pkt_state" where
  "upd_stats nf f s =
     (case nf of
        None \<Rightarrow> s
      | Some i \<Rightarrow> s\<lparr>pk_nfs := (pk_nfs s)[i := (pk_nfs s ! i)\<lparr>nf_stats := f (nf_stats (pk_nfs s ! i))\<rparr>]\<rparr>)"

text \<open>\<^verbatim>\<open>onvm_pkt_drop\<close> frees the packet; it returns 1 for every packet that is not null.\<close>

definition onvm_pkt_drop :: "nat \<Rightarrow> ('q, 'mq, 'h) pkt_state \<Rightarrow> int \<times> ('q, 'mq, 'h) pkt_state" where
  "onvm_pkt_drop pkt s = (1, s\<lparr>pk_freed := pk_freed s @ [pkt]\<rparr>)"

definition free_all :: "nat list \<Rightarrow> ('q, 'mq, 'h) pkt_state \<Rightarrow> ('q, 'mq, 'h) pkt_state" where
  "free_all ps s = s\<lparr>pk_freed := pk_freed s @ ps\<rparr>"

text \<open>\<^verbatim>\<open>buffer[count++] = pkt\<close>, and the packets in a buffer.\<close>

definition buf_push :: "packet_buf \<Rightarrow> nat \<Rightarrow> packet_buf option" where
  "buf_push b pkt =
     (if unat (pb_count b) < length (pb_buffer b)
      then Some (b\<lparr>pb_buffer := (pb_buffer b)[unat (pb_count b) := pkt], pb_count := pb_count b + 1\<rparr>) else None)"

definition buf_items :: "packet_buf \<Rightarrow> nat list" where
  "buf_items b = take (unat (pb_count b)) (pb_buffer b)"

section \<open>Towards the NFs\<close>

type_synonym ('q, 'mq, 'h) pkt_cfg = "queue_mgr \<times> ('q, 'mq, 'h) pkt_state"

text \<open>What happens to a batch that the ring of the NF refused (\<open>r = 0\<close>) or took.\<close>

definition account_rx :: "nat \<Rightarrow> nat list \<Rightarrow> u64 \<Rightarrow> nat \<Rightarrow> nat option \<Rightarrow> ('q, 'mq, 'h) pkt_state \<Rightarrow> ('q, 'mq, 'h) pkt_state" where
  "account_rx r ps n nf_id source_nf s =
     (if r = 0
      then upd_stats source_nf (\<lambda>t. t\<lparr>st_tx_drop := st_tx_drop t + n\<rparr>)
             (upd_stats (Some nf_id) (\<lambda>t. t\<lparr>st_rx_drop := st_rx_drop t + n\<rparr>) (free_all ps s))
      else upd_stats source_nf (\<lambda>t. t\<lparr>st_tx := st_tx t + n\<rparr>)
             (upd_stats (Some nf_id) (\<lambda>t. t\<lparr>st_rx := st_rx t + n\<rparr>) s))"

definition onvm_pkt_flush_nf_queue ::
  "('q, 'h) pkt_env \<Rightarrow> nat \<Rightarrow> nat option \<Rightarrow> ('q, 'mq, 'h) pkt_cfg \<Rightarrow> ('q, 'mq, 'h) pkt_cfg option" where
  "onvm_pkt_flush_nf_queue env nf_id source_nf = (\<lambda>(qm, s).
     if nf_id \<ge> length (nf_rx_bufs qm) then None
     else
       let nf_buf = nf_rx_bufs qm ! nf_id in
       if pb_count nf_buf = 0 then Some (qm, s)
       else if nf_id \<ge> length (pk_nfs s) then None
       else if \<not> onvm_nf_is_valid (pk_nfs s ! nf_id) then Some (qm, s)
       else case nf_rx_q (pk_nfs s ! nf_id) of
         None \<Rightarrow> None
       | Some q \<Rightarrow>
           let ps = buf_items nf_buf; n = ucast (pb_count nf_buf) :: u64;
               (r, q1) = ring_enqueue_bulk (pe_ring env) q ps;
               s1 = s\<lparr>pk_nfs := (pk_nfs s)[nf_id := (pk_nfs s ! nf_id)\<lparr>nf_rx_q := Some q1\<rparr>]\<rparr>;
               s2 = account_rx r ps n nf_id source_nf s1
           in Some (qm\<lparr>nf_rx_bufs := (nf_rx_bufs qm)[nf_id := nf_buf\<lparr>pb_count := 0\<rparr>]\<rparr>, s2))"

primrec flush_nfs :: "('q, 'h) pkt_env \<Rightarrow> nat list \<Rightarrow> nat option \<Rightarrow> ('q, 'mq, 'h) pkt_cfg \<Rightarrow> ('q, 'mq, 'h) pkt_cfg option" where
  "flush_nfs env [] source_nf c = Some c"
| "flush_nfs env (i # is) source_nf c = Option.bind (onvm_pkt_flush_nf_queue env i source_nf c) (flush_nfs env is source_nf)"

definition onvm_pkt_flush_all_nfs ::
  "('q, 'h) pkt_env \<Rightarrow> nat option \<Rightarrow> ('q, 'mq, 'h) pkt_cfg \<Rightarrow> ('q, 'mq, 'h) pkt_cfg option" where
  "onvm_pkt_flush_all_nfs env source_nf c = flush_nfs env [0..<MAX_NFS] source_nf c"

definition drop_counted :: "nat \<Rightarrow> nat option \<Rightarrow> ('q, 'mq, 'h) pkt_state \<Rightarrow> ('q, 'mq, 'h) pkt_state" where
  "drop_counted pkt source_nf s = upd_stats source_nf (\<lambda>t. t\<lparr>st_tx_drop := st_tx_drop t + 1\<rparr>) (snd (onvm_pkt_drop pkt s))"

definition onvm_pkt_enqueue_nf ::
  "('q, 'h) pkt_env \<Rightarrow> u16 \<Rightarrow> nat \<Rightarrow> nat option \<Rightarrow> ('q, 'mq, 'h) pkt_cfg \<Rightarrow> ('q, 'mq, 'h) pkt_cfg option" where
  "onvm_pkt_enqueue_nf env dst_service_id pkt source_nf = (\<lambda>(qm, s). do {
     dst \<leftarrow> onvm_sc_service_to_nf_map (pk_services s) (pk_counts s) dst_service_id (Some (mb_rss (pk_mbufs s pkt)));
     if dst = 0 then Some (qm, drop_counted pkt source_nf s)
     else if unat dst \<ge> length (pk_nfs s) then None
     else if \<not> onvm_nf_is_valid (pk_nfs s ! unat dst) then Some (qm, drop_counted pkt source_nf s)
     else if unat dst \<ge> length (nf_rx_bufs qm) then None
     else do {
       nf_buf \<leftarrow> buf_push (nf_rx_bufs qm ! unat dst) pkt;
       let qm1 = qm\<lparr>nf_rx_bufs := (nf_rx_bufs qm)[unat dst := nf_buf]\<rparr>;
       if unat (pb_count nf_buf) = PACKET_READ_SIZE then onvm_pkt_flush_nf_queue env (unat dst) source_nf (qm1, s)
       else Some (qm1, s) } })"

section \<open>Towards the ports\<close>

definition onvm_pkt_flush_port_queue ::
  "('q, 'h) pkt_env \<Rightarrow> nat \<Rightarrow> ('q, 'mq, 'h) pkt_cfg \<Rightarrow> ('q, 'mq, 'h) pkt_cfg option" where
  "onvm_pkt_flush_port_queue env port = (\<lambda>(qm, s).
     case qm_side qm of
       NF_side b \<Rightarrow> Some (qm, s)
     | MGR_side info \<Rightarrow>
         if port \<ge> length (port_tx_bufs info) then None
         else
           let port_buf = port_tx_bufs info ! port in
           if pb_count port_buf = 0 then Some (qm, s)
           else if port \<ge> length (port_tx (pk_ports s)) \<or> port \<ge> length (port_tx_drop (pk_ports s)) then None
           else
             let ps = buf_items port_buf;
                 sent = pe_tx_burst env (pk_sent s) port (qm_id qm) ps;
                 s1 = s\<lparr>pk_sent := pk_sent s @ map (\<lambda>p. (port, p)) (take (unat sent) ps)\<rparr>;
                 s2 = (if sent < pb_count port_buf
                       then free_all (drop (unat sent) ps)
                              (s1\<lparr>pk_ports := (pk_ports s1)\<lparr>port_tx_drop := (port_tx_drop (pk_ports s1))
                                    [port := port_tx_drop (pk_ports s1) ! port + ucast (pb_count port_buf - sent)]\<rparr>\<rparr>)
                       else s1);
                 s3 = s2\<lparr>pk_ports := (pk_ports s2)\<lparr>port_tx := (port_tx (pk_ports s2))
                            [port := port_tx (pk_ports s2) ! port + ucast sent]\<rparr>\<rparr>
             in Some (qm\<lparr>qm_side := MGR_side (info\<lparr>port_tx_bufs := (port_tx_bufs info)[port := port_buf\<lparr>pb_count := 0\<rparr>]\<rparr>)\<rparr>, s3))"

definition account_tx :: "nat \<Rightarrow> nat list \<Rightarrow> u64 \<Rightarrow> nat \<Rightarrow> ('q, 'mq, 'h) pkt_state \<Rightarrow> ('q, 'mq, 'h) pkt_state" where
  "account_tx r ps n nf s =
     (if r = 0 then free_all ps (upd_stats (Some nf) (\<lambda>t. t\<lparr>st_tx_drop := st_tx_drop t + n\<rparr>) s)
      else upd_stats (Some nf) (\<lambda>t. t\<lparr>st_tx := st_tx t + n\<rparr>) s)"

definition onvm_pkt_enqueue_tx_thread ::
  "('q, 'h) pkt_env \<Rightarrow> packet_buf \<Rightarrow> nat \<Rightarrow> ('q, 'mq, 'h) pkt_state \<Rightarrow> (packet_buf \<times> ('q, 'mq, 'h) pkt_state) option" where
  "onvm_pkt_enqueue_tx_thread env pkt_buf nf s =
     (if pb_count pkt_buf = 0 then Some (pkt_buf, s)
      else if nf \<ge> length (pk_nfs s) then None
      else case nf_tx_q (pk_nfs s ! nf) of
        None \<Rightarrow> None
      | Some q \<Rightarrow>
          let ps = buf_items pkt_buf; n = ucast (pb_count pkt_buf) :: u64;
              (r, q1) = ring_enqueue_bulk (pe_ring env) q ps;
              s1 = s\<lparr>pk_nfs := (pk_nfs s)[nf := (pk_nfs s ! nf)\<lparr>nf_tx_q := Some q1\<rparr>]\<rparr>;
              s2 = account_tx r ps n nf s1
          in Some (pkt_buf\<lparr>pb_count := 0\<rparr>, s2))"

definition onvm_pkt_enqueue_port ::
  "('q, 'h) pkt_env \<Rightarrow> nat \<Rightarrow> nat \<Rightarrow> ('q, 'mq, 'h) pkt_cfg \<Rightarrow> ('q, 'mq, 'h) pkt_cfg option" where
  "onvm_pkt_enqueue_port env port buf = (\<lambda>(qm, s).
     if port \<ge> length (port_init (pk_ports s)) then None
     else if port_init (pk_ports s) ! port = 0 then Some (qm, s)
     else case qm_side qm of
       NF_side b \<Rightarrow> None
     | MGR_side info \<Rightarrow>
         if port \<ge> length (port_tx_bufs info) then None
         else do {
           port_buf \<leftarrow> buf_push (port_tx_bufs info ! port) buf;
           let qm1 = qm\<lparr>qm_side := MGR_side (info\<lparr>port_tx_bufs := (port_tx_bufs info)[port := port_buf]\<rparr>)\<rparr>;
           if unat (pb_count port_buf) = PACKET_READ_SIZE then onvm_pkt_flush_port_queue env port (qm1, s)
           else Some (qm1, s) })"

primrec flush_ports :: "('q, 'h) pkt_env \<Rightarrow> u8 list \<Rightarrow> ('q, 'mq, 'h) pkt_cfg \<Rightarrow> ('q, 'mq, 'h) pkt_cfg option" where
  "flush_ports env [] c = Some c"
| "flush_ports env (p # ps) c = Option.bind (onvm_pkt_flush_port_queue env (unat p) c) (flush_ports env ps)"

definition onvm_pkt_flush_all_ports :: "('q, 'h) pkt_env \<Rightarrow> ('q, 'mq, 'h) pkt_cfg \<Rightarrow> ('q, 'mq, 'h) pkt_cfg option" where
  "onvm_pkt_flush_all_ports env c =
     (let ports = pk_ports (snd c) in
      if unat (num_ports ports) > length (port_id ports) then None
      else flush_ports env (take (unat (num_ports ports)) (port_id ports)) c)"

section \<open>Chains and batches\<close>

text \<open>The chain of a packet: the one of its flow, or the default chain.\<close>

definition chain_of_pkt :: "('q, 'h) pkt_env \<Rightarrow> ('q, 'mq, 'h) pkt_state \<Rightarrow> nat \<Rightarrow> onvm_service_chain option" where
  "chain_of_pkt env s pkt = do {
     (ret, p) \<leftarrow> onvm_flow_dir_get_pkt (pe_hash env) (pk_flow_dir s) (pk_mbufs s pkt);
     if ret \<ge> 0 then do { e \<leftarrow> entry_at (pk_flow_dir s) p; sc_heap (pk_flow_dir s) (fl_sc e) }
     else Some (default_chain s) }"

definition set_next :: "onvm_service_chain \<Rightarrow> nat \<Rightarrow> ('q, 'mq, 'h) pkt_state \<Rightarrow> ('q, 'mq, 'h) pkt_state option" where
  "set_next chain pkt s = do {
     a \<leftarrow> onvm_sc_next_action chain (meta_of s pkt);
     d \<leftarrow> onvm_sc_next_destination chain (meta_of s pkt);
     Some (upd_meta pkt (\<lambda>m. m\<lparr>action := a, destination := d\<rparr>) s) }"

abbreviation inc_chain_index :: "nat \<Rightarrow> ('q, 'mq, 'h) pkt_state \<Rightarrow> ('q, 'mq, 'h) pkt_state" where
  "inc_chain_index pkt s \<equiv> upd_meta pkt (\<lambda>m. m\<lparr>chain_index := chain_index m + 1\<rparr>) s"

definition onvm_pkt_process_next_action ::
  "('q, 'h) pkt_env \<Rightarrow> nat \<Rightarrow> nat \<Rightarrow> ('q, 'mq, 'h) pkt_cfg \<Rightarrow> ('q, 'mq, 'h) pkt_cfg option" where
  "onvm_pkt_process_next_action env pkt nf = (\<lambda>(qm, s). do {
     chain \<leftarrow> chain_of_pkt env s pkt;
     s1 \<leftarrow> set_next chain pkt s;
     let m = meta_of s1 pkt;
     (qm2, s2) \<leftarrow>
       (if action m = ONVM_NF_ACTION_DROP then
          let (r, t) = onvm_pkt_drop pkt s1
          in Some (qm, upd_stats (Some nf) (\<lambda>st. st\<lparr>st_act_drop := st_act_drop st + (if r = 0 then 1 else 0)\<rparr>) t)
        else if action m = ONVM_NF_ACTION_TONF then
          onvm_pkt_enqueue_nf env (destination m) pkt (Some nf)
            (qm, upd_stats (Some nf) (\<lambda>st. st\<lparr>st_act_tonf := st_act_tonf st + 1\<rparr>) s1)
        else if action m = ONVM_NF_ACTION_OUT then
          onvm_pkt_enqueue_port env (unat (destination m)) pkt
            (qm, upd_stats (Some nf) (\<lambda>st. st\<lparr>st_act_out := st_act_out st + 1\<rparr>) s1)
        else Some (qm, s1));
     Some (qm2, inc_chain_index pkt s2) })"

text \<open>\<^verbatim>\<open>ONVM_NF_ACTION_OUT\<close> of a batch: an NF hands the packet to its TX thread, a TX thread to the port.\<close>

definition batch_out :: "('q, 'h) pkt_env \<Rightarrow> nat \<Rightarrow> nat \<Rightarrow> ('q, 'mq, 'h) pkt_cfg \<Rightarrow> ('q, 'mq, 'h) pkt_cfg option" where
  "batch_out env pkt nf = (\<lambda>(qm, s).
     case qm_side qm of
       MGR_side info \<Rightarrow> onvm_pkt_enqueue_port env (unat (destination (meta_of s pkt))) pkt (qm, s)
     | NF_side out_buf \<Rightarrow> do {
         b \<leftarrow> buf_push out_buf pkt;
         let s1 = upd_stats (Some nf) (\<lambda>st. st\<lparr>st_act_out := st_act_out st + 1\<rparr>) s;
         if unat (pb_count b) = PACKET_READ_SIZE then do {
           (b1, s2) \<leftarrow> onvm_pkt_enqueue_tx_thread env b nf s1;
           Some (qm\<lparr>qm_side := NF_side b1\<rparr>, s2) }
         else Some (qm\<lparr>qm_side := NF_side b\<rparr>, s1) })"

primrec onvm_pkt_process_tx_batch ::
  "('q, 'h) pkt_env \<Rightarrow> nat list \<Rightarrow> nat \<Rightarrow> ('q, 'mq, 'h) pkt_cfg \<Rightarrow> ('q, 'mq, 'h) pkt_cfg option" where
  "onvm_pkt_process_tx_batch env [] nf c = Some c"
| "onvm_pkt_process_tx_batch env (pkt # pkts) nf c =
     (let (qm, s) = c;
          s1 = upd_meta pkt (\<lambda>m. m\<lparr>src := nf_instance_id (pk_nfs s ! nf)\<rparr>) s;
          act = action (meta_of s1 pkt)
      in if nf \<ge> length (pk_nfs s) then None
         else if act = ONVM_NF_ACTION_DROP then
           let (r, s2) = onvm_pkt_drop pkt (upd_stats (Some nf) (\<lambda>st. st\<lparr>st_act_drop := st_act_drop st + 1\<rparr>) s1)
           in onvm_pkt_process_tx_batch env pkts nf
                (qm, upd_stats (Some nf) (\<lambda>st. st\<lparr>st_tx := st_tx st + (if r = 0 then 1 else 0)\<rparr>) s2)
         else if act = ONVM_NF_ACTION_NEXT then
           Option.bind (onvm_pkt_process_next_action env pkt nf
                (qm, upd_stats (Some nf) (\<lambda>st. st\<lparr>st_act_next := st_act_next st + 1\<rparr>) s1))
             (onvm_pkt_process_tx_batch env pkts nf)
         else if act = ONVM_NF_ACTION_TONF then
           Option.bind (onvm_pkt_enqueue_nf env (destination (meta_of s1 pkt)) pkt (Some nf)
                (qm, upd_stats (Some nf) (\<lambda>st. st\<lparr>st_act_tonf := st_act_tonf st + 1\<rparr>) s1))
             (onvm_pkt_process_tx_batch env pkts nf)
         else if act = ONVM_NF_ACTION_OUT then
           Option.bind (batch_out env pkt nf (qm, s1)) (onvm_pkt_process_tx_batch env pkts nf)
         else Some (qm, snd (onvm_pkt_drop pkt s1)))"

primrec rx_packets :: "('q, 'h) pkt_env \<Rightarrow> nat list \<Rightarrow> ('q, 'mq, 'h) pkt_cfg \<Rightarrow> ('q, 'mq, 'h) pkt_cfg option" where
  "rx_packets env [] c = Some c"
| "rx_packets env (pkt # pkts) c =
     (let (qm, s) = c; s1 = upd_meta pkt (\<lambda>m. m\<lparr>src := 0, chain_index := 0\<rparr>) s in do {
      chain \<leftarrow> chain_of_pkt env s1 pkt;
      s2 \<leftarrow> set_next chain pkt s1;
      c1 \<leftarrow> onvm_pkt_enqueue_nf env (destination (meta_of s2 pkt)) pkt None (qm, inc_chain_index pkt s2);
      rx_packets env pkts c1 })"

definition onvm_pkt_process_rx_batch ::
  "('q, 'h) pkt_env \<Rightarrow> nat list \<Rightarrow> ('q, 'mq, 'h) pkt_cfg \<Rightarrow> ('q, 'mq, 'h) pkt_cfg option" where
  "onvm_pkt_process_rx_batch env pkts c = Option.bind (rx_packets env pkts c) (onvm_pkt_flush_all_nfs env None)"

definition onvm_pkt_drop_batch :: "nat list \<Rightarrow> ('q, 'mq, 'h) pkt_state \<Rightarrow> ('q, 'mq, 'h) pkt_state" where
  "onvm_pkt_drop_batch pkts s = free_all pkts s"

section \<open>Where the packets are\<close>

definition opt_items :: "('q \<Rightarrow> nat list) \<Rightarrow> 'q option \<Rightarrow> nat multiset" where
  "opt_items items q = (case q of None \<Rightarrow> {#} | Some r \<Rightarrow> mset (items r))"

definition nf_held :: "('q \<Rightarrow> nat list) \<Rightarrow> ('q, 'mq) onvm_nf \<Rightarrow> nat multiset" where
  "nf_held items nf = opt_items items (nf_rx_q nf) + opt_items items (nf_tx_q nf)"

definition bufs_held :: "packet_buf list \<Rightarrow> nat multiset" where
  "bufs_held bs = (\<Sum>b\<leftarrow>bs. mset (buf_items b))"

definition side_held :: "mgr_side \<Rightarrow> nat multiset" where
  "side_held q = (case q of MGR_side info \<Rightarrow> bufs_held (port_tx_bufs info) | NF_side b \<Rightarrow> mset (buf_items b))"

definition state_held :: "('q \<Rightarrow> nat list) \<Rightarrow> ('q, 'mq, 'h) pkt_state \<Rightarrow> nat multiset" where
  "state_held items s = (\<Sum>nf\<leftarrow>pk_nfs s. nf_held items nf) + mset (pk_freed s) + mset (map snd (pk_sent s))"

text \<open>Every packet the code still knows: in a batch, in a ring, freed, or handed to a NIC.\<close>

definition held :: "('q \<Rightarrow> nat list) \<Rightarrow> ('q, 'mq, 'h) pkt_cfg \<Rightarrow> nat multiset" where
  "held items c = bufs_held (nf_rx_bufs (fst c)) + side_held (qm_side (fst c)) + state_held items (snd c)"

definition buf_wf :: "packet_buf \<Rightarrow> bool" where
  "buf_wf b \<longleftrightarrow> length (pb_buffer b) = PACKET_READ_SIZE \<and> unat (pb_count b) \<le> PACKET_READ_SIZE"

definition buf_room :: "packet_buf \<Rightarrow> bool" where
  "buf_room b \<longleftrightarrow> length (pb_buffer b) = PACKET_READ_SIZE \<and> unat (pb_count b) < PACKET_READ_SIZE"

text \<open>The tables: every NF that runs has its rings, and every registered instance is an NF.\<close>

definition tables_ok :: "('q, 'mq, 'h) pkt_state \<Rightarrow> bool" where
  "tables_ok s \<longleftrightarrow> length (pk_nfs s) = MAX_NFS
     \<and> (\<forall>nf \<in> set (pk_nfs s). onvm_nf_is_valid nf \<longrightarrow> nf_rx_q nf \<noteq> None \<and> nf_tx_q nf \<noteq> None)
     \<and> length (pk_services s) = length (pk_counts s)
     \<and> (\<forall>sid < length (pk_counts s). unat (pk_counts s ! sid) \<le> length (pk_services s ! sid)
          \<and> (\<forall>x \<in> set (pk_services s ! sid). unat x < MAX_NFS))"

text \<open>What no step of the packet paths changes: the tables, the flows, and which NFs run.\<close>

definition same_config :: "('q, 'mq, 'h) pkt_state \<Rightarrow> ('q, 'mq, 'h) pkt_state \<Rightarrow> bool" where
  "same_config s t \<longleftrightarrow> length (pk_nfs t) = length (pk_nfs s) \<and> pk_services t = pk_services s \<and> pk_counts t = pk_counts s
     \<and> pk_flow_dir t = pk_flow_dir s \<and> default_chain t = default_chain s \<and> port_init (pk_ports t) = port_init (pk_ports s)
     \<and> num_ports (pk_ports t) = num_ports (pk_ports s) \<and> port_id (pk_ports t) = port_id (pk_ports s) \<and> length (port_rx (pk_ports t)) = length (port_rx (pk_ports s))
     \<and> length (port_tx (pk_ports t)) = length (port_tx (pk_ports s)) \<and> length (port_tx_drop (pk_ports t)) = length (port_tx_drop (pk_ports s))
     \<and> (\<forall>i < length (pk_nfs s). nf_status (pk_nfs t ! i) = nf_status (pk_nfs s ! i)
          \<and> (nf_rx_q (pk_nfs t ! i) = None \<longleftrightarrow> nf_rx_q (pk_nfs s ! i) = None)
          \<and> (nf_tx_q (pk_nfs t ! i) = None \<longleftrightarrow> nf_tx_q (pk_nfs s ! i) = None))"

lemma same_config_refl [simp]: "same_config s s"
  by (simp add: same_config_def)

lemma same_config_trans: "same_config s t \<Longrightarrow> same_config t u \<Longrightarrow> same_config s u"
  by (simp add: same_config_def)

lemma same_config_nf:
  assumes "same_config s t" "i < length (pk_nfs s)"
  shows "nf_status (pk_nfs t ! i) = nf_status (pk_nfs s ! i)" "nf_rx_q (pk_nfs t ! i) = None \<longleftrightarrow> nf_rx_q (pk_nfs s ! i) = None"
    "nf_tx_q (pk_nfs t ! i) = None \<longleftrightarrow> nf_tx_q (pk_nfs s ! i) = None"
  using assms unfolding same_config_def by blast+

lemma same_config_tables:
  assumes "same_config s t" "tables_ok s"
  shows "tables_ok t"
proof -
  have "nf_rx_q nf \<noteq> None \<and> nf_tx_q nf \<noteq> None" if mem: "nf \<in> set (pk_nfs t)" and up: "onvm_nf_is_valid nf" for nf
  proof -
    obtain i where "i < length (pk_nfs t)" and nf: "nf = pk_nfs t ! i" using mem by (auto simp: in_set_conv_nth)
    then have i: "i < length (pk_nfs s)" "nf = pk_nfs t ! i" using assms(1) by (simp_all add: same_config_def)
    note e = same_config_nf [OF assms(1) i(1), folded i(2)]
    have "pk_nfs s ! i \<in> set (pk_nfs s)" "onvm_nf_is_valid (pk_nfs s ! i)" using i(1) e(1) up by (simp_all add: onvm_nf_is_valid_def)
    then show ?thesis using assms(2) e(2,3) unfolding tables_ok_def by blast
  qed
  then show ?thesis using assms by (simp add: same_config_def tables_ok_def)
qed

section \<open>Frames\<close>

lemma sum_update:
  fixes f :: "'a \<Rightarrow> 'b multiset"
  assumes "i < length xs"
  shows "(\<Sum>x\<leftarrow>xs[i := y]. f x) + f (xs ! i) = (\<Sum>x\<leftarrow>xs. f x) + f y"
  using assms by (induction xs arbitrary: i) (auto simp: less_Suc_eq_0_disj algebra_simps)

lemma map_update_same: "g y = g (xs ! i) \<Longrightarrow> map g (xs[i := y]) = map g xs"
  using list_update_id [of "map g xs" i] by (cases "i < length xs") (simp_all add: map_update list_update_beyond)

lemma upd_stats_frame:
  "state_held items (upd_stats nf f s) = state_held items s" "same_config s (upd_stats nf f s)"
  "pk_mbufs (upd_stats nf f s) = pk_mbufs s"
proof -
  show "state_held items (upd_stats nf f s) = state_held items s"
    by (cases nf) (simp_all add: upd_stats_def state_held_def nf_held_def map_update_same)
  show "same_config s (upd_stats nf f s)"
    by (cases nf) (auto simp: upd_stats_def same_config_def nth_update_if)
  show "pk_mbufs (upd_stats nf f s) = pk_mbufs s" by (cases nf) (simp_all add: upd_stats_def)
qed

lemma meta_of_upd [simp]: "meta_of (upd_meta pkt f s) p = (if p = pkt then f (meta_of s pkt) else meta_of s p)"
  by (simp add: meta_of_def upd_meta_def)

lemma upd_meta_frame:
  "state_held items (upd_meta pkt f s) = state_held items s" "same_config s (upd_meta pkt f s)"
  by (simp_all add: upd_meta_def state_held_def same_config_def)

lemma free_all_frame:
  "state_held items (free_all ps s) = state_held items s + mset ps" "same_config s (free_all ps s)"
  "pk_mbufs (free_all ps s) = pk_mbufs s"
  by (simp_all add: free_all_def state_held_def same_config_def)

lemma config_steps:
  "same_config s t \<Longrightarrow> same_config s (upd_stats nf f t)" "same_config s t \<Longrightarrow> same_config s (upd_meta pkt g t)"
  "same_config s t \<Longrightarrow> same_config s (free_all ps t)"
  using upd_stats_frame(2) upd_meta_frame(2) free_all_frame(2) same_config_trans by blast+

lemma account_frame:
  "state_held items (account_rx r ps n nf src_nf s) = state_held items s + (if r = 0 then mset ps else {#})"
  "same_config s (account_rx r ps n nf src_nf s)" "pk_mbufs (account_rx r ps n nf src_nf s) = pk_mbufs s"
  "state_held items (account_tx r ps n nf s) = state_held items s + (if r = 0 then mset ps else {#})"
  "same_config s (account_tx r ps n nf s)" "pk_mbufs (account_tx r ps n nf s) = pk_mbufs s"
  unfolding account_rx_def account_tx_def
  by (simp_all add: upd_stats_frame(1,3) free_all_frame(1,3) config_steps)

lemmas pkt_frames = upd_stats_frame upd_meta_frame free_all_frame account_frame

lemma buf_push_room:
  assumes "buf_room b"
  shows "\<exists>b'. buf_push b p = Some b' \<and> mset (buf_items b') = add_mset p (mset (buf_items b)) \<and> buf_wf b'
    \<and> unat (pb_count b') = Suc (unat (pb_count b))"
proof -
  let ?n = "unat (pb_count b)"
  have n: "?n < length (pb_buffer b)" "length (pb_buffer b) = 32" using assms by (simp_all add: buf_room_def onvm_limits)
  have inc: "unat (pb_count b + 1) = Suc ?n" using n by (subst unat_inc) simp_all
  have "take (Suc ?n) ((pb_buffer b)[?n := p]) = take ?n (pb_buffer b) @ [p]"
    using n by (simp add: take_Suc_conv_app_nth)
  then show ?thesis using n inc by (simp add: buf_push_def buf_items_def buf_wf_def onvm_limits)
qed

section \<open>Flushing\<close>

definition bufs_ok :: "queue_mgr \<Rightarrow> bool" where
  "bufs_ok qm \<longleftrightarrow> length (nf_rx_bufs qm) = MAX_NFS \<and> (\<forall>b \<in> set (nf_rx_bufs qm). buf_room b)"

lemma bufs_held_clear:
  assumes "i < length bs"
  shows "bufs_held (bs[i := (bs ! i)\<lparr>pb_count := 0\<rparr>]) + mset (buf_items (bs ! i)) = bufs_held bs"
  using sum_update [OF assms, of "\<lambda>b. mset (buf_items b)" "(bs ! i)\<lparr>pb_count := 0\<rparr>"]
  by (simp add: bufs_held_def buf_items_def)

text \<open>Putting a batch into a ring: all of it goes in, or nothing does and it is freed.\<close>

lemma enqueue_or_free:
  assumes "rte_ring api items room" "ring_enqueue_bulk api q ps = (r, q')" "ps \<noteq> []"
  shows "(if r = 0 then mset ps else {#}) + mset (items q') = mset (items q) + mset ps"
proof (cases "length ps \<le> room q")
  case True
  then show ?thesis using rte_ring.enq_bulk_ok [OF assms(1) True assms(2)] assms(3) by simp
next
  case False
  then show ?thesis using rte_ring.enq_bulk_full [OF assms(1) _ assms(2)] by simp
qed

lemma state_held_rx_q:
  assumes "i < length (pk_nfs s)" "nf_rx_q (pk_nfs s ! i) = Some q"
  shows "state_held items (s\<lparr>pk_nfs := (pk_nfs s)[i := (pk_nfs s ! i)\<lparr>nf_rx_q := Some q'\<rparr>]\<rparr>) + mset (items q)
    = state_held items s + mset (items q')"
  using sum_update [OF assms(1), of "nf_held items" "(pk_nfs s ! i)\<lparr>nf_rx_q := Some q'\<rparr>"] assms(2)
  by (simp add: state_held_def nf_held_def opt_items_def algebra_simps)

lemma state_held_tx_q:
  assumes "i < length (pk_nfs s)" "nf_tx_q (pk_nfs s ! i) = Some q"
  shows "state_held items (s\<lparr>pk_nfs := (pk_nfs s)[i := (pk_nfs s ! i)\<lparr>nf_tx_q := Some q'\<rparr>]\<rparr>) + mset (items q)
    = state_held items s + mset (items q')"
  using sum_update [OF assms(1), of "nf_held items" "(pk_nfs s ! i)\<lparr>nf_tx_q := Some q'\<rparr>"] assms(2)
  by (simp add: state_held_def nf_held_def opt_items_def algebra_simps)

lemma mset_balance:
  fixes A :: "'a multiset"
  assumes "A + I = S + J" "X + J = I + P" "H = A + X"
  shows "H = S + P"
proof -
  have "H + I = (A + I) + X" by (simp add: assms(3) ac_simps)
  also have "\<dots> = S + (X + J)" by (simp add: assms(1) ac_simps)
  also have "\<dots> = S + P + I" unfolding assms(2) by (simp add: ac_simps)
  finally show ?thesis by simp
qed

lemma set_ring_config:
  "nf_rx_q (pk_nfs s ! i) = Some q \<Longrightarrow> same_config s (s\<lparr>pk_nfs := (pk_nfs s)[i := (pk_nfs s ! i)\<lparr>nf_rx_q := Some q'\<rparr>]\<rparr>)"
  "nf_tx_q (pk_nfs s ! i) = Some q \<Longrightarrow> same_config s (s\<lparr>pk_nfs := (pk_nfs s)[i := (pk_nfs s ! i)\<lparr>nf_tx_q := Some q'\<rparr>]\<rparr>)"
  by (auto simp: same_config_def nth_update_if)

lemma tables_rings:
  assumes "tables_ok s" "i < MAX_NFS" "onvm_nf_is_valid (pk_nfs s ! i)"
  shows "\<exists>q. nf_rx_q (pk_nfs s ! i) = Some q" "\<exists>q. nf_tx_q (pk_nfs s ! i) = Some q"
  using assms nth_mem [of i "pk_nfs s"] unfolding tables_ok_def by fastforce+

lemma flush_nf_spec:
  assumes ring: "rte_ring (pe_ring env) items room" and len: "length (nf_rx_bufs qm) = MAX_NFS"
    and wf: "buf_wf (nf_rx_bufs qm ! i)" and ok: "tables_ok s" and i: "i < MAX_NFS"
  shows "\<exists>qm' s'. onvm_pkt_flush_nf_queue env i source_nf (qm, s) = Some (qm', s')
    \<and> held items (qm', s') = held items (qm, s) \<and> same_config s s' \<and> pk_mbufs s' = pk_mbufs s \<and> qm_side qm' = qm_side qm
    \<and> nf_rx_bufs qm' = (if onvm_nf_is_valid (pk_nfs s ! i) then (nf_rx_bufs qm)[i := (nf_rx_bufs qm ! i)\<lparr>pb_count := 0\<rparr>]
                        else nf_rx_bufs qm)"
proof -
  let ?b = "nf_rx_bufs qm ! i"
  have lens: "i < length (nf_rx_bufs qm)" "i < length (pk_nfs s)" using len i ok by (simp_all add: tables_ok_def)
  consider (empty) "pb_count ?b = 0" | (down) "pb_count ?b \<noteq> 0" "\<not> onvm_nf_is_valid (pk_nfs s ! i)"
    | (up) "pb_count ?b \<noteq> 0" "onvm_nf_is_valid (pk_nfs s ! i)" by blast
  then show ?thesis
  proof cases
    case empty
    then have "(nf_rx_bufs qm)[i := ?b\<lparr>pb_count := 0\<rparr>] = nf_rx_bufs qm" by (metis list_update_id packet_buf.surjective packet_buf.update_convs(2))
    then show ?thesis using empty lens by (auto simp: onvm_pkt_flush_nf_queue_def)
  next
    case down
    then show ?thesis using lens by (auto simp: onvm_pkt_flush_nf_queue_def)
  next
    case up
    obtain q where q: "nf_rx_q (pk_nfs s ! i) = Some q" using tables_rings(1) [OF ok i up(2)] by blast
    obtain r q' where e: "ring_enqueue_bulk (pe_ring env) q (buf_items ?b) = (r, q')" by (metis surj_pair)
    have ne: "buf_items ?b \<noteq> []" using up(1) wf by (auto simp: buf_items_def buf_wf_def onvm_limits unat_eq_zero)
    let ?s1 = "s\<lparr>pk_nfs := (pk_nfs s)[i := (pk_nfs s ! i)\<lparr>nf_rx_q := Some q'\<rparr>]\<rparr>"
    let ?qm = "qm\<lparr>nf_rx_bufs := (nf_rx_bufs qm)[i := ?b\<lparr>pb_count := 0\<rparr>]\<rparr>"
    let ?s' = "account_rx r (buf_items ?b) (ucast (pb_count ?b)) i source_nf ?s1"
    have s': "onvm_pkt_flush_nf_queue env i source_nf (qm, s) = Some (?qm, ?s')"
      using up lens q e by (simp add: onvm_pkt_flush_nf_queue_def Let_def)
    have t: "state_held items ?s' = state_held items ?s1 + (if r = 0 then mset (buf_items ?b) else {#})" "same_config ?s1 ?s'"
      "pk_mbufs ?s' = pk_mbufs s"
      by (simp_all add: account_frame)
    have "state_held items ?s' = state_held items s + mset (buf_items ?b)"
      by (rule mset_balance [OF state_held_rx_q [OF lens(2) q] enqueue_or_free [OF ring e ne] t(1)])
    then have "held items (?qm, ?s') = held items (qm, s)"
      using bufs_held_clear [OF lens(1)] by (simp add: held_def algebra_simps)
    moreover have "same_config s ?s'" using set_ring_config(1) [OF q, of q'] t(2) by (rule same_config_trans)
    ultimately show ?thesis using s' t(3) up(2) by simp
  qed
qed

section \<open>Enqueueing\<close>

lemma service_instance:
  assumes "tables_ok s" "unat sid < length (pk_counts s)"
  shows "\<exists>d. onvm_sc_service_to_nf_map (pk_services s) (pk_counts s) sid (Some rss) = Some d \<and> unat d < MAX_NFS"
proof (cases "pk_counts s ! unat sid = 0")
  case True
  then show ?thesis using assms by (simp add: onvm_sc_service_to_nf_map_def tables_ok_def MAX_NFS_def)
next
  case False
  let ?n = "pk_counts s ! unat sid" and ?row = "pk_services s ! unat sid"
  let ?k = "ucast (rss mod ucast ?n) :: u16"
  have n: "unat (ucast ?n :: u32) = unat ?n" by (rule unat_ucast_up) simp
  have "unat ?n > 0" using False by (simp add: unat_gt_0)
  then have lt: "unat (rss mod ucast ?n) < unat ?n" using n by (simp add: unat_mod_distrib)
  then have "unat ?k = unat (rss mod ucast ?n)"
    using unat_less_2p [of ?n] by (intro unat_ucast_small) simp
  then have "unat ?k < length ?row" using lt assms by (fastforce simp: tables_ok_def)
  moreover from this have "unat (?row ! unat ?k) < MAX_NFS" using assms nth_mem [of "unat ?k" ?row] by (auto simp: tables_ok_def)
  ultimately show ?thesis using False assms by (simp add: onvm_sc_service_to_nf_map_def tables_ok_def)
qed

lemma drop_counted_frame:
  "state_held items (drop_counted pkt nf s) = add_mset pkt (state_held items s)" "same_config s (drop_counted pkt nf s)"
  "pk_mbufs (drop_counted pkt nf s) = pk_mbufs s"
proof -
  have e: "snd (onvm_pkt_drop pkt s) = free_all [pkt] s" by (simp add: onvm_pkt_drop_def free_all_def)
  show "state_held items (drop_counted pkt nf s) = add_mset pkt (state_held items s)" "same_config s (drop_counted pkt nf s)"
    "pk_mbufs (drop_counted pkt nf s) = pk_mbufs s"
    unfolding drop_counted_def e by (simp_all add: pkt_frames config_steps)
qed

lemma bufs_held_push:
  assumes "i < length bs" "mset (buf_items b) = add_mset p (mset (buf_items (bs ! i)))"
  shows "bufs_held (bs[i := b]) = add_mset p (bufs_held bs)"
proof -
  have "bufs_held (bs[i := b]) + mset (buf_items (bs ! i)) = add_mset p (bufs_held bs) + mset (buf_items (bs ! i))"
    using sum_update [OF assms(1), of "\<lambda>b. mset (buf_items b)" b] assms(2) by (simp add: bufs_held_def)
  then show ?thesis by simp
qed

lemma bufs_ok_update:
  "bufs_ok qm \<Longrightarrow> buf_room b \<Longrightarrow> bufs_ok (qm\<lparr>nf_rx_bufs := (nf_rx_bufs qm)[i := b]\<rparr>)"
  by (auto simp: bufs_ok_def dest: set_update_subset_insert [THEN subsetD])

lemma enqueue_nf_spec:
  assumes ring: "rte_ring (pe_ring env) items room" and bufs: "bufs_ok qm" and ok: "tables_ok s"
    and sid: "unat sid < length (pk_counts s)"
  shows "\<exists>qm' s'. onvm_pkt_enqueue_nf env sid pkt source_nf (qm, s) = Some (qm', s')
    \<and> held items (qm', s') = add_mset pkt (held items (qm, s)) \<and> bufs_ok qm' \<and> same_config s s' \<and> pk_mbufs s' = pk_mbufs s
    \<and> qm_side qm' = qm_side qm"
proof -
  obtain d where d: "onvm_sc_service_to_nf_map (pk_services s) (pk_counts s) sid (Some (mb_rss (pk_mbufs s pkt))) = Some d"
    "unat d < MAX_NFS" using service_instance [OF ok sid] by blast
  let ?i = "unat d"
  have lens: "?i < length (pk_nfs s)" "?i < length (nf_rx_bufs qm)" using d(2) ok bufs by (simp_all add: tables_ok_def bufs_ok_def)
  show ?thesis
  proof (cases "d = 0 \<or> \<not> onvm_nf_is_valid (pk_nfs s ! ?i)")
    case True
    then have "onvm_pkt_enqueue_nf env sid pkt source_nf (qm, s) = Some (qm, drop_counted pkt source_nf s)"
      using d lens by (auto simp: onvm_pkt_enqueue_nf_def)
    then show ?thesis using bufs by (simp add: held_def drop_counted_frame)
  next
    case False
    have room: "buf_room (nf_rx_bufs qm ! ?i)" using bufs lens(2) by (simp add: bufs_ok_def)
    obtain b where b: "buf_push (nf_rx_bufs qm ! ?i) pkt = Some b"
      "mset (buf_items b) = add_mset pkt (mset (buf_items (nf_rx_bufs qm ! ?i)))" "buf_wf b"
      using buf_push_room [OF room, of pkt] by blast
    let ?qm1 = "qm\<lparr>nf_rx_bufs := (nf_rx_bufs qm)[?i := b]\<rparr>"
    have h1: "held items (?qm1, s) = add_mset pkt (held items (qm, s))"
      using bufs_held_push [OF lens(2) b(2)] by (simp add: held_def)
    have step: "onvm_pkt_enqueue_nf env sid pkt source_nf (qm, s) =
        (if unat (pb_count b) = PACKET_READ_SIZE then onvm_pkt_flush_nf_queue env ?i source_nf (?qm1, s) else Some (?qm1, s))"
      using False d lens b(1) by (simp add: onvm_pkt_enqueue_nf_def)
    show ?thesis
    proof (cases "unat (pb_count b) = PACKET_READ_SIZE")
      case full: True
      have len1: "length (nf_rx_bufs ?qm1) = MAX_NFS" and wf1: "buf_wf (nf_rx_bufs ?qm1 ! ?i)"
        using bufs lens(2) b(3) by (simp_all add: bufs_ok_def)
      obtain qm' s' where f: "onvm_pkt_flush_nf_queue env ?i source_nf (?qm1, s) = Some (qm', s')"
        "held items (qm', s') = held items (?qm1, s)" "same_config s s'" "pk_mbufs s' = pk_mbufs s" "qm_side qm' = qm_side qm"
        "nf_rx_bufs qm' = (nf_rx_bufs qm)[?i := b\<lparr>pb_count := 0\<rparr>]"
        using flush_nf_spec [OF ring len1 wf1 ok d(2), of source_nf] False lens(2) by auto
      have "buf_room (b\<lparr>pb_count := 0\<rparr>)" using b(3) by (simp add: buf_room_def buf_wf_def onvm_limits)
      then have "bufs_ok qm'" using bufs_ok_update [OF bufs, of "b\<lparr>pb_count := 0\<rparr>" ?i] f(6) by (simp add: bufs_ok_def)
      then show ?thesis using step full f h1 by simp
    next
      case False
      then have "buf_room b" using b(3) by (simp add: buf_room_def buf_wf_def)
      then show ?thesis using step False h1 bufs_ok_update [OF bufs] by simp
    qed
  qed
qed

lemma flush_nfs_spec:
  assumes "rte_ring (pe_ring env) items room"
  shows "bufs_ok qm \<Longrightarrow> tables_ok s \<Longrightarrow> \<forall>i \<in> set is. i < MAX_NFS \<Longrightarrow>
    \<exists>qm' s'. flush_nfs env is source_nf (qm, s) = Some (qm', s') \<and> held items (qm', s') = held items (qm, s)
      \<and> bufs_ok qm' \<and> same_config s s' \<and> pk_mbufs s' = pk_mbufs s \<and> qm_side qm' = qm_side qm
      \<and> (\<forall>i < MAX_NFS. buf_items (nf_rx_bufs qm' ! i) =
          (if i \<in> set is \<and> onvm_nf_is_valid (pk_nfs s ! i) then [] else buf_items (nf_rx_bufs qm ! i)))"
proof (induction "is" arbitrary: qm s)
  case Nil
  then show ?case by simp
next
  case (Cons j js)
  have j: "j < MAX_NFS" and len: "length (nf_rx_bufs qm) = MAX_NFS" using Cons.prems by (simp_all add: bufs_ok_def)
  have room: "buf_room (nf_rx_bufs qm ! j)" using Cons.prems(1) j by (simp add: bufs_ok_def)
  then have wf: "buf_wf (nf_rx_bufs qm ! j)" by (simp add: buf_room_def buf_wf_def)
  obtain qm1 s1 where f: "onvm_pkt_flush_nf_queue env j source_nf (qm, s) = Some (qm1, s1)"
    "held items (qm1, s1) = held items (qm, s)" "same_config s s1" "pk_mbufs s1 = pk_mbufs s" "qm_side qm1 = qm_side qm"
    "nf_rx_bufs qm1 = (if onvm_nf_is_valid (pk_nfs s ! j) then (nf_rx_bufs qm)[j := (nf_rx_bufs qm ! j)\<lparr>pb_count := 0\<rparr>] else nf_rx_bufs qm)"
    using flush_nf_spec [OF assms len wf Cons.prems(2) j, of source_nf] by blast
  have "buf_room ((nf_rx_bufs qm ! j)\<lparr>pb_count := 0\<rparr>)" using room by (simp add: buf_room_def)
  then have ok1: "bufs_ok qm1" using bufs_ok_update [OF Cons.prems(1), of "(nf_rx_bufs qm ! j)\<lparr>pb_count := 0\<rparr>" j] Cons.prems(1) f(6)
    by (simp add: bufs_ok_def)
  have valid: "onvm_nf_is_valid (pk_nfs s1 ! i) = onvm_nf_is_valid (pk_nfs s ! i)" if "i < MAX_NFS" for i
    using same_config_nf(1) [OF f(3), of i] Cons.prems(2) that by (simp add: onvm_nf_is_valid_def tables_ok_def)
  have items1: "buf_items (nf_rx_bufs qm1 ! i) = (if i = j \<and> onvm_nf_is_valid (pk_nfs s ! i) then [] else buf_items (nf_rx_bufs qm ! i))"
    if "i < MAX_NFS" for i using that len f(6) by (auto simp: nth_update_if buf_items_def)
  obtain qm' s' where g: "flush_nfs env js source_nf (qm1, s1) = Some (qm', s')" "held items (qm', s') = held items (qm1, s1)"
    "bufs_ok qm'" "same_config s1 s'" "pk_mbufs s' = pk_mbufs s1" "qm_side qm' = qm_side qm1"
    "\<forall>i < MAX_NFS. buf_items (nf_rx_bufs qm' ! i) = (if i \<in> set js \<and> onvm_nf_is_valid (pk_nfs s1 ! i) then [] else buf_items (nf_rx_bufs qm1 ! i))"
    using Cons.IH [OF ok1 same_config_tables [OF f(3) Cons.prems(2)]] Cons.prems(3) by auto
  have "buf_items (nf_rx_bufs qm' ! i) = (if i \<in> set (j # js) \<and> onvm_nf_is_valid (pk_nfs s ! i) then [] else buf_items (nf_rx_bufs qm ! i))"
    if "i < MAX_NFS" for i using g(7) valid [OF that] items1 [OF that] that by auto
  then show ?case using f g same_config_trans [OF f(3) g(4)] by simp
qed

section \<open>The receive path\<close>

definition same_data :: "('q, 'mq, 'h) pkt_state \<Rightarrow> ('q, 'mq, 'h) pkt_state \<Rightarrow> bool" where
  "same_data s t \<longleftrightarrow> (\<forall>p. \<exists>m. pk_mbufs t p = (pk_mbufs s p)\<lparr>mb_meta := m\<rparr>)"

lemma meta_id: "m\<lparr>mb_meta := mb_meta m\<rparr> = m" "m\<lparr>mb_meta := x, mb_meta := y\<rparr> = m\<lparr>mb_meta := y\<rparr>" for m :: mbuf
  by simp_all

lemma same_data_mbufs: "pk_mbufs t = pk_mbufs s \<Longrightarrow> same_data s t"
  unfolding same_data_def by (metis meta_id(1))

lemma same_data_trans: "same_data s t \<Longrightarrow> same_data t u \<Longrightarrow> same_data s u"
  unfolding same_data_def by (metis meta_id(2))

lemma same_data_meta: "same_data s (upd_meta pkt f s)"
  unfolding same_data_def
proof
  fix p
  show "\<exists>m. pk_mbufs (upd_meta pkt f s) p = (pk_mbufs s p)\<lparr>mb_meta := m\<rparr>"
    by (cases "p = pkt") (auto simp: upd_meta_def intro: exI [where x = "mb_meta (pk_mbufs s p)"])
qed

lemma fill_key_meta: "onvm_ft_fill_key (m\<lparr>mb_meta := x\<rparr>) = onvm_ft_fill_key m"
proof -
  have h: "onvm_pkt_ipv4_hdr (m\<lparr>mb_meta := x\<rparr>) = onvm_pkt_ipv4_hdr m" by (simp add: onvm_pkt_ipv4_hdr_def)
  have p: "ports_at (m\<lparr>mb_meta := x\<rparr>) = ports_at m" by (rule ext) (simp add: ports_at_def split: option.split)
  show ?thesis
    by (simp add: onvm_ft_fill_key_def onvm_pkt_is_ipv4_def onvm_pkt_tcp_hdr_def onvm_pkt_udp_hdr_def l4_hdr_def h p cong: if_cong option.case_cong)
qed

lemma lookup_meta: "onvm_ft_lookup_pkt api ft (m\<lparr>mb_meta := x\<rparr>) = onvm_ft_lookup_pkt api ft m"
  by (simp add: onvm_ft_lookup_pkt_def fill_key_meta cong: sum.case_cong)

lemma chain_stable:
  assumes "same_config s t" "same_data s t"
  shows "chain_of_pkt env t pkt = chain_of_pkt env s pkt"
proof -
  obtain m where "pk_mbufs t pkt = (pk_mbufs s pkt)\<lparr>mb_meta := m\<rparr>" using assms(2) by (auto simp: same_data_def)
  then show ?thesis
    using assms(1) by (simp add: chain_of_pkt_def onvm_flow_dir_get_pkt_def lookup_meta same_config_def cong: if_cong)
qed

text \<open>The chain of the packet has a first step, and its destination is a service of the table.\<close>

definition routable :: "('q, 'h) pkt_env \<Rightarrow> ('q, 'mq, 'h) pkt_state \<Rightarrow> nat \<Rightarrow> bool" where
  "routable env s pkt \<longleftrightarrow> (case chain_of_pkt env s pkt of
      None \<Rightarrow> False
    | Some c \<Rightarrow> onvm_next_action c 0 \<noteq> None
        \<and> (case onvm_next_destination c 0 of None \<Rightarrow> False | Some d \<Rightarrow> unat d < length (pk_counts s)))"

lemma rx_packets_spec:
  assumes "rte_ring (pe_ring env) items room"
  shows "bufs_ok qm \<Longrightarrow> tables_ok s \<Longrightarrow> \<forall>pkt \<in> set pkts. routable env s pkt \<Longrightarrow>
    \<exists>qm' s'. rx_packets env pkts (qm, s) = Some (qm', s') \<and> held items (qm', s') = held items (qm, s) + mset pkts
      \<and> bufs_ok qm' \<and> same_config s s' \<and> same_data s s' \<and> qm_side qm' = qm_side qm"
proof (induction pkts arbitrary: qm s)
  case Nil
  then show ?case using same_data_mbufs by auto
next
  case (Cons pkt pkts)
  let ?s1 = "upd_meta pkt (\<lambda>m. m\<lparr>src := 0, chain_index := 0\<rparr>) s"
  obtain c a d where c: "chain_of_pkt env s pkt = Some c" "onvm_next_action c 0 = Some a" "onvm_next_destination c 0 = Some d"
    "unat d < length (pk_counts s)"
    using Cons.prems(3) by (auto simp: routable_def split: option.splits)
  let ?s2 = "upd_meta pkt (\<lambda>m. m\<lparr>action := a, destination := d\<rparr>) ?s1"
  let ?s3 = "inc_chain_index pkt ?s2"
  have meta1: "chain_index (meta_of ?s1 pkt) = 0" by (simp add: meta_of_def upd_meta_def)
  have chain1: "chain_of_pkt env ?s1 pkt = Some c"
    by (simp add: chain_stable [OF upd_meta_frame(2) same_data_meta] c(1))
  have next2: "set_next c pkt ?s1 = Some ?s2"
    using c(2,3) by (simp add: set_next_def onvm_sc_next_action_def onvm_sc_next_destination_def meta1)
  have dest: "destination (meta_of ?s2 pkt) = d" by (simp add: meta_of_def upd_meta_def)
  have config3: "same_config s ?s3" by (intro config_steps same_config_refl)
  have data3: "same_data s ?s3" by (intro same_data_trans [OF same_data_trans, OF same_data_meta same_data_meta same_data_meta])
  have ok3: "tables_ok ?s3" by (rule same_config_tables [OF config3 Cons.prems(2)])
  have "unat d < length (pk_counts ?s3)" using c(4) config3 by (simp add: same_config_def)
  from enqueue_nf_spec [OF assms Cons.prems(1) ok3 this, of pkt None] obtain qm4 s4 where
    e: "onvm_pkt_enqueue_nf env d pkt None (qm, ?s3) = Some (qm4, s4)" "held items (qm4, s4) = add_mset pkt (held items (qm, ?s3))"
    "bufs_ok qm4" "same_config ?s3 s4" "pk_mbufs s4 = pk_mbufs ?s3" "qm_side qm4 = qm_side qm" by blast
  have held3: "held items (qm, ?s3) = held items (qm, s)" by (simp add: held_def pkt_frames)
  have config4: "same_config s s4" by (rule same_config_trans [OF config3 e(4)])
  have data4: "same_data s s4" by (rule same_data_trans [OF data3 same_data_mbufs [OF e(5)]])
  have "routable env s4 p = routable env s p" for p
    using chain_stable [OF config4 data4] config4 by (simp add: routable_def same_config_def cong: option.case_cong)
  then have "\<forall>pkt \<in> set pkts. routable env s4 pkt" using Cons.prems(3) by simp
  from Cons.IH [OF e(3) same_config_tables [OF config4 Cons.prems(2)] this] obtain qm' s' where
    g: "rx_packets env pkts (qm4, s4) = Some (qm', s')" "held items (qm', s') = held items (qm4, s4) + mset pkts"
    "bufs_ok qm'" "same_config s4 s'" "same_data s4 s'" "qm_side qm' = qm_side qm4" by blast
  have "rx_packets env (pkt # pkts) (qm, s) = Some (qm', s')"
    using chain1 next2 dest e(1) g(1) by simp
  then show ?case using g(2-6) e(2,6) held3 same_config_trans [OF config4 g(4)] same_data_trans [OF data4] by simp
qed

text \<open>
  The receive path loses and duplicates nothing: with routable packets and consistent tables, processing a batch
  always returns, and afterwards every packet of the batch, with every packet that was held before, is in
  exactly one place: a batch towards an NF, a ring, the freed ones or the NIC. No batch of a running NF keeps packets,
  and no batch is full, so the arrays are never overrun.
\<close>

lemma rx_batch_spec:
  assumes "rte_ring (pe_ring env) items room" and "bufs_ok qm" and "tables_ok s"
    and "\<forall>pkt \<in> set pkts. routable env s pkt"
  shows "\<exists>qm' s'. onvm_pkt_process_rx_batch env pkts (qm, s) = Some (qm', s')
    \<and> held items (qm', s') = held items (qm, s) + mset pkts \<and> bufs_ok qm' \<and> tables_ok s' \<and> same_config s s' \<and> same_data s s'
    \<and> qm_side qm' = qm_side qm
    \<and> (\<forall>i < MAX_NFS. onvm_nf_is_valid (pk_nfs s ! i) \<longrightarrow> buf_items (nf_rx_bufs qm' ! i) = [])"
proof -
  obtain qm1 s1 where r: "rx_packets env pkts (qm, s) = Some (qm1, s1)" "held items (qm1, s1) = held items (qm, s) + mset pkts"
    "bufs_ok qm1" "same_config s s1" "same_data s s1" "qm_side qm1 = qm_side qm" using rx_packets_spec [OF assms] by blast
  have ok1: "tables_ok s1" by (rule same_config_tables [OF r(4) assms(3)])
  obtain qm' s' where f: "onvm_pkt_flush_all_nfs env None (qm1, s1) = Some (qm', s')" "held items (qm', s') = held items (qm1, s1)"
    "bufs_ok qm'" "same_config s1 s'" "pk_mbufs s' = pk_mbufs s1" "qm_side qm' = qm_side qm1"
    "\<forall>i < MAX_NFS. buf_items (nf_rx_bufs qm' ! i) = (if i \<in> set [0..<MAX_NFS] \<and> onvm_nf_is_valid (pk_nfs s1 ! i) then [] else buf_items (nf_rx_bufs qm1 ! i))"
    using flush_nfs_spec [OF assms(1) r(3) ok1, of "[0..<MAX_NFS]" None] by (auto simp: onvm_pkt_flush_all_nfs_def)
  have "onvm_nf_is_valid (pk_nfs s1 ! i) = onvm_nf_is_valid (pk_nfs s ! i)" if "i < MAX_NFS" for i
    using same_config_nf(1) [OF r(4), of i] assms(3) that by (simp add: onvm_nf_is_valid_def tables_ok_def)
  then have "\<forall>i < MAX_NFS. onvm_nf_is_valid (pk_nfs s ! i) \<longrightarrow> buf_items (nf_rx_bufs qm' ! i) = []" using f(7) by simp
  then show ?thesis
    using r f same_config_tables [OF f(4) ok1] same_config_trans [OF r(4) f(4)] same_data_trans [OF r(5) same_data_mbufs [OF f(5)]]
    by (simp add: onvm_pkt_process_rx_batch_def)
qed

section \<open>The transmit path\<close>

definition is_mgr :: "mgr_side \<Rightarrow> bool" where
  "is_mgr q = (case q of MGR_side _ \<Rightarrow> True | NF_side _ \<Rightarrow> False)"

definition side_ok :: "('q, 'mq, 'h) pkt_state \<Rightarrow> mgr_side \<Rightarrow> bool" where
  "side_ok s q \<longleftrightarrow> (case q of
      MGR_side info \<Rightarrow> length (port_tx_bufs info) = length (port_init (pk_ports s)) \<and> (\<forall>b \<in> set (port_tx_bufs info). buf_room b)
        \<and> length (port_tx (pk_ports s)) = length (port_init (pk_ports s))
        \<and> length (port_tx_drop (pk_ports s)) = length (port_init (pk_ports s))
    | NF_side b \<Rightarrow> buf_room b)"

text \<open>The NF on whose behalf packets are moved, if there is one, has its TX ring.\<close>

primrec nf_sends :: "nat option \<Rightarrow> ('q, 'mq, 'h) pkt_state \<Rightarrow> bool" where
  "nf_sends None s \<longleftrightarrow> True"
| "nf_sends (Some i) s \<longleftrightarrow> i < MAX_NFS \<and> nf_tx_q (pk_nfs s ! i) \<noteq> None"

definition cfg_ok :: "nat option \<Rightarrow> ('q, 'mq, 'h) pkt_cfg \<Rightarrow> bool" where
  "cfg_ok nf c \<longleftrightarrow> bufs_ok (fst c) \<and> tables_ok (snd c) \<and> side_ok (snd c) (qm_side (fst c))
     \<and> nf_sends nf (snd c)"

text \<open>The documented bound of \<^verbatim>\<open>rte_eth_tx_burst\<close>: it takes at most what it was given.\<close>

definition nic_ok :: "('q, 'h) pkt_env \<Rightarrow> bool" where
  "nic_ok env \<longleftrightarrow> (\<forall>log port q ps. unat (pe_tx_burst env log port q ps) \<le> length ps)"

text \<open>Taking care of one packet: it is held once more, and nothing else about the configuration changes.\<close>

definition takes :: "('q \<Rightarrow> nat list) \<Rightarrow> nat option \<Rightarrow> nat multiset \<Rightarrow> nat \<Rightarrow> ('q, 'mq, 'h) pkt_cfg \<Rightarrow> ('q, 'mq, 'h) pkt_cfg \<Rightarrow> bool" where
  "takes items nf new pkt c c' \<longleftrightarrow> held items c' = held items c + new \<and> cfg_ok nf c' \<and> same_config (snd c) (snd c')
     \<and> is_mgr (qm_side (fst c')) = is_mgr (qm_side (fst c)) \<and> (\<forall>p. p \<noteq> pkt \<longrightarrow> pk_mbufs (snd c') p = pk_mbufs (snd c) p)"

lemma cfg_ok_config: "cfg_ok nf (qm, s) \<Longrightarrow> same_config s t \<Longrightarrow> cfg_ok nf (qm, t)"
  using same_config_tables [of s t] same_config_nf(3) [of s t "the nf"]
  by (cases nf) (auto simp: cfg_ok_def side_ok_def same_config_def tables_ok_def split: mgr_side.splits)

lemma takes_trans:
  "takes items nf m1 pkt c c1 \<Longrightarrow> takes items nf m2 pkt c1 c2 \<Longrightarrow> takes items nf (m1 + m2) pkt c c2"
  by (auto simp: takes_def intro: same_config_trans)

text \<open>Updates of counters and of the packet's own metadata.\<close>

lemma takes_frame:
  assumes "cfg_ok nf (qm, s)"
  shows "takes items nf {#} pkt (qm, s) (qm, upd_stats n f s)" "takes items nf {#} pkt (qm, s) (qm, upd_meta pkt g s)"
    "takes items nf {#pkt#} pkt (qm, s) (qm, snd (onvm_pkt_drop pkt s))"
proof -
  have e: "snd (onvm_pkt_drop pkt s) = free_all [pkt] s" by (simp add: onvm_pkt_drop_def free_all_def)
  show "takes items nf {#} pkt (qm, s) (qm, upd_stats n f s)" "takes items nf {#} pkt (qm, s) (qm, upd_meta pkt g s)"
    "takes items nf {#pkt#} pkt (qm, s) (qm, snd (onvm_pkt_drop pkt s))"
    using assms cfg_ok_config [OF assms] unfolding e takes_def
    by (simp_all add: held_def pkt_frames) (simp add: upd_meta_def)
qed

lemma enqueue_nf_takes:
  assumes "rte_ring (pe_ring env) items room" "cfg_ok (Some nf) (qm, s)" "unat sid < length (pk_counts s)"
  shows "\<exists>c'. onvm_pkt_enqueue_nf env sid pkt source_nf (qm, s) = Some c' \<and> takes items (Some nf) {#pkt#} pkt (qm, s) c'"
proof -
  have ok: "bufs_ok qm" "tables_ok s" using assms(2) by (simp_all add: cfg_ok_def)
  obtain qm' s' where e: "onvm_pkt_enqueue_nf env sid pkt source_nf (qm, s) = Some (qm', s')"
    "held items (qm', s') = add_mset pkt (held items (qm, s))" "bufs_ok qm'" "same_config s s'" "pk_mbufs s' = pk_mbufs s"
    "qm_side qm' = qm_side qm"
    using enqueue_nf_spec [OF assms(1) ok assms(3), of pkt source_nf] by blast
  have "cfg_ok (Some nf) (qm', s')" using cfg_ok_config [OF assms(2) e(4)] e(3,6) by (simp add: cfg_ok_def)
  then show ?thesis using e by (simp add: takes_def)
qed

lemma snd_pairs [simp]: "image_mset snd (image_mset (Pair a) M) = M"
  by (simp add: multiset.map_comp comp_def)

text \<open>Flushing the batch of a port: a prefix goes to the NIC, the rest is freed.\<close>

lemma flush_port_takes:
  assumes nic: "nic_ok env" and side: "qm_side qm = MGR_side info" and ok: "bufs_ok qm" "tables_ok s" "nf_sends nf s"
    and lens: "length (port_tx_bufs info) = length (port_init (pk_ports s))" "length (port_tx (pk_ports s)) = length (port_init (pk_ports s))"
      "length (port_tx_drop (pk_ports s)) = length (port_init (pk_ports s))"
    and p: "port < length (port_init (pk_ports s))" and b: "buf_wf (port_tx_bufs info ! port)"
    and others: "\<forall>j < length (port_tx_bufs info). j \<noteq> port \<longrightarrow> buf_room (port_tx_bufs info ! j)"
  shows "\<exists>c'. onvm_pkt_flush_port_queue env port (qm, s) = Some c' \<and> takes items nf {#} pkt (qm, s) c'"
proof -
  let ?b = "port_tx_bufs info ! port" and ?ps = "buf_items (port_tx_bufs info ! port)"
  let ?bs = "(port_tx_bufs info)[port := ?b\<lparr>pb_count := 0\<rparr>]"
  let ?sent = "pe_tx_burst env (pk_sent s) port (qm_id qm) ?ps"
  have zero: "buf_room (?b\<lparr>pb_count := 0\<rparr>)" using b by (simp add: buf_room_def buf_wf_def onvm_limits)
  have all: "\<forall>b \<in> set ?bs. buf_room b"
    using others zero by (auto simp: all_set_conv_all_nth nth_update_if)
  have lp: "port < length (port_tx_bufs info)" using p lens by simp
  show ?thesis
  proof (cases "pb_count ?b = 0")
    case True
    then have "?b\<lparr>pb_count := 0\<rparr> = ?b" by simp
    then have "?bs = port_tx_bufs info" by (metis list_update_id)
    then have "cfg_ok nf (qm, s)" using all side ok lens by (simp add: cfg_ok_def side_ok_def)
    then show ?thesis using True side lp by (simp add: onvm_pkt_flush_port_queue_def takes_def)
  next
    case False
    have len: "length ?ps = unat (pb_count ?b)" using b by (simp add: buf_items_def buf_wf_def)
    have sent: "unat ?sent \<le> length ?ps" using nic by (simp add: nic_ok_def)
    obtain s' where s': "onvm_pkt_flush_port_queue env port (qm, s) = Some (qm\<lparr>qm_side := MGR_side (info\<lparr>port_tx_bufs := ?bs\<rparr>)\<rparr>, s')"
      and f: "state_held items s' = state_held items s + mset ?ps" "same_config s s'" "pk_mbufs s' = pk_mbufs s"
    proof (cases "?sent < pb_count ?b")
      case True
      then show thesis
        using that False side lp p lens by (simp add: onvm_pkt_flush_port_queue_def Let_def free_all_def state_held_def
            same_config_def comp_def mset_take_drop [of "unat ?sent" ?ps, symmetric] algebra_simps)
    next
      case no: False
      then have "take (unat ?sent) ?ps = ?ps" using len sent by (simp add: word_less_nat_alt)
      then show thesis
        using that no False side lp p lens by (simp add: onvm_pkt_flush_port_queue_def Let_def state_held_def same_config_def comp_def)
    qed
    let ?qm = "qm\<lparr>qm_side := MGR_side (info\<lparr>port_tx_bufs := ?bs\<rparr>)\<rparr>"
    have "cfg_ok nf (?qm, s)" using all ok lens by (simp add: cfg_ok_def side_ok_def bufs_ok_def)
    then have "cfg_ok nf (?qm, s')" using cfg_ok_config f(2) by blast
    moreover have "held items (?qm, s') = held items (qm, s)"
      using bufs_held_clear [OF lp] f(1) side by (simp add: held_def side_held_def algebra_simps)
    ultimately show ?thesis using s' f side by (auto simp: takes_def is_mgr_def)
  qed
qed

lemma side_held_push:
  assumes "port < length (port_tx_bufs info)" "mset (buf_items b) = add_mset pkt (mset (buf_items (port_tx_bufs info ! port)))"
  shows "side_held (MGR_side (info\<lparr>port_tx_bufs := (port_tx_bufs info)[port := b]\<rparr>)) = add_mset pkt (side_held (MGR_side info))"
  using bufs_held_push [OF assms] by (simp add: side_held_def)

lemma enqueue_port_takes:
  assumes nic: "nic_ok env" and ok: "cfg_ok (Some nf) (qm, s)" and side: "is_mgr (qm_side qm)"
    and p: "port < length (port_init (pk_ports s))" "port_init (pk_ports s) ! port \<noteq> 0"
  shows "\<exists>c'. onvm_pkt_enqueue_port env port pkt (qm, s) = Some c' \<and> takes items (Some nf) {#pkt#} pkt (qm, s) c'"
proof -
  obtain info where info: "qm_side qm = MGR_side info" using side by (auto simp: is_mgr_def split: mgr_side.splits)
  have so: "length (port_tx_bufs info) = length (port_init (pk_ports s))" "\<forall>b \<in> set (port_tx_bufs info). buf_room b"
    "length (port_tx (pk_ports s)) = length (port_init (pk_ports s))" "length (port_tx_drop (pk_ports s)) = length (port_init (pk_ports s))"
    using ok info by (simp_all add: cfg_ok_def side_ok_def)
  have lp: "port < length (port_tx_bufs info)" using p so by simp
  obtain b where b: "buf_push (port_tx_bufs info ! port) pkt = Some b"
    "mset (buf_items b) = add_mset pkt (mset (buf_items (port_tx_bufs info ! port)))" "buf_wf b"
    using buf_push_room [of "port_tx_bufs info ! port" pkt] so(2) lp nth_mem by blast
  let ?info = "info\<lparr>port_tx_bufs := (port_tx_bufs info)[port := b]\<rparr>"
  let ?qm1 = "qm\<lparr>qm_side := MGR_side ?info\<rparr>"
  have h1: "held items (?qm1, s) = add_mset pkt (held items (qm, s))"
    using side_held_push [OF lp b(2)] info by (simp add: held_def)
  have step: "onvm_pkt_enqueue_port env port pkt (qm, s) =
      (if unat (pb_count b) = PACKET_READ_SIZE then onvm_pkt_flush_port_queue env port (?qm1, s) else Some (?qm1, s))"
    using p lp b(1) info by (simp add: onvm_pkt_enqueue_port_def)
  show ?thesis
  proof (cases "unat (pb_count b) = PACKET_READ_SIZE")
    case True
    have "\<forall>j < length (port_tx_bufs ?info). j \<noteq> port \<longrightarrow> buf_room (port_tx_bufs ?info ! j)"
      using so(2) by (auto simp: nth_update_if)
    then obtain c' where f: "onvm_pkt_flush_port_queue env port (?qm1, s) = Some c'" "takes items (Some nf) {#} pkt (?qm1, s) c'"
      using flush_port_takes [OF nic, of ?qm1 ?info s "Some nf" port items pkt] ok so p b(3) lp by (auto simp: cfg_ok_def bufs_ok_def)
    then show ?thesis using step True h1 info by (simp add: takes_def is_mgr_def)
  next
    case False
    then have "buf_room b" using b(3) by (simp add: buf_room_def buf_wf_def)
    then have "\<forall>b \<in> set (port_tx_bufs ?info). buf_room b" using so(2) by (auto dest: set_update_subset_insert [THEN subsetD])
    then have "cfg_ok (Some nf) (?qm1, s)" using ok so by (simp add: cfg_ok_def side_ok_def bufs_ok_def)
    then show ?thesis using step False h1 info by (simp add: takes_def is_mgr_def)
  qed
qed

text \<open>An NF's own batch towards its TX thread.\<close>

lemma batch_out_nf_takes:
  assumes ring: "rte_ring (pe_ring env) items room" and ok: "cfg_ok (Some nf) (qm, s)" and side: "qm_side qm = NF_side b"
  shows "\<exists>c'. batch_out env pkt nf (qm, s) = Some c' \<and> takes items (Some nf) {#pkt#} pkt (qm, s) c'"
proof -
  have room: "buf_room b" and i: "nf < length (pk_nfs s)" using ok side by (simp_all add: cfg_ok_def side_ok_def tables_ok_def)
  obtain b1 where b1: "buf_push b pkt = Some b1" "mset (buf_items b1) = add_mset pkt (mset (buf_items b))" "buf_wf b1"
    "unat (pb_count b1) = Suc (unat (pb_count b))"
    using buf_push_room [OF room, of pkt] by blast
  let ?s1 = "upd_stats (Some nf) (\<lambda>st. st\<lparr>st_act_out := st_act_out st + 1\<rparr>) s"
  have ok1: "cfg_ok (Some nf) (qm, ?s1)" by (rule cfg_ok_config [OF ok upd_stats_frame(2)])
  show ?thesis
  proof (cases "unat (pb_count b1) = PACKET_READ_SIZE")
    case False
    then have "buf_room b1" using b1(3) by (simp add: buf_room_def buf_wf_def)
    then have "cfg_ok (Some nf) (qm\<lparr>qm_side := NF_side b1\<rparr>, ?s1)" using ok1 by (simp add: cfg_ok_def side_ok_def bufs_ok_def)
    then show ?thesis using False b1 side by (simp add: batch_out_def takes_def is_mgr_def held_def side_held_def pkt_frames)
  next
    case True
    obtain q where q: "nf_tx_q (pk_nfs ?s1 ! nf) = Some q" using ok1 by (auto simp: cfg_ok_def)
    have i1: "nf < length (pk_nfs ?s1)" using ok1 by (simp add: cfg_ok_def tables_ok_def)
    obtain r q' where e: "ring_enqueue_bulk (pe_ring env) q (buf_items b1) = (r, q')" by (metis surj_pair)
    have ne: "buf_items b1 \<noteq> []" "pb_count b1 \<noteq> 0" using b1(2,4) by auto
    let ?s2 = "?s1\<lparr>pk_nfs := (pk_nfs ?s1)[nf := (pk_nfs ?s1 ! nf)\<lparr>nf_tx_q := Some q'\<rparr>]\<rparr>"
    let ?s3 = "account_tx r (buf_items b1) (ucast (pb_count b1)) nf ?s2"
    let ?c = "(qm\<lparr>qm_side := NF_side (b1\<lparr>pb_count := 0\<rparr>)\<rparr>, ?s3)"
    have step: "batch_out env pkt nf (qm, s) = Some ?c"
      using side b1(1) True ne q e i1 by (simp add: batch_out_def onvm_pkt_enqueue_tx_thread_def Let_def)
    have "state_held items ?s3 = state_held items ?s1 + mset (buf_items b1)"
      by (rule mset_balance [OF state_held_tx_q [OF i1 q] enqueue_or_free [OF ring e ne(1)]]) (simp add: account_frame)
    then have h: "held items ?c = add_mset pkt (held items (qm, s))"
      using b1(2) side by (simp add: held_def side_held_def pkt_frames buf_items_def)
    have config: "same_config s ?s3"
      using same_config_trans [OF upd_stats_frame(2) same_config_trans [OF set_ring_config(2) [OF q] account_frame(5)]] .
    have "buf_room (b1\<lparr>pb_count := 0\<rparr>)" using b1(3) by (simp add: buf_room_def buf_wf_def onvm_limits)
    then have "cfg_ok (Some nf) ?c" using cfg_ok_config [OF ok config] by (simp add: cfg_ok_def side_ok_def bufs_ok_def)
    then show ?thesis using step h config side by (simp add: takes_def is_mgr_def pkt_frames)
  qed
qed

text \<open>
  A step with an outcome: drop, a service of the table, or (for a TX thread) an initialised port. A packet an NF returns
  is sendable when its own action, or the next one of its chain, is such a step.
\<close>

definition dest_ok :: "('q, 'mq, 'h) pkt_state \<Rightarrow> bool \<Rightarrow> u8 \<Rightarrow> u16 \<Rightarrow> bool" where
  "dest_ok s mgr a d \<longleftrightarrow> a = ONVM_NF_ACTION_DROP \<or> a = ONVM_NF_ACTION_TONF \<and> unat d < length (pk_counts s)
     \<or> a = ONVM_NF_ACTION_OUT \<and> mgr \<and> unat d < length (port_init (pk_ports s)) \<and> port_init (pk_ports s) ! unat d \<noteq> 0"

definition sendable :: "('q, 'h) pkt_env \<Rightarrow> ('q, 'mq, 'h) pkt_state \<Rightarrow> bool \<Rightarrow> nat \<Rightarrow> bool" where
  "sendable env s mgr pkt \<longleftrightarrow>
     (let m = meta_of s pkt in
      if action m = ONVM_NF_ACTION_NEXT then
        (case chain_of_pkt env s pkt of
           None \<Rightarrow> False
         | Some c \<Rightarrow>
             (case (onvm_sc_next_action c m, onvm_sc_next_destination c m) of
                (Some a, Some d) \<Rightarrow> dest_ok s mgr a d | _ \<Rightarrow> False))
      else dest_ok s mgr (action m) (destination m) \<or> action m = ONVM_NF_ACTION_OUT \<and> \<not> mgr)"

lemma next_action_takes:
  assumes ring: "rte_ring (pe_ring env) items room" and nic: "nic_ok env" and ok: "cfg_ok (Some nf) (qm, s)"
    and c: "chain_of_pkt env s pkt = Some c" "onvm_sc_next_action c (meta_of s pkt) = Some a"
      "onvm_sc_next_destination c (meta_of s pkt) = Some d" "dest_ok s (is_mgr (qm_side qm)) a d"
  shows "\<exists>c'. onvm_pkt_process_next_action env pkt nf (qm, s) = Some c' \<and> takes items (Some nf) {#pkt#} pkt (qm, s) c'"
proof -
  let ?s1 = "upd_meta pkt (\<lambda>m. m\<lparr>action := a, destination := d\<rparr>) s"
  let ?m = "if a = ONVM_NF_ACTION_DROP then Some (qm, upd_stats (Some nf) (\<lambda>st. st\<lparr>st_act_drop := st_act_drop st + 0\<rparr>) (snd (onvm_pkt_drop pkt ?s1)))
     else if a = ONVM_NF_ACTION_TONF then onvm_pkt_enqueue_nf env d pkt (Some nf) (qm, upd_stats (Some nf) (\<lambda>st. st\<lparr>st_act_tonf := st_act_tonf st + 1\<rparr>) ?s1)
     else if a = ONVM_NF_ACTION_OUT then onvm_pkt_enqueue_port env (unat d) pkt (qm, upd_stats (Some nf) (\<lambda>st. st\<lparr>st_act_out := st_act_out st + 1\<rparr>) ?s1)
     else Some (qm, ?s1)"
  have unf: "onvm_pkt_process_next_action env pkt nf (qm, s) = Option.bind ?m (\<lambda>(qm2, s2). Some (qm2, inc_chain_index pkt s2))"
    using c(1-3) by (simp add: onvm_pkt_process_next_action_def set_next_def onvm_pkt_drop_def)
  have t1: "takes items (Some nf) {#} pkt (qm, s) (qm, ?s1)" by (rule takes_frame(2) [OF ok])
  have ok1: "cfg_ok (Some nf) (qm, ?s1)" using t1 by (simp add: takes_def)
  have stats: "takes items (Some nf) {#} pkt (qm, s) (qm, upd_stats (Some nf) f ?s1)" "cfg_ok (Some nf) (qm, upd_stats (Some nf) f ?s1)"
    "same_config s (upd_stats (Some nf) f ?s1)" for f
    using takes_trans [OF t1 takes_frame(1) [OF ok1, of items pkt "Some nf" f]] by (simp_all add: takes_def)
  have "\<exists>c'. ?m = Some c' \<and> takes items (Some nf) {#pkt#} pkt (qm, s) c'"
  proof -
    consider (drop) "a = ONVM_NF_ACTION_DROP" | (tonf) "a = ONVM_NF_ACTION_TONF" "unat d < length (pk_counts s)"
      | (out) "a = ONVM_NF_ACTION_OUT" "is_mgr (qm_side qm)" "unat d < length (port_init (pk_ports s))" "port_init (pk_ports s) ! unat d \<noteq> 0"
      using c(4) by (auto simp: dest_ok_def)
    then show ?thesis
    proof cases
      case drop
      have "takes items (Some nf) {#pkt#} pkt (qm, s) (qm, snd (onvm_pkt_drop pkt ?s1))" using takes_trans [OF t1 takes_frame(3) [OF ok1]] by simp
      moreover from this have "cfg_ok (Some nf) (qm, snd (onvm_pkt_drop pkt ?s1))" by (simp add: takes_def)
      ultimately show ?thesis using takes_trans [OF _ takes_frame(1)] drop by fastforce
    next
      case tonf
      let ?f = "\<lambda>st :: onvm_nf_stats. st\<lparr>st_act_tonf := st_act_tonf st + 1\<rparr>"
      have "unat d < length (pk_counts (upd_stats (Some nf) ?f ?s1))" using tonf(2) stats(3) [of ?f] by (simp add: same_config_def)
      from enqueue_nf_takes [OF ring stats(2) this, of pkt "Some nf"] show ?thesis
        using takes_trans [OF stats(1) [of ?f]] tonf(1) by fastforce
    next
      case out
      let ?f = "\<lambda>st :: onvm_nf_stats. st\<lparr>st_act_out := st_act_out st + 1\<rparr>"
      have "unat d < length (port_init (pk_ports (upd_stats (Some nf) ?f ?s1)))" "port_init (pk_ports (upd_stats (Some nf) ?f ?s1)) ! unat d \<noteq> 0"
        using out(3,4) stats(3) [of ?f] by (simp_all add: same_config_def)
      from enqueue_port_takes [OF nic stats(2) out(2) this, of pkt items] show ?thesis
        using takes_trans [OF stats(1) [of ?f]] out(1) by fastforce
    qed
  qed
  then obtain qm2 s2 where m2: "?m = Some (qm2, s2)" "takes items (Some nf) {#pkt#} pkt (qm, s) (qm2, s2)" by auto
  have "cfg_ok (Some nf) (qm2, s2)" using m2(2) by (simp add: takes_def)
  from takes_trans [OF m2(2) takes_frame(2) [OF this]] show ?thesis using unf m2(1) by simp
qed

lemma sendable_step:
  assumes "takes items (Some nf) m pkt (qm, s) (qm', s')" "p \<noteq> pkt"
  shows "sendable env s' (is_mgr (qm_side qm')) p = sendable env s (is_mgr (qm_side qm)) p"
proof -
  have e: "pk_mbufs s' p = pk_mbufs s p" "same_config s s'" "is_mgr (qm_side qm') = is_mgr (qm_side qm)"
    using assms by (simp_all add: takes_def)
  then have "meta_of s' p = meta_of s p" "chain_of_pkt env s' p = chain_of_pkt env s p" "dest_ok s' = dest_ok s"
    by (simp_all add: meta_of_def chain_of_pkt_def same_config_def dest_ok_def fun_eq_iff cong: if_cong)
  then show ?thesis unfolding sendable_def by (simp only: e(3))
qed

text \<open>One packet of a batch, as the loop body of \<^verbatim>\<open>onvm_pkt_process_tx_batch\<close> treats it.\<close>

lemma tx_batch_one:
  assumes ring: "rte_ring (pe_ring env) items room" and nic: "nic_ok env" and ok: "cfg_ok (Some nf) (qm, s)"
    and snd_ok: "sendable env s (is_mgr (qm_side qm)) pkt"
  shows "\<exists>c'. onvm_pkt_process_tx_batch env (pkt # pkts) nf (qm, s) = onvm_pkt_process_tx_batch env pkts nf c'
    \<and> takes items (Some nf) {#pkt#} pkt (qm, s) c'"
proof -
  let ?s1 = "upd_meta pkt (\<lambda>m. m\<lparr>src := nf_instance_id (pk_nfs s ! nf)\<rparr>) s"
  have len: "nf < length (pk_nfs s)" using ok by (simp add: cfg_ok_def tables_ok_def)
  have t1: "takes items (Some nf) {#} pkt (qm, s) (qm, ?s1)" by (rule takes_frame(2) [OF ok])
  have ok1: "cfg_ok (Some nf) (qm, ?s1)" using t1 by (simp add: takes_def)
  have stats: "takes items (Some nf) {#} pkt (qm, s) (qm, upd_stats (Some nf) f ?s1)" "cfg_ok (Some nf) (qm, upd_stats (Some nf) f ?s1)"
    "same_config s (upd_stats (Some nf) f ?s1)" for f
    using takes_trans [OF t1 takes_frame(1) [OF ok1, of items pkt "Some nf" f]] by (simp_all add: takes_def)
  have add: "takes items (Some nf) {#pkt#} pkt (qm, s) c'" if "takes items (Some nf) {#pkt#} pkt (qm, upd_stats (Some nf) f ?s1) c'" for f c'
    using takes_trans [OF stats(1) that] by simp
  let ?a = "action (meta_of s pkt)" and ?d = "destination (meta_of s pkt)"
  consider (drop) "?a = ONVM_NF_ACTION_DROP" | (nxt) c a d where "?a = ONVM_NF_ACTION_NEXT" "chain_of_pkt env s pkt = Some c"
      "onvm_sc_next_action c (meta_of s pkt) = Some a" "onvm_sc_next_destination c (meta_of s pkt) = Some d" "dest_ok s (is_mgr (qm_side qm)) a d"
    | (tonf) "?a = ONVM_NF_ACTION_TONF" "unat ?d < length (pk_counts s)"
    | (port) "?a = ONVM_NF_ACTION_OUT" "is_mgr (qm_side qm)" "unat ?d < length (port_init (pk_ports s))" "port_init (pk_ports s) ! unat ?d \<noteq> 0"
    | (thread) b where "?a = ONVM_NF_ACTION_OUT" "qm_side qm = NF_side b"
    using snd_ok by (auto simp: sendable_def dest_ok_def Let_def is_mgr_def split: if_splits option.splits mgr_side.splits)
  then show ?thesis
  proof cases
    case drop
    let ?s2 = "upd_stats (Some nf) (\<lambda>st. st\<lparr>st_act_drop := st_act_drop st + 1\<rparr>) ?s1"
    let ?s3 = "snd (onvm_pkt_drop pkt ?s2)"
    have t3: "takes items (Some nf) {#pkt#} pkt (qm, s) (qm, ?s3)" by (rule add [OF takes_frame(3) [OF stats(2)]])
    then have "cfg_ok (Some nf) (qm, ?s3)" by (simp add: takes_def)
    from takes_trans [OF t3 takes_frame(1) [OF this]] have
      "takes items (Some nf) {#pkt#} pkt (qm, s) (qm, upd_stats (Some nf) (\<lambda>st. st\<lparr>st_tx := st_tx st + (if (1 :: int) = 0 then 1 else 0)\<rparr>) ?s3)"
      by simp
    moreover have "onvm_pkt_process_tx_batch env (pkt # pkts) nf (qm, s) = onvm_pkt_process_tx_batch env pkts nf
        (qm, upd_stats (Some nf) (\<lambda>st. st\<lparr>st_tx := st_tx st + (if (1 :: int) = 0 then 1 else 0)\<rparr>) ?s3)"
      using drop len by (simp add: onvm_pkt_drop_def Let_def)
    ultimately show ?thesis by blast
  next
    case nxt
    let ?s2 = "upd_stats (Some nf) (\<lambda>st. st\<lparr>st_act_next := st_act_next st + 1\<rparr>) ?s1"
    have same: "same_data s ?s2" by (rule same_data_trans [OF same_data_meta same_data_mbufs [OF upd_stats_frame(3)]])
    have "meta_of ?s2 pkt = meta_of ?s1 pkt" by (simp only: meta_of_def upd_stats_frame(3))
    then have meta2: "meta_of ?s2 pkt = (meta_of s pkt)\<lparr>src := nf_instance_id (pk_nfs s ! nf)\<rparr>" by simp
    have c2: "chain_of_pkt env ?s2 pkt = Some c" "onvm_sc_next_action c (meta_of ?s2 pkt) = Some a"
      "onvm_sc_next_destination c (meta_of ?s2 pkt) = Some d" "dest_ok ?s2 (is_mgr (qm_side qm)) a d"
      using chain_stable [OF stats(3) same] meta2 nxt(2-5) stats(3) [of "\<lambda>st. st\<lparr>st_act_next := st_act_next st + 1\<rparr>"]
      by (simp_all add: onvm_sc_next_action_def onvm_sc_next_destination_def dest_ok_def same_config_def)
    obtain c' where n: "onvm_pkt_process_next_action env pkt nf (qm, ?s2) = Some c'" "takes items (Some nf) {#pkt#} pkt (qm, ?s2) c'"
      using next_action_takes [OF ring nic stats(2) c2] by blast
    then have "onvm_pkt_process_tx_batch env (pkt # pkts) nf (qm, s) = onvm_pkt_process_tx_batch env pkts nf c'"
      using nxt(1) len by simp
    then show ?thesis using add [OF n(2)] by blast
  next
    case tonf
    let ?f = "\<lambda>st :: onvm_nf_stats. st\<lparr>st_act_tonf := st_act_tonf st + 1\<rparr>"
    have "unat ?d < length (pk_counts (upd_stats (Some nf) ?f ?s1))" using tonf(2) stats(3) [of ?f] by (simp add: same_config_def)
    from enqueue_nf_takes [OF ring stats(2) this, of pkt "Some nf"] obtain c' where
      n: "onvm_pkt_enqueue_nf env ?d pkt (Some nf) (qm, upd_stats (Some nf) ?f ?s1) = Some c'"
        "takes items (Some nf) {#pkt#} pkt (qm, upd_stats (Some nf) ?f ?s1) c'" by blast
    then have "onvm_pkt_process_tx_batch env (pkt # pkts) nf (qm, s) = onvm_pkt_process_tx_batch env pkts nf c'"
      using tonf(1) len by simp
    then show ?thesis using add [OF n(2)] by blast
  next
    case port
    have "unat ?d < length (port_init (pk_ports ?s1))" "port_init (pk_ports ?s1) ! unat ?d \<noteq> 0" using port(3,4) by (simp_all add: upd_meta_def)
    from enqueue_port_takes [OF nic ok1 port(2) this, of pkt items] obtain c' where
      n: "onvm_pkt_enqueue_port env (unat ?d) pkt (qm, ?s1) = Some c'" "takes items (Some nf) {#pkt#} pkt (qm, ?s1) c'" by blast
    then have "onvm_pkt_process_tx_batch env (pkt # pkts) nf (qm, s) = onvm_pkt_process_tx_batch env pkts nf c'"
      using port(1,2) len by (simp add: batch_out_def is_mgr_def split: mgr_side.splits)
    moreover have "takes items (Some nf) {#pkt#} pkt (qm, s) c'" using takes_trans [OF t1 n(2)] by simp
    ultimately show ?thesis by blast
  next
    case thread
    from batch_out_nf_takes [OF ring ok1 thread(2), of pkt] obtain c' where
      n: "batch_out env pkt nf (qm, ?s1) = Some c'" "takes items (Some nf) {#pkt#} pkt (qm, ?s1) c'" by blast
    then have "onvm_pkt_process_tx_batch env (pkt # pkts) nf (qm, s) = onvm_pkt_process_tx_batch env pkts nf c'"
      using thread(1) len by simp
    moreover have "takes items (Some nf) {#pkt#} pkt (qm, s) c'" using takes_trans [OF t1 n(2)] by simp
    ultimately show ?thesis by blast
  qed
qed

text \<open>
  The transmit path, of a TX thread and of an NF that handles its own batch: when every packet of the batch has an
  action with an outcome (dropped, sent to a service of the table, out of an initialised port, or the like for the next step of
  its chain), processing returns and every packet is afterwards in exactly one place, with none lost and none freed twice.
\<close>

lemma tx_batch_takes:
  assumes "rte_ring (pe_ring env) items room" "nic_ok env"
  shows "cfg_ok (Some nf) (qm, s) \<Longrightarrow> distinct pkts \<Longrightarrow> \<forall>pkt \<in> set pkts. sendable env s (is_mgr (qm_side qm)) pkt \<Longrightarrow>
    \<exists>qm' s'. onvm_pkt_process_tx_batch env pkts nf (qm, s) = Some (qm', s')
      \<and> held items (qm', s') = held items (qm, s) + mset pkts \<and> cfg_ok (Some nf) (qm', s') \<and> same_config s s'
      \<and> (\<forall>p. p \<notin> set pkts \<longrightarrow> pk_mbufs s' p = pk_mbufs s p)"
proof (induction pkts arbitrary: qm s)
  case Nil
  then show ?case by simp
next
  case (Cons pkt pkts)
  have "sendable env s (is_mgr (qm_side qm)) pkt" using Cons.prems(3) by simp
  from tx_batch_one [OF assms Cons.prems(1) this, of pkts] obtain qm1 s1 where
    one: "onvm_pkt_process_tx_batch env (pkt # pkts) nf (qm, s) = onvm_pkt_process_tx_batch env pkts nf (qm1, s1)"
    and t: "takes items (Some nf) {#pkt#} pkt (qm, s) (qm1, s1)" by auto
  have ok1: "cfg_ok (Some nf) (qm1, s1)" and config1: "same_config s s1" and held1: "held items (qm1, s1) = held items (qm, s) + {#pkt#}"
    and mb1: "\<forall>p. p \<noteq> pkt \<longrightarrow> pk_mbufs s1 p = pk_mbufs s p"
    using t by (simp_all add: takes_def)
  have "\<forall>p \<in> set pkts. sendable env s1 (is_mgr (qm_side qm1)) p"
    using Cons.prems(2,3) sendable_step [OF t, of _ env] by (metis distinct.simps(2) list.set_intros(2))
  from Cons.IH [OF ok1 _ this] Cons.prems(2) obtain qm' s' where
    "onvm_pkt_process_tx_batch env pkts nf (qm1, s1) = Some (qm', s')" "held items (qm', s') = held items (qm1, s1) + mset pkts"
    "cfg_ok (Some nf) (qm', s')" "same_config s1 s'" "\<forall>p. p \<notin> set pkts \<longrightarrow> pk_mbufs s' p = pk_mbufs s1 p" by auto
  then show ?case using one held1 mb1 same_config_trans [OF config1] by auto
qed

text \<open>
  Where packets are lost: a packet that a TX thread sends to a port that is not initialised is neither queued nor
  freed, and a packet whose chain asks for \<^verbatim>\<open>ONVM_NF_ACTION_NEXT\<close> again is only counted.
\<close>

lemma dropped_without_free:
  assumes "port < length (port_init (pk_ports s))" and "port_init (pk_ports s) ! port = 0"
    and "chain_of_pkt env s pkt' = Some c" and "onvm_sc_next_action c (meta_of s pkt') = Some ONVM_NF_ACTION_NEXT"
    and "onvm_sc_next_destination c (meta_of s pkt') = Some d"
  shows "onvm_pkt_enqueue_port env port pkt (qm, s) = Some (qm, s)
    \<and> (\<exists>s'. onvm_pkt_process_next_action env pkt' nf (qm, s) = Some (qm, s') \<and> held items (qm, s') = held items (qm, s))"
  using assms by (simp add: onvm_pkt_enqueue_port_def onvm_pkt_process_next_action_def set_next_def held_def pkt_frames)

section \<open>A concrete configuration\<close>

text \<open>Two running NFs of service 1, a chain that sends packets there, one packet received on an idle manager.\<close>

definition demo_nf :: "u16 \<Rightarrow> (nat list_ring, nat list_ring) onvm_nf" where
  "demo_nf i = zero_nf\<lparr>nf_instance_id := i, nf_service_id := 1, nf_status := NF_RUNNING,
     nf_rx_q := Some \<lparr>lr_items = [], lr_room = 8\<rparr>, nf_tx_q := Some \<lparr>lr_items = [], lr_room = 8\<rparr>\<rparr>"

definition demo_pkt_env :: "(nat list_ring, (onvm_ft_ipv4_5tuple \<times> nat) list) pkt_env" where
  "demo_pkt_env = \<lparr>pe_ring = list_ring_api, pe_hash = list_hash_api 4, pe_tx_burst = (\<lambda>_ _ _ ps. of_nat (length ps))\<rparr>"

definition demo_pkt_state :: "(nat list_ring, nat list_ring, (onvm_ft_ipv4_5tuple \<times> nat) list) pkt_state" where
  "demo_pkt_state = \<lparr>pk_nfs = zero_nf # demo_nf 1 # demo_nf 2 # replicate 125 zero_nf,
     pk_services = [[0, 0], [1, 2]], pk_counts = [0, 2],
     default_chain = \<lparr>sc = [zero_entry, \<lparr>entry_destination = 1, entry_action = ONVM_NF_ACTION_TONF\<rparr>, zero_entry, zero_entry],
       chain_length = 1, ref_cnt = 0\<rparr>,
     pk_flow_dir = demo_flow_dir\<lparr>sdn_ft := (sdn_ft demo_flow_dir)\<lparr>ft_hash := []\<rparr>\<rparr>,
     pk_mbufs = (\<lambda>_. demo_pkt), pk_ports = \<lparr>num_ports = 1, port_id = [0], port_init = [1], port_rx = [0], port_tx = [0], port_tx_drop = [0]\<rparr>,
     pk_freed = [], pk_sent = []\<rparr>"

definition demo_qm :: queue_mgr where
  "demo_qm = \<lparr>qm_id = 0,
     qm_side = MGR_side \<lparr>first_nf = 0, last_nf = 128, port_tx_bufs = [\<lparr>pb_buffer = replicate 32 0, pb_count = 0\<rparr>]\<rparr>,
     nf_rx_bufs = replicate 128 \<lparr>pb_buffer = replicate 32 0, pb_count = 0\<rparr>\<rparr>"

lemma demo_cfg: "bufs_ok demo_qm" "tables_ok demo_pkt_state" "\<forall>pkt \<in> set [7, 9]. routable demo_pkt_env demo_pkt_state pkt"
proof -
  show "bufs_ok demo_qm" by (simp add: bufs_ok_def demo_qm_def buf_room_def onvm_limits)
  show "tables_ok demo_pkt_state"
    by (auto simp: tables_ok_def demo_pkt_state_def demo_nf_def zero_nf_def onvm_nf_is_valid_def nf_states onvm_limits
        less_Suc_eq)
  have "routable demo_pkt_env demo_pkt_state 7" "routable demo_pkt_env demo_pkt_state 9" by code_simp+
  then show "\<forall>pkt \<in> set [7, 9]. routable demo_pkt_env demo_pkt_state pkt" by simp
qed

lemma demo_ring: "rte_ring (pe_ring demo_pkt_env) lr_items lr_room"
  by (simp add: demo_pkt_env_def list_ring.rte_ring_axioms)

lemma demo_tx:
  "nic_ok demo_pkt_env" "cfg_ok (Some 1) (demo_qm, demo_pkt_state)" "\<forall>pkt \<in> set [7, 9]. sendable demo_pkt_env demo_pkt_state True pkt"
proof -
  have "unat (of_nat n :: u16) \<le> n" for n by (simp add: unat_of_nat)
  then show "nic_ok demo_pkt_env" by (simp add: nic_ok_def demo_pkt_env_def)
  show "cfg_ok (Some 1) (demo_qm, demo_pkt_state)"
    using demo_cfg(1,2) by (simp add: cfg_ok_def side_ok_def demo_qm_def demo_pkt_state_def demo_nf_def buf_room_def onvm_limits)
  show "\<forall>pkt \<in> set [7, 9]. sendable demo_pkt_env demo_pkt_state True pkt"
    by (simp add: sendable_def dest_ok_def meta_of_def demo_pkt_state_def demo_pkt_def)
qed

end
