(* ===== verification/MgrThreads.thy ===== *)
theory MgrThreads
  imports PktProc
begin

text \<open>
  The RX and TX threads of the DPDK manager (\<^verbatim>\<open>main.c\<close>) and the distribution of NFs over the TX and
  wakeup threads. The body of a thread's loop is a function of the configuration it works on; a run of the thread
  alternates passes of the body with anything the other threads, the NFs and the NIC do to the shared
  state in between. The locale \<open>packet_loop\<close> says what a body promises and \<open>loop_run\<close> is the run.
\<close>

section \<open>RX thread\<close>

text \<open>
  What one pass over the ports observes: \<open>num_nfs\<close> when the \<open>i\<close>-th port is read, and the packets
  \<^verbatim>\<open>rte_eth_rx_burst\<close> returned for it.
\<close>

record rx_input =
  ri_nfs :: "nat \<Rightarrow> u16"
  ri_burst :: "nat \<Rightarrow> nat list"

definition rx_port :: "('q, 'h) pkt_env \<Rightarrow> rx_input \<Rightarrow> nat \<Rightarrow> ('q, 'mq, 'h) pkt_cfg \<Rightarrow> ('q, 'mq, 'h) pkt_cfg option" where
  "rx_port env inp i = (\<lambda>(rx_mgr, s).
     if i \<ge> length (port_id (pk_ports s)) then None
     else
       let port = unat (port_id (pk_ports s) ! i); pkts = ri_burst inp i; rx_count = of_nat (length pkts) :: u16 in
       if port \<ge> length (port_rx (pk_ports s)) then None
       else
         let s1 = s\<lparr>pk_ports := (pk_ports s)\<lparr>port_rx := (port_rx (pk_ports s))
                      [port := port_rx (pk_ports s) ! port + ucast rx_count]\<rparr>\<rparr>
         in if rx_count > 0
            then if ri_nfs inp i = 0 then Some (rx_mgr, onvm_pkt_drop_batch pkts s1)
                 else onvm_pkt_process_rx_batch env pkts (rx_mgr, s1)
            else Some (rx_mgr, s1))"

primrec rx_ports :: "('q, 'h) pkt_env \<Rightarrow> rx_input \<Rightarrow> nat list \<Rightarrow> ('q, 'mq, 'h) pkt_cfg \<Rightarrow> ('q, 'mq, 'h) pkt_cfg option" where
  "rx_ports env inp [] c = Some c"
| "rx_ports env inp (i # is) c = Option.bind (rx_port env inp i c) (rx_ports env inp is)"

text \<open>One iteration of the loop of \<^verbatim>\<open>rx_thread_main\<close>.\<close>

definition rx_pass :: "('q, 'h) pkt_env \<Rightarrow> rx_input \<Rightarrow> ('q, 'mq, 'h) pkt_cfg \<Rightarrow> ('q, 'mq, 'h) pkt_cfg option" where
  "rx_pass env inp c = rx_ports env inp [0..<unat (num_ports (pk_ports (snd c)))] c"

section \<open>TX thread\<close>

definition tx_nf :: "('q, 'h) pkt_env \<Rightarrow> nat \<Rightarrow> ('q, 'mq, 'h) pkt_cfg \<Rightarrow> ('q, 'mq, 'h) pkt_cfg option" where
  "tx_nf env i = (\<lambda>(tx_mgr, s).
     if i \<ge> length (pk_nfs s) then None
     else if \<not> onvm_nf_is_valid (pk_nfs s ! i) then Some (tx_mgr, s)
     else case nf_tx_q (pk_nfs s ! i) of
       None \<Rightarrow> None
     | Some q \<Rightarrow>
         let (pkts, q1) = ring_dequeue_burst (pe_ring env) q PACKET_READ_SIZE;
             s1 = s\<lparr>pk_nfs := (pk_nfs s)[i := (pk_nfs s ! i)\<lparr>nf_tx_q := Some q1\<rparr>]\<rparr>
         in if pkts \<noteq> [] then onvm_pkt_process_tx_batch env pkts i (tx_mgr, s1) else Some (tx_mgr, s1))"

primrec tx_nfs :: "('q, 'h) pkt_env \<Rightarrow> nat list \<Rightarrow> ('q, 'mq, 'h) pkt_cfg \<Rightarrow> ('q, 'mq, 'h) pkt_cfg option" where
  "tx_nfs env [] c = Some c"
| "tx_nfs env (i # is) c = Option.bind (tx_nf env i c) (tx_nfs env is)"

text \<open>One iteration of the loop of \<^verbatim>\<open>tx_thread_main\<close>.\<close>

definition tx_pass :: "('q, 'h) pkt_env \<Rightarrow> ('q, 'mq, 'h) pkt_cfg \<Rightarrow> ('q, 'mq, 'h) pkt_cfg option" where
  "tx_pass env c =
     (case qm_side (fst c) of
        NF_side b \<Rightarrow> None
      | MGR_side info \<Rightarrow> do {
          c1 \<leftarrow> tx_nfs env [first_nf info..<last_nf info] c;
          c2 \<leftarrow> onvm_pkt_flush_all_ports env c1;
          onvm_pkt_flush_all_nfs env None c2 })"

section \<open>Runs of a thread\<close>

text \<open>
  The configurations a thread can be in: \<open>loop_run step adm inp inv held c \<Delta>in \<Delta>out c'\<close> leads from \<open>c\<close> to \<open>c'\<close>, with the
  packets that entered (received, or put into rings by others) and left (taken by others) on the way. While
  \<^verbatim>\<open>worker_keep_running\<close> is set the loop makes passes; between them the others change the shared
  state, never the thread's own buffers. A run may stop after any step.
\<close>

inductive loop_run ::
  "('b \<Rightarrow> 'm \<times> 's \<Rightarrow> ('m \<times> 's) option) \<Rightarrow> ('b \<Rightarrow> 'm \<times> 's \<Rightarrow> bool) \<Rightarrow> ('b \<Rightarrow> 'm \<times> 's \<Rightarrow> nat multiset)
    \<Rightarrow> ('m \<times> 's \<Rightarrow> bool) \<Rightarrow> ('m \<times> 's \<Rightarrow> nat multiset) \<Rightarrow> 'm \<times> 's \<Rightarrow> nat multiset \<Rightarrow> nat multiset \<Rightarrow> 'm \<times> 's \<Rightarrow> bool"
  for step adm inp inv hd c where
  start: "loop_run step adm inp inv hd c {#} {#} c"
| pass: "loop_run step adm inp inv hd c i out c1 \<Longrightarrow> adm b c1 \<Longrightarrow> step b c1 = Some c2
    \<Longrightarrow> loop_run step adm inp inv hd c (i + inp b c1) out c2"
| other: "loop_run step adm inp inv hd c i out (m, s) \<Longrightarrow> inv (m, t) \<Longrightarrow> hd (m, t) + taken = hd (m, s) + given
    \<Longrightarrow> loop_run step adm inp inv hd c (i + given) (out + taken) (m, t)"

locale packet_loop =
  fixes step :: "'b \<Rightarrow> 'm \<times> 's \<Rightarrow> ('m \<times> 's) option" and adm :: "'b \<Rightarrow> 'm \<times> 's \<Rightarrow> bool"
    and inp :: "'b \<Rightarrow> 'm \<times> 's \<Rightarrow> nat multiset" and inv :: "'m \<times> 's \<Rightarrow> bool" and hd :: "'m \<times> 's \<Rightarrow> nat multiset"
  assumes step_ok: "inv c \<Longrightarrow> adm b c \<Longrightarrow> \<exists>c'. step b c = Some c' \<and> inv c' \<and> hd c' = hd c + inp b c"
begin

lemma run_inv:
  assumes "loop_run step adm inp inv hd c i out c'" and "inv c"
  shows "inv c' \<and> hd c' + out = hd c + i"
  using assms
proof (induction rule: loop_run.induct)
  case start
  then show ?case by simp
next
  case (pass i out c1 b c2)
  then have "inv c2" "hd c2 = hd c1 + inp b c1" using step_ok [of c1 b] by auto
  then show ?case using pass by (simp add: ac_simps)
next
  case (other i out m s t taken given)
  have "hd (m, t) + (out + taken) = (hd (m, t) + taken) + out" by (simp add: ac_simps)
  also have "\<dots> = (hd (m, s) + out) + given" using other.hyps(3) by (simp add: ac_simps)
  also have "\<dots> = hd c + (i + given)" using other.IH other.prems by (simp add: ac_simps)
  finally show ?case using other.hyps(2) by simp
qed

lemma run_goes_on:
  assumes "loop_run step adm inp inv hd c i out c'" and "inv c" and "adm b c'"
  shows "\<exists>c''. step b c' = Some c'' \<and> loop_run step adm inp inv hd c (i + inp b c') out c''"
  using step_ok [of c' b] run_inv [OF assms(1,2)] assms(3) loop_run.pass [OF assms(1,3)] by blast

end

section \<open>The RX loop\<close>

text \<open>The ports that are configured exist, and the packets of the pool \<open>P\<close> can be routed.\<close>

definition rx_world :: "('q, 'h) pkt_env \<Rightarrow> nat set \<Rightarrow> ('q, 'mq, 'h) pkt_state \<Rightarrow> bool" where
  "rx_world env P s \<longleftrightarrow> tables_ok s \<and> (\<forall>p \<in> P. routable env s p)
     \<and> unat (num_ports (pk_ports s)) \<le> length (port_id (pk_ports s))
     \<and> (\<forall>i < unat (num_ports (pk_ports s)). unat (port_id (pk_ports s) ! i) < length (port_rx (pk_ports s)))"

definition rx_inv :: "('q, 'h) pkt_env \<Rightarrow> ('q \<Rightarrow> nat list) \<Rightarrow> ('q \<Rightarrow> nat) \<Rightarrow> nat set \<Rightarrow> ('q, 'mq, 'h) pkt_cfg \<Rightarrow> bool" where
  "rx_inv env items room P c \<longleftrightarrow> rte_ring (pe_ring env) items room \<and> bufs_ok (fst c) \<and> rx_world env P (snd c)"

text \<open>\<^verbatim>\<open>rte_eth_rx_burst\<close> returns at most as many packets as it was asked for, from the pool.\<close>

definition rx_adm :: "nat set \<Rightarrow> rx_input \<Rightarrow> ('q, 'mq, 'h) pkt_cfg \<Rightarrow> bool" where
  "rx_adm P inp c \<longleftrightarrow> (\<forall>i < unat (num_ports (pk_ports (snd c))). set (ri_burst inp i) \<subseteq> P \<and> length (ri_burst inp i) \<le> PACKET_READ_SIZE)"

definition rx_received :: "rx_input \<Rightarrow> ('q, 'mq, 'h) pkt_cfg \<Rightarrow> nat multiset" where
  "rx_received inp c = (\<Sum>i\<leftarrow>[0..<unat (num_ports (pk_ports (snd c)))]. mset (ri_burst inp i))"

lemma rx_world_step:
  assumes "rx_world env P s" "same_config s t" "same_data s t"
  shows "rx_world env P t"
proof -
  have "routable env t p = routable env s p" for p
    using chain_stable [OF assms(2,3)] assms(2) by (simp add: routable_def same_config_def cong: option.case_cong)
  then show ?thesis using assms same_config_tables [OF assms(2)] by (simp add: rx_world_def same_config_def)
qed

lemma rx_world_counter:
  assumes "rx_world env P s"
  shows "rx_world env P (s\<lparr>pk_ports := (pk_ports s)\<lparr>port_rx := (port_rx (pk_ports s))[k := v]\<rparr>\<rparr>)"
  using assms
  by (simp add: rx_world_def tables_ok_def routable_def chain_of_pkt_def onvm_flow_dir_get_pkt_def
      cong: if_cong option.case_cong)

lemma held_ports: "held items (qm, s\<lparr>pk_ports := p\<rparr>) = held items (qm, s)"
  by (simp add: held_def state_held_def)

lemma rx_port_spec:
  assumes inv: "rx_inv env items room P (qm, s)" and i: "i < unat (num_ports (pk_ports s))"
    and b: "set (ri_burst inp i) \<subseteq> P" "length (ri_burst inp i) \<le> PACKET_READ_SIZE"
  shows "\<exists>qm' s'. rx_port env inp i (qm, s) = Some (qm', s') \<and> rx_inv env items room P (qm', s')
    \<and> held items (qm', s') = held items (qm, s) + mset (ri_burst inp i) \<and> same_config s s'"
proof -
  let ?ps = "ri_burst inp i" and ?p = "unat (port_id (pk_ports s) ! i)"
  let ?rx = "(port_rx (pk_ports s))[?p := port_rx (pk_ports s) ! ?p + ucast (of_nat (length ?ps) :: u16)]"
  let ?s1 = "s\<lparr>pk_ports := (pk_ports s)\<lparr>port_rx := ?rx\<rparr>\<rparr>"
  have w: "rte_ring (pe_ring env) items room" "bufs_ok qm" "rx_world env P s" using inv by (simp_all add: rx_inv_def)
  have rng: "i < length (port_id (pk_ports s))" "?p < length (port_rx (pk_ports s))"
    using w(3) i by (simp_all add: rx_world_def)
  have w1: "rx_world env P ?s1" by (rule rx_world_counter [OF w(3)])
  have c1: "same_config s ?s1" by (simp add: same_config_def)
  have pos: "0 < (of_nat (length ?ps) :: u16) \<longleftrightarrow> ?ps \<noteq> []"
  proof -
    have "unat (of_nat (length ?ps) :: u16) = length ?ps"
      using b(2) by (intro unat_of_nat_exact) (simp add: onvm_limits)
    then show ?thesis by (metis length_0_conv unat_eq_zero word_neq_0_conv)
  qed
  consider "?ps = []" | (none) "?ps \<noteq> []" "ri_nfs inp i = 0" | (some) "?ps \<noteq> []" "ri_nfs inp i \<noteq> 0" by blast
  then show ?thesis
  proof cases
    case 1
    then show ?thesis using rng w w1 c1 pos by (simp add: rx_port_def rx_inv_def held_ports)
  next
    case none
    let ?s2 = "onvm_pkt_drop_batch ?ps ?s1"
    have "rx_world env P ?s2"
      using rx_world_step [OF w1 free_all_frame(2) same_data_mbufs [OF free_all_frame(3)]] by (simp add: onvm_pkt_drop_batch_def)
    moreover have "held items (qm, ?s2) = held items (qm, s) + mset ?ps"
      by (simp add: onvm_pkt_drop_batch_def free_all_def held_def state_held_def)
    moreover have "same_config s ?s2" by (simp add: onvm_pkt_drop_batch_def free_all_def same_config_def)
    ultimately show ?thesis
      using none rng w pos by (simp add: rx_port_def rx_inv_def Let_def)
  next
    case some
    have "\<forall>pkt \<in> set ?ps. routable env ?s1 pkt" "tables_ok ?s1" using w1 b(1) by (auto simp: rx_world_def)
    from rx_batch_spec [OF w(1,2) this(2,1)] obtain qm' s' where
      r: "onvm_pkt_process_rx_batch env ?ps (qm, ?s1) = Some (qm', s')" "held items (qm', s') = held items (qm, ?s1) + mset ?ps"
        "bufs_ok qm'" "same_config ?s1 s'" "same_data ?s1 s'" by blast
    have "same_config s s'" by (rule same_config_trans [OF c1 r(4)])
    then show ?thesis
      using some rng w r pos rx_world_step [OF w1 r(4,5)]
      by (simp add: rx_port_def rx_inv_def held_ports Let_def)
  qed
qed

lemma rx_ports_spec:
  "rx_inv env items room P (qm, s) \<Longrightarrow> \<forall>i \<in> set is. i < unat (num_ports (pk_ports s)) \<and> set (ri_burst inp i) \<subseteq> P
      \<and> length (ri_burst inp i) \<le> PACKET_READ_SIZE \<Longrightarrow>
   \<exists>c'. rx_ports env inp is (qm, s) = Some c' \<and> rx_inv env items room P c'
     \<and> held items c' = held items (qm, s) + (\<Sum>i\<leftarrow>is. mset (ri_burst inp i)) \<and> same_config s (snd c')"
proof (induction "is" arbitrary: qm s)
  case Nil
  then show ?case by simp
next
  case (Cons i "is")
  obtain qm1 s1 where p: "rx_port env inp i (qm, s) = Some (qm1, s1)" "rx_inv env items room P (qm1, s1)"
    "held items (qm1, s1) = held items (qm, s) + mset (ri_burst inp i)" "same_config s s1"
    using rx_port_spec [OF Cons.prems(1), of i inp] Cons.prems(2) by auto
  then obtain c' where "rx_ports env inp is (qm1, s1) = Some c'" "rx_inv env items room P c'"
    "held items c' = held items (qm1, s1) + (\<Sum>i\<leftarrow>is. mset (ri_burst inp i))" "same_config s1 (snd c')"
    using Cons.IH [OF p(2)] Cons.prems(2) p(4) by (auto simp: same_config_def)
  then show ?case using p same_config_trans by (auto simp: ac_simps)
qed

lemma rx_pass_spec:
  assumes "rx_inv env items room P c" "rx_adm P b c"
  shows "\<exists>c'. rx_pass env b c = Some c' \<and> rx_inv env items room P c' \<and> held items c' = held items c + rx_received b c
    \<and> same_config (snd c) (snd c')"
  using rx_ports_spec [of env items room P "fst c" "snd c" _ b] assms by (simp add: rx_pass_def rx_received_def rx_adm_def)

interpretation rx_loop: packet_loop "rx_pass env" "rx_adm P" "rx_received" "rx_inv env items room P" "held items"
  for env items room P
  using rx_pass_spec by unfold_locales blast

section \<open>The TX loop\<close>

text \<open>
  What moving packets never touches: a TX thread's range of NFs, and the parts of the NF records other than
  counters and rings. The locale \<open>nf_frame\<close> proves it once for any such part \<open>g\<close>; a TX thread also leaves the TX rings of
  the NFs alone.
\<close>

definition thread_range :: "mgr_side \<Rightarrow> (nat \<times> nat) option" where
  "thread_range q = (case q of MGR_side info \<Rightarrow> Some (first_nf info, last_nf info) | NF_side b \<Rightarrow> None)"

definition nf_parts :: "(('q, 'mq) onvm_nf \<Rightarrow> 'x) \<Rightarrow> ('q, 'mq, 'h) pkt_state \<Rightarrow> 'x list" where
  "nf_parts g s = map g (pk_nfs s)"

definition tx_frame :: "(('q, 'mq) onvm_nf \<Rightarrow> 'x) \<Rightarrow> ('q, 'mq, 'h) pkt_cfg \<Rightarrow> ('q, 'mq, 'h) pkt_cfg \<Rightarrow> bool" where
  "tx_frame g c c' \<longleftrightarrow> thread_range (qm_side (fst c')) = thread_range (qm_side (fst c)) \<and> nf_parts g (snd c') = nf_parts g (snd c)"

lemma tx_frame_refl [simp]: "tx_frame g c c"
  by (simp add: tx_frame_def)

lemma tx_frame_trans: "tx_frame g a b \<Longrightarrow> tx_frame g b c \<Longrightarrow> tx_frame g a c"
  by (simp add: tx_frame_def)

lemma tx_frame_state: "nf_parts g t = nf_parts g s \<Longrightarrow> tx_frame g (qm, t) c' \<Longrightarrow> tx_frame g (qm, s) c'"
  by (simp add: tx_frame_def)

locale nf_frame =
  fixes g :: "('q, 'mq) onvm_nf \<Rightarrow> 'x"
  assumes g_stats [simp]: "g (n\<lparr>nf_stats := st\<rparr>) = g n" and g_rx_q [simp]: "g (n\<lparr>nf_rx_q := q\<rparr>) = g n"
begin

lemma parts_updates [simp]:
  "nf_parts g (upd_stats nf f s) = nf_parts g s" "nf_parts g (upd_meta pkt h s) = nf_parts g s" "nf_parts g (free_all ps s) = nf_parts g s"
  "nf_parts g (snd (onvm_pkt_drop pkt s)) = nf_parts g s" "nf_parts g (drop_counted pkt nf s) = nf_parts g s"
  "nf_parts g (s\<lparr>pk_nfs := (pk_nfs s)[i := (pk_nfs s ! i)\<lparr>nf_rx_q := q\<rparr>]\<rparr>) = nf_parts g s"
  "nf_parts g (account_rx r ps n nf' nf s) = nf_parts g s" "nf_parts g (account_tx r ps n nf' s) = nf_parts g s"
proof -
  have st: "nf_parts g (upd_stats nf f s) = nf_parts g s" for nf f and s :: "('q, 'mq, 'c) pkt_state"
    by (cases nf) (simp_all add: nf_parts_def upd_stats_def map_update_same)
  show "nf_parts g (upd_stats nf f s) = nf_parts g s" by (rule st)
  have fr: "nf_parts g (free_all ps s) = nf_parts g s" for ps and s :: "('q, 'mq, 'c) pkt_state" by (simp add: nf_parts_def free_all_def)
  then show "nf_parts g (free_all ps s) = nf_parts g s" .
  show "nf_parts g (upd_meta pkt h s) = nf_parts g s" "nf_parts g (snd (onvm_pkt_drop pkt s)) = nf_parts g s"
    "nf_parts g (s\<lparr>pk_nfs := (pk_nfs s)[i := (pk_nfs s ! i)\<lparr>nf_rx_q := q\<rparr>]\<rparr>) = nf_parts g s"
    by (simp_all add: nf_parts_def upd_meta_def onvm_pkt_drop_def map_update_same)
  show "nf_parts g (drop_counted pkt nf s) = nf_parts g s"
    unfolding drop_counted_def st by (simp add: nf_parts_def onvm_pkt_drop_def)
  show "nf_parts g (account_rx r ps n nf' nf s) = nf_parts g s" unfolding account_rx_def by (simp add: st fr)
  show "nf_parts g (account_tx r ps n nf' s) = nf_parts g s" unfolding account_tx_def by (simp add: st fr)
qed

lemma flush_nf_frame: "onvm_pkt_flush_nf_queue env i src_nf c = Some c' \<Longrightarrow> tx_frame g c c'"
  by (cases c) (auto simp: onvm_pkt_flush_nf_queue_def tx_frame_def Let_def split: if_splits option.splits prod.splits)

lemma enqueue_nf_frame: "onvm_pkt_enqueue_nf env sid pkt src_nf c = Some c' \<Longrightarrow> tx_frame g c c'"
  by (cases c) (auto simp: onvm_pkt_enqueue_nf_def tx_frame_def Let_def split: if_splits bind_splits dest!: flush_nf_frame)

lemma parts_nic [simp]: "nf_parts g (s\<lparr>pk_sent := l\<rparr>) = nf_parts g s" "nf_parts g (s\<lparr>pk_ports := p\<rparr>) = nf_parts g s"
  by (simp_all add: nf_parts_def)

lemma flush_port_frame: "onvm_pkt_flush_port_queue env p c = Some c' \<Longrightarrow> tx_frame g c c'"
  by (cases c) (auto simp: onvm_pkt_flush_port_queue_def tx_frame_def thread_range_def Let_def split: if_splits mgr_side.splits)

lemma enqueue_port_frame: "onvm_pkt_enqueue_port env p pkt c = Some c' \<Longrightarrow> tx_frame g c c'"
  by (cases c) (auto simp: onvm_pkt_enqueue_port_def tx_frame_def thread_range_def Let_def split: if_splits mgr_side.splits bind_splits
      dest!: flush_port_frame)

lemma enqueue_tx_frame:
  "onvm_pkt_enqueue_tx_thread env b nf s = Some (b', s') \<Longrightarrow> \<forall>n q. g (n\<lparr>nf_tx_q := q\<rparr>) = g n \<Longrightarrow> nf_parts g s' = nf_parts g s"
  by (auto simp: onvm_pkt_enqueue_tx_thread_def Let_def split: if_splits option.splits prod.splits)
    (simp add: nf_parts_def map_update_same)

lemma batch_out_frame:
  "batch_out env pkt nf (qm, s) = Some c' \<Longrightarrow> is_mgr (qm_side qm) \<or> (\<forall>n q. g (n\<lparr>nf_tx_q := q\<rparr>) = g n) \<Longrightarrow> tx_frame g (qm, s) c'"
  by (auto simp: batch_out_def is_mgr_def tx_frame_def thread_range_def Let_def split: mgr_side.splits if_splits bind_splits
      dest!: enqueue_port_frame enqueue_tx_frame)

lemma set_next_frame: "set_next chain pkt s = Some s' \<Longrightarrow> nf_parts g s' = nf_parts g s"
  by (auto simp: set_next_def split: bind_splits)

lemma next_action_frame:
  assumes "onvm_pkt_process_next_action env pkt nf (qm, s) = Some c'"
  shows "tx_frame g (qm, s) c'"
proof -
  obtain chain s1 c2 where c: "set_next chain pkt s = Some s1" "c' = (fst c2, inc_chain_index pkt (snd c2))"
    and step: "(if action (meta_of s1 pkt) = ONVM_NF_ACTION_DROP then
          let (r, t) = onvm_pkt_drop pkt s1
          in Some (qm, upd_stats (Some nf) (\<lambda>st. st\<lparr>st_act_drop := st_act_drop st + (if r = 0 then 1 else 0)\<rparr>) t)
        else if action (meta_of s1 pkt) = ONVM_NF_ACTION_TONF then
          onvm_pkt_enqueue_nf env (destination (meta_of s1 pkt)) pkt (Some nf)
            (qm, upd_stats (Some nf) (\<lambda>st. st\<lparr>st_act_tonf := st_act_tonf st + 1\<rparr>) s1)
        else if action (meta_of s1 pkt) = ONVM_NF_ACTION_OUT then
          onvm_pkt_enqueue_port env (unat (destination (meta_of s1 pkt))) pkt
            (qm, upd_stats (Some nf) (\<lambda>st. st\<lparr>st_act_out := st_act_out st + 1\<rparr>) s1)
        else Some (qm, s1)) = Some c2"
    using assms by (auto simp: onvm_pkt_process_next_action_def Let_def split: bind_splits prod.splits)
  have "tx_frame g (qm, s1) c2"
  proof (cases "action (meta_of s1 pkt) = ONVM_NF_ACTION_DROP")
    case True
    then have "c2 = (qm, upd_stats (Some nf) (\<lambda>st. st\<lparr>st_act_drop := st_act_drop st + (if (1 :: int) = 0 then 1 else 0)\<rparr>)
        (snd (onvm_pkt_drop pkt s1)))" using step by (simp add: onvm_pkt_drop_def)
    then show ?thesis unfolding tx_frame_def by (simp only: fst_conv snd_conv parts_updates(1,4) simp_thms)
  next
    case False
    note st = step [unfolded if_not_P [OF False]]
    show ?thesis
    proof (cases "action (meta_of s1 pkt) = ONVM_NF_ACTION_TONF")
      case True
      then show ?thesis using st tx_frame_state [OF parts_updates(1) enqueue_nf_frame] by simp
    next
      case False
      then show ?thesis
        using st by (auto split: if_splits intro: tx_frame_state [OF parts_updates(1) enqueue_port_frame])
    qed
  qed
  then show ?thesis using set_next_frame [OF c(1)] c(2) by (simp add: tx_frame_def)
qed

lemma tx_batch_frame:
  "onvm_pkt_process_tx_batch env pkts nf (qm, s) = Some c' \<Longrightarrow> is_mgr (qm_side qm) \<or> (\<forall>n q. g (n\<lparr>nf_tx_q := q\<rparr>) = g n) \<Longrightarrow> tx_frame g (qm, s) c'"
proof (induction pkts arbitrary: qm s)
  case Nil
  then show ?case by simp
next
  case (Cons pkt pkts)
  let ?s1 = "upd_meta pkt (\<lambda>m. m\<lparr>src := nf_instance_id (pk_nfs s ! nf)\<rparr>) s"
  have step: "tx_frame g (qm, s) c'" if "tx_frame g (qm, s) (qm1, s1)" "onvm_pkt_process_tx_batch env pkts nf (qm1, s1) = Some c'" for qm1 s1
  proof -
    have "is_mgr (qm_side qm1) \<or> (\<forall>n q. g (n\<lparr>nf_tx_q := q\<rparr>) = g n)"
      using that(1) Cons.prems(2) by (auto simp: tx_frame_def thread_range_def is_mgr_def split: mgr_side.splits)
    then show ?thesis using Cons.IH [OF that(2)] tx_frame_trans [OF that(1)] by blast
  qed
  have batch: "onvm_pkt_process_tx_batch env (pkt # pkts) nf (qm, s) = Some c'" by (rule Cons.prems(1))
  have next_step: "tx_frame g (qm, s) c'"
    if bd: "Option.bind (f (qm, t)) (onvm_pkt_process_tx_batch env pkts nf) = Some c'"
      and fr: "\<And>c1. f (qm, t) = Some c1 \<Longrightarrow> tx_frame g (qm, t) c1" and eq: "nf_parts g t = nf_parts g s" for f t
  proof -
    obtain qm1 s1 where "f (qm, t) = Some (qm1, s1)" "onvm_pkt_process_tx_batch env pkts nf (qm1, s1) = Some c'"
      using bd by (auto simp: bind_eq_Some_conv)
    then show ?thesis using fr eq step tx_frame_state by blast
  qed
  let ?act = "action (meta_of ?s1 pkt)"
  have len: "nf < length (pk_nfs s)" using batch by (auto simp: Let_def split: if_splits)
  consider (drop) "?act = ONVM_NF_ACTION_DROP" | (nxt) "?act = ONVM_NF_ACTION_NEXT" | (tonf) "?act = ONVM_NF_ACTION_TONF"
    | (port) "?act = ONVM_NF_ACTION_OUT"
    | (bad) "?act \<notin> {ONVM_NF_ACTION_DROP, ONVM_NF_ACTION_NEXT, ONVM_NF_ACTION_TONF, ONVM_NF_ACTION_OUT}" by blast
  then show ?case
  proof cases
    case drop
    let ?s2 = "snd (onvm_pkt_drop pkt (upd_stats (Some nf) (\<lambda>st. st\<lparr>st_act_drop := st_act_drop st + 1\<rparr>) ?s1))"
    have "onvm_pkt_process_tx_batch env pkts nf (qm, upd_stats (Some nf) (\<lambda>st. st\<lparr>st_tx := st_tx st + (if (1 :: int) = 0 then 1 else 0)\<rparr>) ?s2) = Some c'"
      using batch drop len by (simp add: onvm_pkt_drop_def Let_def)
    moreover have "tx_frame g (qm, s) (qm, upd_stats (Some nf) (\<lambda>st. st\<lparr>st_tx := st_tx st + (if (1 :: int) = 0 then 1 else 0)\<rparr>) ?s2)"
      unfolding tx_frame_def by (simp only: fst_conv snd_conv parts_updates simp_thms)
    ultimately show ?thesis using step by blast
  next
    case nxt
    then show ?thesis using batch len next_action_frame
      by (intro next_step [of "onvm_pkt_process_next_action env pkt nf" "upd_stats (Some nf) (\<lambda>st. st\<lparr>st_act_next := st_act_next st + 1\<rparr>) ?s1"])
        simp_all
  next
    case tonf
    then show ?thesis using batch len enqueue_nf_frame
      by (intro next_step [of "onvm_pkt_enqueue_nf env (destination (meta_of ?s1 pkt)) pkt (Some nf)"
            "upd_stats (Some nf) (\<lambda>st. st\<lparr>st_act_tonf := st_act_tonf st + 1\<rparr>) ?s1"]) simp_all
  next
    case port
    have "tx_frame g (qm, ?s1) c1" if "batch_out env pkt nf (qm, ?s1) = Some c1" for c1
      by (rule batch_out_frame [OF that Cons.prems(2)])
    then show ?thesis using batch len port by (intro next_step [of "batch_out env pkt nf" ?s1]) simp_all
  next
    case bad
    then have "c' = (qm, snd (onvm_pkt_drop pkt ?s1))" using batch len by simp
    then show ?thesis unfolding tx_frame_def by (simp only: fst_conv snd_conv parts_updates simp_thms)
  qed
qed

lemma flush_nfs_frame: "flush_nfs env is src_nf c = Some c' \<Longrightarrow> tx_frame g c c'"
proof (induction "is" arbitrary: c)
  case (Cons i "is")
  then obtain c1 where "onvm_pkt_flush_nf_queue env i src_nf c = Some c1" "flush_nfs env is src_nf c1 = Some c'"
    by (auto simp: bind_eq_Some_conv)
  then show ?case using Cons.IH flush_nf_frame tx_frame_trans by blast
qed simp

end

interpretation tx_q_frame: nf_frame nf_tx_q
  by unfold_locales simp_all

text \<open>
  The world of a TX thread: its NFs exist, its ports too, and the packets waiting in the TX rings of running NFs are distinct and
  have an action with an outcome.
\<close>

definition waiting :: "('q \<Rightarrow> nat list) \<Rightarrow> ('q, 'mq, 'h) pkt_state \<Rightarrow> nat \<Rightarrow> nat list" where
  "waiting items s i =
     (case nf_tx_q (pk_nfs s ! i) of None \<Rightarrow> [] | Some q \<Rightarrow> if onvm_nf_is_valid (pk_nfs s ! i) then items q else [])"

definition waiting_ok :: "('q, 'h) pkt_env \<Rightarrow> ('q \<Rightarrow> nat list) \<Rightarrow> ('q, 'mq, 'h) pkt_state \<Rightarrow> bool" where
  "waiting_ok env items s \<longleftrightarrow> (\<forall>i < MAX_NFS. distinct (waiting items s i) \<and> (\<forall>p \<in> set (waiting items s i). sendable env s True p))
     \<and> (\<forall>i < MAX_NFS. \<forall>j < MAX_NFS. i \<noteq> j \<longrightarrow> set (waiting items s i) \<inter> set (waiting items s j) = {})"

definition ports_ok :: "('q, 'mq, 'h) pkt_state \<Rightarrow> bool" where
  "ports_ok s \<longleftrightarrow> unat (num_ports (pk_ports s)) \<le> length (port_id (pk_ports s))
     \<and> (\<forall>p \<in> set (take (unat (num_ports (pk_ports s))) (port_id (pk_ports s))). unat p < length (port_init (pk_ports s)))"

definition tx_inv :: "('q, 'h) pkt_env \<Rightarrow> ('q \<Rightarrow> nat list) \<Rightarrow> ('q \<Rightarrow> nat) \<Rightarrow> ('q, 'mq, 'h) pkt_cfg \<Rightarrow> bool" where
  "tx_inv env items room c \<longleftrightarrow> rte_ring (pe_ring env) items room \<and> nic_ok env \<and> cfg_ok None c
     \<and> (\<exists>a b. thread_range (qm_side (fst c)) = Some (a, b) \<and> b \<le> MAX_NFS) \<and> ports_ok (snd c) \<and> waiting_ok env items (snd c)"

lemma range_is_mgr: "thread_range q = Some r \<Longrightarrow> is_mgr q"
  by (auto simp: thread_range_def is_mgr_def split: mgr_side.splits)

lemma cfg_ok_none: "cfg_ok (Some i) c \<Longrightarrow> cfg_ok None c"
  by (simp add: cfg_ok_def)

lemma sendable_config:
  assumes "same_config s t" "pk_mbufs t p = pk_mbufs s p"
  shows "sendable env t m p = sendable env s m p"
proof -
  have "chain_of_pkt env t p = chain_of_pkt env s p" "meta_of t p = meta_of s p"
    using assms by (simp_all add: chain_of_pkt_def onvm_flow_dir_get_pkt_def meta_of_def same_config_def cong: if_cong)
  then show ?thesis
    using assms(1) by (simp add: sendable_def dest_ok_def same_config_def cong: if_cong option.case_cong)
qed

lemma waiting_rings:
  assumes "same_config s t" "length (pk_nfs s) = MAX_NFS" "i < MAX_NFS" "nf_parts nf_tx_q t ! i = nf_parts nf_tx_q s ! i"
  shows "waiting items t i = waiting items s i"
proof -
  have "length (pk_nfs t) = MAX_NFS" using assms(1,2) by (simp add: same_config_def)
  then have "nf_tx_q (pk_nfs t ! i) = nf_tx_q (pk_nfs s ! i)" "nf_status (pk_nfs t ! i) = nf_status (pk_nfs s ! i)"
    using assms same_config_nf(1) [OF assms(1), of i] by (simp_all add: nf_parts_def)
  then show ?thesis by (simp add: waiting_def onvm_nf_is_valid_def cong: option.case_cong)
qed

text \<open>Taking packets out of the rings and changing only what was taken keeps the rest in order.\<close>

lemma waiting_ok_step:
  assumes w: "waiting_ok env items s" and c: "same_config s t" and len: "length (pk_nfs s) = MAX_NFS"
    and sub: "\<And>i. i < MAX_NFS \<Longrightarrow> \<exists>xs. waiting items s i = xs @ waiting items t i"
    and mb: "\<And>i p. i < MAX_NFS \<Longrightarrow> p \<in> set (waiting items t i) \<Longrightarrow> pk_mbufs t p = pk_mbufs s p"
  shows "waiting_ok env items t"
proof -
  have sub': "set (waiting items t i) \<subseteq> set (waiting items s i)" "distinct (waiting items s i) \<Longrightarrow> distinct (waiting items t i)"
    if "i < MAX_NFS" for i using sub [OF that] by auto
  have "sendable env t True p" if "i < MAX_NFS" "p \<in> set (waiting items t i)" for i p
    using w sub' [OF that(1)] that sendable_config [OF c mb [OF that]] by (auto simp: waiting_ok_def)
  moreover have "set (waiting items t i) \<inter> set (waiting items t j) = {}" if "i < MAX_NFS" "j < MAX_NFS" "i \<noteq> j" for i j
  proof -
    have "set (waiting items s i) \<inter> set (waiting items s j) = {}" using w that by (simp add: waiting_ok_def)
    then show ?thesis using sub'(1) [OF that(1)] sub'(1) [OF that(2)] by blast
  qed
  ultimately show ?thesis using w sub'(2) by (simp add: waiting_ok_def)
qed

lemma ports_ok_config: "ports_ok s \<Longrightarrow> same_config s t \<Longrightarrow> ports_ok t"
  by (simp add: ports_ok_def same_config_def)

lemma tx_inv_step:
  assumes inv: "tx_inv env items room c" and fr: "tx_frame nf_tx_q c c'" and cf: "same_config (snd c) (snd c')" and ok: "cfg_ok None c'"
    and mb: "pk_mbufs (snd c') = pk_mbufs (snd c)"
  shows "tx_inv env items room c'"
proof -
  have len: "length (pk_nfs (snd c)) = MAX_NFS" using inv by (simp add: tx_inv_def cfg_ok_def tables_ok_def)
  have "waiting_ok env items (snd c')"
    using waiting_ok_step [OF _ cf len] waiting_rings [OF cf len] inv fr mb by (simp add: tx_inv_def tx_frame_def)
  then show ?thesis using inv fr ok ports_ok_config [OF _ cf] by (simp add: tx_inv_def tx_frame_def)
qed

lemma tx_nf_spec:
  assumes inv: "tx_inv env items room (qm, s)" and i: "i < MAX_NFS"
  shows "\<exists>c'. tx_nf env i (qm, s) = Some c' \<and> tx_inv env items room c' \<and> held items c' = held items (qm, s)
    \<and> thread_range (qm_side (fst c')) = thread_range (qm_side qm) \<and> same_config s (snd c')"
proof (cases "onvm_nf_is_valid (pk_nfs s ! i)")
  case False
  then show ?thesis using inv i by (simp add: tx_nf_def tx_inv_def cfg_ok_def tables_ok_def)
next
  case True
  have ring: "rte_ring (pe_ring env) items room" and nic: "nic_ok env" and ok: "cfg_ok None (qm, s)" and w: "waiting_ok env items s"
    using inv by (simp_all add: tx_inv_def)
  obtain a b where range: "thread_range (qm_side qm) = Some (a, b)" using inv by (auto simp: tx_inv_def)
  have len: "length (pk_nfs s) = MAX_NFS" using ok by (simp add: cfg_ok_def tables_ok_def)
  obtain q where q: "nf_tx_q (pk_nfs s ! i) = Some q" using tables_rings(2) [OF _ i True] ok by (auto simp: cfg_ok_def)
  obtain ps q1 where d: "ring_dequeue_burst (pe_ring env) q PACKET_READ_SIZE = (ps, q1)" by (metis surj_pair)
  have its: "items q = ps @ items q1" using rte_ring.deq_burst [OF ring d] by simp
  let ?s1 = "s\<lparr>pk_nfs := (pk_nfs s)[i := (pk_nfs s ! i)\<lparr>nf_tx_q := Some q1\<rparr>]\<rparr>"
  have c1: "same_config s ?s1" by (rule set_ring_config(2) [OF q])
  have ok1: "cfg_ok (Some i) (qm, ?s1)" using cfg_ok_config [OF ok c1] i len by (simp add: cfg_ok_def)
  have "state_held items ?s1 + mset ps = state_held items s"
    using state_held_tx_q [of i s q items q1] i len q its by (simp add: ac_simps)
  then have held1: "held items (qm, ?s1) + mset ps = held items (qm, s)" by (simp add: held_def ac_simps)
  have wt1: "waiting items s j = (if j = i then ps else []) @ waiting items ?s1 j" if "j < MAX_NFS" for j
    using q its i len True that by (cases "j = i") (simp_all add: waiting_def onvm_nf_is_valid_def cong: option.case_cong)
  have dist: "distinct (ps @ waiting items ?s1 i)" using wt1 [OF i] w i by (metis (full_types) waiting_ok_def)
  have sub: "set ps \<subseteq> set (waiting items s i)" using wt1 [OF i] by simp
  from dist sub have snd1: "\<forall>p \<in> set ps. sendable env ?s1 (is_mgr (qm_side qm)) p" and dps: "distinct ps"
    using w i sendable_config [OF c1] range_is_mgr [OF range] by (auto simp: waiting_ok_def)
  obtain qm' s' where t: "onvm_pkt_process_tx_batch env ps i (qm, ?s1) = Some (qm', s')"
    "held items (qm', s') = held items (qm, ?s1) + mset ps" "cfg_ok (Some i) (qm', s')" "same_config ?s1 s'"
    "\<forall>p. p \<notin> set ps \<longrightarrow> pk_mbufs s' p = pk_mbufs ?s1 p"
    using tx_batch_takes [OF ring nic ok1 dps snd1] by blast
  have fr: "tx_frame nf_tx_q (qm, ?s1) (qm', s')" by (rule tx_q_frame.tx_batch_frame [OF t(1)]) (simp add: range_is_mgr [OF range])
  have c2: "same_config s s'" by (rule same_config_trans [OF c1 t(4)])
  have wt2: "waiting items s' j = waiting items ?s1 j" if "j < MAX_NFS" for j
    using waiting_rings [OF t(4), of j items] fr len that by (simp add: tx_frame_def)
  have "pk_mbufs s' p = pk_mbufs s p" if "j < MAX_NFS" "p \<in> set (waiting items s' j)" for j p
  proof -
    have mem: "p \<in> set (waiting items ?s1 j)" using that wt2 by simp
    have "p \<notin> set ps"
    proof (cases "j = i")
      case True
      then show ?thesis using dist mem by auto
    next
      case False
      have "set (waiting items s i) \<inter> set (waiting items s j) = {}"
        using w i that(1) False unfolding waiting_ok_def by blast
      then show ?thesis using sub mem wt1 [OF that(1)] False by auto
    qed
    then show ?thesis using t(5) by simp
  qed
  then have "waiting_ok env items s'" using waiting_ok_step [OF w c2 len] wt1 wt2 by auto
  moreover have "thread_range (qm_side qm') = thread_range (qm_side qm)" using fr by (simp add: tx_frame_def)
  ultimately have inv': "tx_inv env items room (qm', s')"
    using inv t(3) ports_ok_config [OF _ c2] cfg_ok_none by (auto simp: tx_inv_def)
  have "tx_nf env i (qm, s) = Some (qm', s')"
    using True q d i len t(1) by (auto simp: tx_nf_def Let_def)
  then show ?thesis using inv' t(2) held1 fr c2 by (simp add: tx_frame_def)
qed

lemma tx_nfs_spec:
  "tx_inv env items room c \<Longrightarrow> \<forall>i \<in> set is. i < MAX_NFS \<Longrightarrow>
   \<exists>c'. tx_nfs env is c = Some c' \<and> tx_inv env items room c' \<and> held items c' = held items c \<and> same_config (snd c) (snd c')"
proof (induction "is" arbitrary: c)
  case Nil
  then show ?case by simp
next
  case (Cons i "is")
  obtain c1 where c1: "tx_nf env i c = Some c1" "tx_inv env items room c1" "held items c1 = held items c" "same_config (snd c) (snd c1)"
    using tx_nf_spec [of env items room "fst c" "snd c" i] Cons.prems by auto
  then show ?case using Cons.IH [OF c1(2)] Cons.prems(2) same_config_trans [OF c1(4)] by auto
qed

lemma flush_port_step:
  assumes inv: "tx_inv env items room c" and p: "port < length (port_init (pk_ports (snd c)))"
  shows "\<exists>c'. onvm_pkt_flush_port_queue env port c = Some c' \<and> tx_inv env items room c' \<and> held items c' = held items c
    \<and> same_config (snd c) (snd c')"
proof -
  obtain qm s where c: "c = (qm, s)" by (cases c)
  obtain info where info: "qm_side qm = MGR_side info"
    using inv c by (auto simp: tx_inv_def thread_range_def split: mgr_side.splits)
  have ok: "nic_ok env" "bufs_ok qm" "tables_ok s" "side_ok s (MGR_side info)"
    using inv c info by (simp_all add: tx_inv_def cfg_ok_def)
  have lens: "length (port_tx_bufs info) = length (port_init (pk_ports s))" "length (port_tx (pk_ports s)) = length (port_init (pk_ports s))"
      "length (port_tx_drop (pk_ports s)) = length (port_init (pk_ports s))" and rooms: "\<forall>b \<in> set (port_tx_bufs info). buf_room b"
    using ok(4) by (simp_all add: side_ok_def)
  have lp: "port < length (port_tx_bufs info)" using p c lens by simp
  then have wf: "buf_wf (port_tx_bufs info ! port)" using rooms nth_mem by (force simp: buf_room_def buf_wf_def)
  have others: "\<forall>j < length (port_tx_bufs info). j \<noteq> port \<longrightarrow> buf_room (port_tx_bufs info ! j)" using rooms by simp
  have takes: "\<exists>c'. onvm_pkt_flush_port_queue env port (qm, s) = Some c' \<and> takes items None {#} k (qm, s) c'" for k
    using flush_port_takes [OF ok(1) info ok(2,3) nf_sends.simps(1) [THEN iffD2, OF TrueI] lens _ wf others, of items k] p c by simp
  obtain c' where f: "onvm_pkt_flush_port_queue env port (qm, s) = Some c'" using takes by blast
  then have t: "takes items None {#} k (qm, s) c'" for k using takes [of k] by auto
  have "pk_mbufs (snd c') = pk_mbufs s"
  proof
    fix p
    show "pk_mbufs (snd c') p = pk_mbufs s p" using t [of "Suc p"] by (simp add: takes_def)
  qed
  then have "tx_inv env items room c'"
    using tx_inv_step [OF inv [unfolded c] tx_q_frame.flush_port_frame [OF f]] t [of 0] by (simp add: takes_def)
  then show ?thesis using f t [of 0] c by (simp add: takes_def)
qed

lemma flush_ports_spec:
  "tx_inv env items room c \<Longrightarrow> \<forall>p \<in> set ps. unat p < length (port_init (pk_ports (snd c))) \<Longrightarrow>
   \<exists>c'. flush_ports env ps c = Some c' \<and> tx_inv env items room c' \<and> held items c' = held items c \<and> same_config (snd c) (snd c')"
proof (induction ps arbitrary: c)
  case Nil
  then show ?case by simp
next
  case (Cons p ps)
  obtain c1 where f: "onvm_pkt_flush_port_queue env (unat p) c = Some c1" "tx_inv env items room c1" "held items c1 = held items c"
    "same_config (snd c) (snd c1)"
    using flush_port_step [OF Cons.prems(1), of "unat p"] Cons.prems(2) by auto
  then have "\<forall>p \<in> set ps. unat p < length (port_init (pk_ports (snd c1)))" using Cons.prems(2) by (simp add: same_config_def)
  then show ?case using Cons.IH [OF f(2)] f same_config_trans [OF f(4)] by auto
qed

lemma flush_all_nfs_step:
  assumes inv: "tx_inv env items room c"
  shows "\<exists>c'. onvm_pkt_flush_all_nfs env None c = Some c' \<and> tx_inv env items room c' \<and> held items c' = held items c
    \<and> same_config (snd c) (snd c')"
proof -
  obtain qm s where c: "c = (qm, s)" by (cases c)
  have ok: "rte_ring (pe_ring env) items room" "bufs_ok qm" "tables_ok s" using inv c by (simp_all add: tx_inv_def cfg_ok_def)
  obtain qm' s' where f: "flush_nfs env [0..<MAX_NFS] None (qm, s) = Some (qm', s')" "held items (qm', s') = held items (qm, s)"
    "bufs_ok qm'" "same_config s s'" "pk_mbufs s' = pk_mbufs s" "qm_side qm' = qm_side qm"
    using flush_nfs_spec [OF ok, of "[0..<MAX_NFS]" None] by auto
  have "cfg_ok None (qm', s')" using cfg_ok_config [of None qm s s'] f(3,4,6) inv c by (simp add: tx_inv_def cfg_ok_def)
  then have "tx_inv env items room (qm', s')"
    using tx_inv_step [OF inv tx_q_frame.flush_nfs_frame] f c by (simp add: c)
  then show ?thesis using f c by (simp add: onvm_pkt_flush_all_nfs_def)
qed

lemma tx_pass_spec:
  assumes inv: "tx_inv env items room c"
  shows "\<exists>c'. tx_pass env c = Some c' \<and> tx_inv env items room c' \<and> held items c' = held items c \<and> same_config (snd c) (snd c')"
proof -
  obtain info where info: "qm_side (fst c) = MGR_side info" "last_nf info \<le> MAX_NFS"
    using inv by (auto simp: tx_inv_def thread_range_def split: mgr_side.splits)
  obtain c1 where c1: "tx_nfs env [first_nf info..<last_nf info] c = Some c1" "tx_inv env items room c1" "held items c1 = held items c"
    "same_config (snd c) (snd c1)"
    using tx_nfs_spec [OF inv, of "[first_nf info..<last_nf info]"] info(2) by auto
  have po: "ports_ok (snd c1)" using c1(2) by (simp add: tx_inv_def)
  obtain c2 where c2: "onvm_pkt_flush_all_ports env c1 = Some c2" "tx_inv env items room c2" "held items c2 = held items c1"
    "same_config (snd c1) (snd c2)"
    using flush_ports_spec [OF c1(2), of "take (unat (num_ports (pk_ports (snd c1)))) (port_id (pk_ports (snd c1)))"] po
    by (auto simp: ports_ok_def onvm_pkt_flush_all_ports_def)
  obtain c3 where c3: "onvm_pkt_flush_all_nfs env None c2 = Some c3" "tx_inv env items room c3" "held items c3 = held items c2"
    "same_config (snd c2) (snd c3)"
    using flush_all_nfs_step [OF c2(2)] by blast
  have "same_config (snd c) (snd c3)" using c1(4) c2(4) c3(4) same_config_trans by blast
  then show ?thesis using info(1) c1 c2 c3 by (auto simp: tx_pass_def)
qed

interpretation tx_loop: packet_loop "\<lambda>_ :: unit. tx_pass env" "\<lambda>_ _. True" "\<lambda>_ _. {#}" "tx_inv env items room" "held items"
  for env items room
proof
  fix c :: "('a, 'c, 'b) pkt_cfg" and u :: unit
  assume "tx_inv env items room c"
  then show "\<exists>c'. tx_pass env c = Some c' \<and> tx_inv env items room c' \<and> held items c' = held items c + {#}"
    using tx_pass_spec [of env items room c] by auto
qed

section \<open>Properties\<close>

text \<open>
  C5. The RX thread: whatever the NIC delivers and whatever the other threads do between its passes (as long as they
  keep the tables consistent and the packets routable), every pass returns, and no packet is lost or duplicated: what is
  held in batches, rings, freed or at a NIC, together with what others took out, is what was there at the
  start together with what was received or put in by others.
\<close>

theorem rx_thread_conserves_packets:
  assumes "loop_run (rx_pass env) (rx_adm P) rx_received (rx_inv env items room P) (held items) c i out c'"
    and "rx_inv env items room P c" and "rx_adm P b c'"
  shows "held items c' + out = held items c + i
    \<and> (\<exists>c''. rx_pass env b c' = Some c'' \<and> held items c'' = held items c' + rx_received b c')"
proof -
  have r: "rx_inv env items room P c'" "held items c' + out = held items c + i"
    using rx_loop.run_inv [OF assms(1,2)] by simp_all
  then show ?thesis using rx_loop.step_ok [OF r(1) assms(3)] by blast
qed


section \<open>A concrete run\<close>

definition demo_rx_input :: rx_input where
  "demo_rx_input = \<lparr>ri_nfs = (\<lambda>_. 2), ri_burst = (\<lambda>_. [7, 9])\<rparr>"

lemma demo_rx_inv: "rx_inv demo_pkt_env lr_items lr_room {7, 9} (demo_qm, demo_pkt_state)"
  using demo_cfg demo_ring by (simp add: rx_inv_def rx_world_def) (simp add: demo_pkt_state_def)

lemma demo_rx_adm: "rx_adm {7, 9} demo_rx_input c"
  by (simp add: rx_adm_def demo_rx_input_def onvm_limits)

theorem rx_thread_conserves_packets_witness:
  "\<exists>c' c''. rx_pass demo_pkt_env demo_rx_input (demo_qm, demo_pkt_state) = Some c'
     \<and> held lr_items c' = held lr_items (demo_qm, demo_pkt_state) + {#7, 9#}
     \<and> rx_pass demo_pkt_env demo_rx_input c' = Some c''"
proof -
  let ?run = "loop_run (rx_pass demo_pkt_env) (rx_adm {7, 9}) rx_received (rx_inv demo_pkt_env lr_items lr_room {7, 9}) (held lr_items)
      (demo_qm, demo_pkt_state)"
  have start: "?run {#} {#} (demo_qm, demo_pkt_state)" by (rule loop_run.start)
  have rec: "rx_received demo_rx_input (demo_qm, demo_pkt_state) = {#7, 9#}"
    by (simp add: rx_received_def demo_rx_input_def demo_pkt_state_def)
  obtain c' where c': "rx_pass demo_pkt_env demo_rx_input (demo_qm, demo_pkt_state) = Some c'"
    using rx_loop.run_goes_on [OF start demo_rx_inv demo_rx_adm] by blast
  have "?run ({#} + {#7, 9#}) {#} c'" using loop_run.pass [OF start demo_rx_adm c'] rec by simp
  then show ?thesis
    using rx_thread_conserves_packets [OF _ demo_rx_inv demo_rx_adm, of "{#} + {#7, 9#}" "{#}" c'] c' by auto
qed

definition demo_tx_state :: "(nat list_ring, nat list_ring, (onvm_ft_ipv4_5tuple \<times> nat) list) pkt_state" where
  "demo_tx_state = demo_pkt_state\<lparr>pk_nfs := (pk_nfs demo_pkt_state)[1 := (demo_nf 1)\<lparr>nf_tx_q := Some \<lparr>lr_items = [7, 9], lr_room = 6\<rparr>\<rparr>]\<rparr>"

lemma demo_tx_waiting: "i < MAX_NFS \<Longrightarrow> waiting lr_items demo_tx_state i = (if i = 1 then [7, 9] else [])"
  by (auto simp: demo_tx_state_def demo_pkt_state_def demo_nf_def zero_nf_def waiting_def onvm_nf_is_valid_def nf_states onvm_limits
      nth_Cons' nth_update_if split: option.splits)

lemma demo_tx_inv: "tx_inv demo_pkt_env lr_items lr_room (demo_qm, demo_tx_state)"
proof -
  have nf: "nf_tx_q (pk_nfs demo_pkt_state ! 1) = Some \<lparr>lr_items = [], lr_room = 8\<rparr>" "pk_nfs demo_pkt_state ! 1 = demo_nf 1"
    by (simp_all add: demo_pkt_state_def demo_nf_def)
  have c: "same_config demo_pkt_state demo_tx_state"
    using set_ring_config(2) [OF nf(1), of "\<lparr>lr_items = [7, 9], lr_room = 6\<rparr>"] nf(2) by (simp add: demo_tx_state_def)
  have mb: "pk_mbufs demo_tx_state p = pk_mbufs demo_pkt_state p" for p by (simp add: demo_tx_state_def)
  have ok: "cfg_ok None (demo_qm, demo_tx_state)" using cfg_ok_config [OF cfg_ok_none [OF demo_tx(2)] c] .
  have "sendable demo_pkt_env demo_tx_state True p" if "p = 7 \<or> p = 9" for p
    using sendable_config [OF c mb] demo_tx(3) that by auto
  then have "waiting_ok demo_pkt_env lr_items demo_tx_state"
    using demo_tx_waiting by (auto simp: waiting_ok_def split: if_splits)
  then show ?thesis
    using demo_ring demo_tx(1) ok
    by (simp add: tx_inv_def) (simp add: thread_range_def demo_qm_def ports_ok_def demo_tx_state_def demo_pkt_state_def onvm_limits)
qed


end
