(* ===== verification/CoreAlloc.thy ===== *)
theory CoreAlloc
  imports OnvmTypes
begin

text \<open>
  Assignment of CPU cores to NFs (\<^verbatim>\<open>onvm_threading.c\<close>). The number of online cores is what
  \<^verbatim>\<open>sysconf\<close> reports, an argument; the core table is a list and an access beyond it is \<open>None\<close>.
\<close>

section \<open>Operations\<close>

text \<open>The loop that looks for the usable core with the fewest NFs: best core and its count so far.\<close>

definition usable :: "core_status \<Rightarrow> bool" where
  "usable c \<longleftrightarrow> enabled c \<noteq> 0 \<and> is_dedicated_core c = 0"

primrec scan_cores :: "core_status list \<Rightarrow> nat \<Rightarrow> nat \<times> u16 \<Rightarrow> nat \<times> u16" where
  "scan_cores [] i bm = bm"
| "scan_cores (c # cs) i bm =
     scan_cores cs (i + 1) (if usable c \<and> nf_count c < snd bm then (i, nf_count c) else bm)"

definition onvm_threading_get_core ::
  "nat \<Rightarrow> u16 \<Rightarrow> u8 \<Rightarrow> core_status list \<Rightarrow> (u8 \<times> u16 \<times> core_status list) option" where
  "onvm_threading_get_core max_cores core_value flags cs =
     (if ONVM_CHECK_BIT flags MANUAL_CORE_ASSIGNMENT_BIT then
        let p = unat core_value in
        if p > max_cores then Some (NF_CORE_OUT_OF_RANGE, core_value, cs)
        else if p \<ge> length cs then None
        else if enabled (cs ! p) = 0 then Some (NF_CORE_OUT_OF_RANGE, core_value, cs)
        else if is_dedicated_core (cs ! p) \<noteq> 0 then Some (NF_CORE_BUSY, core_value, cs)
        else if \<not> ONVM_CHECK_BIT flags SHARE_CORE_BIT \<and> nf_count (cs ! p) \<noteq> 0
        then Some (NF_NO_DEDICATED_CORES, core_value, cs)
        else
          let ded = (if ONVM_CHECK_BIT flags SHARE_CORE_BIT then is_dedicated_core (cs ! p) else 1)
          in Some (0, core_value, cs[p := (cs ! p)\<lparr>is_dedicated_core := ded, nf_count := nf_count (cs ! p) + 1\<rparr>])
      else if max_cores > length cs then None
      else
        let (best, mn) = scan_cores (take max_cores cs) 0 (0, - 1) in
        if mn = - 1 then Some (NF_NO_CORES, core_value, cs)
        else if \<not> ONVM_CHECK_BIT flags SHARE_CORE_BIT \<and> mn \<noteq> 0
        then Some (NF_NO_DEDICATED_CORES, of_nat best, cs)
        else
          let ded = (if ONVM_CHECK_BIT flags SHARE_CORE_BIT then is_dedicated_core (cs ! best) else 1)
          in Some (0, of_nat best,
                   cs[best := (cs ! best)\<lparr>is_dedicated_core := ded, nf_count := nf_count (cs ! best) + 1\<rparr>]))"

text \<open>\<open>set_affinity\<close> is the result of \<^verbatim>\<open>rte_thread_set_affinity\<close> for the one-core set.\<close>

definition onvm_threading_core_affinitize :: "nat \<Rightarrow> (nat \<Rightarrow> int) \<Rightarrow> int \<Rightarrow> int" where
  "onvm_threading_core_affinitize num_cores set_affinity cpu =
     (if cpu < 0 \<or> cpu \<ge> int num_cores then - 1 else set_affinity (nat cpu))"

text \<open>The most used core: index and count of the first core with the largest count.\<close>

primrec most_used :: "core_status list \<Rightarrow> nat \<Rightarrow> u16 \<times> u16 \<Rightarrow> u16 \<times> u16" where
  "most_used [] i um = um"
| "most_used (c # cs) i um = most_used cs (i + 1) (if nf_count c > snd um then (of_nat i, nf_count c) else um)"

datatype reassign_result = No_Reassignment | Reassign u16 | Exit_No_NF u16

definition onvm_threading_find_nf_to_reassign_core ::
  "nat \<Rightarrow> ('q, 'mq) onvm_nf list \<Rightarrow> u16 \<Rightarrow> core_status list \<Rightarrow> reassign_result" where
  "onvm_threading_find_nf_to_reassign_core num_cores nfs candidate_core cs =
     (let (most_used_core, max_nfs_per_core) = most_used (take num_cores cs) 0 (0, 0) in
      if max_nfs_per_core = 1
         \<or> int (unat (nf_count (cs ! unat candidate_core))) \<ge> int (unat max_nfs_per_core) - 1
      then No_Reassignment
      else
        case find (\<lambda>nf. onvm_nf_is_valid nf \<and> nf_core nf = most_used_core) nfs of
          None \<Rightarrow> Exit_No_NF most_used_core
        | Some nf \<Rightarrow> if nf_instance_id nf = 0 then Exit_No_NF most_used_core else Reassign (nf_instance_id nf))"

section \<open>The search loop\<close>

lemma scan_cores_spec:
  "scan_cores cs i (b, m) = (b', m') \<Longrightarrow>
     m' \<le> m \<and> (\<forall>j < length cs. usable (cs ! j) \<longrightarrow> m' \<le> nf_count (cs ! j))
     \<and> (m' = m \<and> b' = b
        \<or> (\<exists>j < length cs. b' = i + j \<and> usable (cs ! j) \<and> nf_count (cs ! j) = m' \<and> m' < m
             \<and> (\<forall>k < j. usable (cs ! k) \<longrightarrow> m' < nf_count (cs ! k))))"
proof (induction cs arbitrary: i b m)
  case (Cons c cs)
  show ?case
  proof (cases "usable c \<and> nf_count c < m")
    case True
    then have "scan_cores cs (i + 1) (i, nf_count c) = (b', m')" using Cons.prems by simp
    from Cons.IH [OF this] True show ?thesis
      by (fastforce simp: nth_Cons' less_Suc_eq_0_disj all_conj_distrib split: if_splits
          intro: exI [where x = 0] exI [where x = "Suc j" for j])
  next
    case False
    then have eq: "scan_cores cs (Suc i) (b, m) = (b', m')" using Cons.prems by auto
    have IH: "m' \<le> m" "\<forall>j < length cs. usable (cs ! j) \<longrightarrow> m' \<le> nf_count (cs ! j)"
      "m' = m \<and> b' = b \<or> (\<exists>j < length cs. b' = Suc i + j \<and> usable (cs ! j) \<and> nf_count (cs ! j) = m' \<and> m' < m
         \<and> (\<forall>k < j. usable (cs ! k) \<longrightarrow> m' < nf_count (cs ! k)))"
      using Cons.IH [OF eq] by simp_all
    have head: "usable c \<longrightarrow> m \<le> nf_count c" using False by auto
    have all: "\<forall>j < length (c # cs). usable ((c # cs) ! j) \<longrightarrow> m' \<le> nf_count ((c # cs) ! j)"
      using IH(1,2) head by (auto simp: nth_Cons' less_Suc_eq_0_disj)
    from IH(3) show ?thesis
    proof
      assume "m' = m \<and> b' = b"
      then show ?thesis using all by simp
    next
      assume "\<exists>j < length cs. b' = Suc i + j \<and> usable (cs ! j) \<and> nf_count (cs ! j) = m' \<and> m' < m
         \<and> (\<forall>k < j. usable (cs ! k) \<longrightarrow> m' < nf_count (cs ! k))"
      then obtain j where j: "j < length cs" "b' = Suc i + j" "usable (cs ! j)" "nf_count (cs ! j) = m'" "m' < m"
        "\<forall>k < j. usable (cs ! k) \<longrightarrow> m' < nf_count (cs ! k)" by blast
      have "\<forall>k < Suc j. usable ((c # cs) ! k) \<longrightarrow> m' < nf_count ((c # cs) ! k)"
        using j(5,6) head by (auto simp: nth_Cons' less_Suc_eq_0_disj)
      then show ?thesis using all j IH(1) by (intro conjI disjI2 exI [where x = "Suc j"]) auto
    qed
  qed
qed simp

text \<open>The scan from the code's start values.\<close>

lemma scan_cores_best:
  assumes "scan_cores cs 0 (0, - 1) = (b, m)"
  shows "m = - 1 \<and> (\<forall>j < length cs. usable (cs ! j) \<longrightarrow> nf_count (cs ! j) = - 1)
    \<or> b < length cs \<and> usable (cs ! b) \<and> nf_count (cs ! b) = m \<and> m \<noteq> - 1
      \<and> (\<forall>j < length cs. usable (cs ! j) \<longrightarrow> m \<le> nf_count (cs ! j))
      \<and> (\<forall>j < b. usable (cs ! j) \<longrightarrow> m < nf_count (cs ! j))"
proof -
  have top: "x \<le> - 1" "- 1 \<le> x \<longleftrightarrow> x = - 1" for x :: u16
    by (simp_all add: word_order.extremum_unique)
  show ?thesis using scan_cores_spec [OF assms] by (auto simp: top)
qed

section \<open>Properties\<close>

text \<open>An exclusive core runs exactly one NF.\<close>

definition dedicated_ok :: "core_status list \<Rightarrow> bool" where
  "dedicated_ok cs \<longleftrightarrow> (\<forall>c \<in> set cs. is_dedicated_core c \<noteq> 0 \<longrightarrow> nf_count c = 1)"

text \<open>
  Automatic core assignment (no manual bit): either no enabled core that is not dedicated has room
  (\<^verbatim>\<open>NF_NO_CORES\<close>), or the first core with the fewest NFs among them is chosen; a request for a
  dedicated core is refused (\<^verbatim>\<open>NF_NO_DEDICATED_CORES\<close>) unless that core is empty; otherwise its
  count goes up by one without wrapping, it becomes dedicated exactly on such a request, and no
  other core changes. All errors leave the table as it was.
\<close>

lemma get_core_automatic:
  assumes "\<not> ONVM_CHECK_BIT flags MANUAL_CORE_ASSIGNMENT_BIT" and "n \<le> length cs" and "n \<le> 65536"
  shows "\<exists>r v cs'. onvm_threading_get_core n core flags cs = Some (r, v, cs')
    \<and> (r = NF_NO_CORES \<and> cs' = cs \<and> v = core \<and> (\<forall>j < n. usable (cs ! j) \<longrightarrow> nf_count (cs ! j) = - 1)
       \<or> (unat v < n \<and> usable (cs ! unat v)
          \<and> (\<forall>j < n. usable (cs ! j) \<longrightarrow> nf_count (cs ! unat v) \<le> nf_count (cs ! j))
          \<and> (\<forall>j < unat v. usable (cs ! j) \<longrightarrow> nf_count (cs ! unat v) < nf_count (cs ! j))
          \<and> (if \<not> ONVM_CHECK_BIT flags SHARE_CORE_BIT \<and> nf_count (cs ! unat v) \<noteq> 0
             then r = NF_NO_DEDICATED_CORES \<and> cs' = cs
             else r = 0 \<and> length cs' = length cs
               \<and> unat (nf_count (cs' ! unat v)) = unat (nf_count (cs ! unat v)) + 1
               \<and> (is_dedicated_core (cs' ! unat v) \<noteq> 0 \<longleftrightarrow> \<not> ONVM_CHECK_BIT flags SHARE_CORE_BIT)
               \<and> (\<forall>j. j \<noteq> unat v \<longrightarrow> cs' ! j = cs ! j))))"
proof -
  obtain b m where bm: "scan_cores (take n cs) 0 (0, - 1) = (b, m)" by (metis surj_pair)
  consider (none) "m = - 1" "\<forall>j < n. usable (cs ! j) \<longrightarrow> nf_count (cs ! j) = - 1"
    | (some) "b < n" "usable (cs ! b)" "nf_count (cs ! b) = m" "m \<noteq> - 1"
        "\<forall>j < n. usable (cs ! j) \<longrightarrow> m \<le> nf_count (cs ! j)" "\<forall>j < b. usable (cs ! j) \<longrightarrow> m < nf_count (cs ! j)"
    using scan_cores_best [OF bm] assms(2) by (auto simp: min_absorb2)
  then show ?thesis
  proof cases
    case none
    then show ?thesis using assms bm by (auto simp: onvm_threading_get_core_def)
  next
    case some
    have v: "unat (of_nat b :: u16) = b" using some(1) assms(3) by (simp add: unat_of_nat_exact)
    have "unat m \<noteq> 65535" using some(4) by (simp add: word_unat_eq_iff unsigned_minus_1_eq_mask mask_eq_exp_minus_1)
    then have inc: "unat (m + 1) = unat m + 1"
      using unat_less_2p [of m] by (subst unat_inc) simp_all
    let ?cs = "cs[b := (cs ! b)\<lparr>is_dedicated_core := (if ONVM_CHECK_BIT flags SHARE_CORE_BIT then is_dedicated_core (cs ! b) else 1),
      nf_count := nf_count (cs ! b) + 1\<rparr>]"
    have "onvm_threading_get_core n core flags cs =
      (if \<not> ONVM_CHECK_BIT flags SHARE_CORE_BIT \<and> m \<noteq> 0 then Some (NF_NO_DEDICATED_CORES, of_nat b, cs)
       else Some (0, of_nat b, ?cs))"
      using assms bm some(4) by (simp add: onvm_threading_get_core_def Let_def)
    then show ?thesis
      using some v inc assms(2) by (simp add: usable_def)
  qed
qed

definition demo_cores :: "core_status list" where
  "demo_cores = [\<lparr>enabled = 0, is_dedicated_core = 0, nf_count = 0\<rparr>, \<lparr>enabled = 1, is_dedicated_core = 1, nf_count = 1\<rparr>,
     \<lparr>enabled = 1, is_dedicated_core = 0, nf_count = 2\<rparr>, \<lparr>enabled = 1, is_dedicated_core = 0, nf_count = 1\<rparr>]"

text \<open>
  A dedicated core never runs two NFs: every call of \<^verbatim>\<open>onvm_threading_get_core\<close>, manual or
  automatic, with any flags and whatever its result, keeps the invariant that a core marked as
  dedicated has exactly one NF.
\<close>

lemma get_core_keeps_dedicated:
  assumes "dedicated_ok cs" and "onvm_threading_get_core n core flags cs = Some (r, v, cs')"
  shows "dedicated_ok cs' \<and> length cs' = length cs"
proof -
  have upd: "dedicated_ok (cs[i := c])" if "is_dedicated_core c \<noteq> 0 \<longrightarrow> nf_count c = 1" for i c
    using assms(1) that set_update_subset_insert [of cs i c] by (auto simp: dedicated_ok_def)
  show ?thesis
  proof (cases "ONVM_CHECK_BIT flags MANUAL_CORE_ASSIGNMENT_BIT")
    case True
    then show ?thesis using assms upd by (auto simp: onvm_threading_get_core_def Let_def split: if_splits)
  next
    case False
    obtain b m where bm: "scan_cores (take n cs) 0 (0, - 1) = (b, m)" by (metis surj_pair)
    have "m = - 1 \<or> nf_count (cs ! b) = m \<and> is_dedicated_core (cs ! b) = 0"
      using scan_cores_best [OF bm] by (auto simp: usable_def)
    then show ?thesis
      using assms upd False bm by (auto simp: onvm_threading_get_core_def Let_def split: if_splits)
  qed
qed

text \<open>
  Manual core assignment: core \<open>p\<close> is granted exactly when it is within the table, enabled, not
  dedicated and, for an exclusive request, empty. The bound test of the code is \<^verbatim>\<open>> max_cores\<close>, so with
  a table of exactly \<open>n\<close> cores the request for core \<open>n\<close> itself reads beyond the table.
\<close>

lemma get_core_manual:
  assumes "ONVM_CHECK_BIT flags MANUAL_CORE_ASSIGNMENT_BIT" and "length cs = n"
  shows "(onvm_threading_get_core n core flags cs = None \<longleftrightarrow> unat core = n)
    \<and> ((\<exists>cs'. onvm_threading_get_core n core flags cs = Some (0, core, cs')) \<longleftrightarrow>
         unat core < n \<and> enabled (cs ! unat core) \<noteq> 0 \<and> is_dedicated_core (cs ! unat core) = 0
         \<and> (ONVM_CHECK_BIT flags SHARE_CORE_BIT \<or> nf_count (cs ! unat core) = 0))"
  using assms by (auto simp: onvm_threading_get_core_def Let_def nf_states)

end
