(* ===== verification/NfMgr.thy ===== *)
theory NfMgr
  imports CoreAlloc RteRing
begin

text \<open>
  Life cycle of network functions in the manager (\<^verbatim>\<open>onvm_nf.c\<close>): instance ids, start, ready, stop,
  message dispatch. The state is the shared tables of the manager; the rings of DPDK are parameters
  (\<open>mgr_env\<close>). \<^verbatim>\<open>rte_exit\<close>, an access outside a table and a loop that does not end are values of
  \<open>mgr_fail\<close>. A \<^verbatim>\<open>struct onvm_nf *\<close> is an index into the table \<open>nfs\<close>; packets and messages are
  pointers, numbers here, and what is given back to a pool is logged.
\<close>

section \<open>State\<close>

datatype mgr_fail = Rte_Exit | Bad_Access | No_Return

datatype mgr_msg =
    Msg_Request_LPM nat
  | Msg_Request_FT nat
  | Msg_NF_Starting "nat option"
  | Msg_NF_Ready nat
  | Msg_NF_Stopping "nat option"
  | Msg_Other

record ('q, 'mq) mgr_state =
  nfs :: "('q, 'mq) onvm_nf list"
  services :: "u16 list list"
  nf_per_service_count :: "u16 list"
  cores :: "core_status list"
  num_nfs :: u16
  next_instance_id :: u16
  starting_instance_id :: u16
  init_cfgs :: "nat \<Rightarrow> onvm_nf_init_cfg option"
  request_status :: "nat \<Rightarrow> int"
  incoming_msg_queue :: 'mq
  ring_names :: "string list"
  freed_pkts :: "nat list"
  freed_msgs :: "nat list"
  nf_info_puts :: "nat list"

record ('q, 'mq) mgr_env =
  me_max_cores :: nat
  me_pkt_ring :: "('q, nat) ring_api"
  me_msg_ring :: "('mq, nat) ring_api"
  me_new_pkt_ring :: "nat \<Rightarrow> 'q option"
  me_new_msg_ring :: "nat \<Rightarrow> 'mq option"
  me_msg_of :: "nat \<Rightarrow> mgr_msg"
  me_nf_info_pool :: bool
  me_lpm_create :: "nat \<Rightarrow> bool"
  me_hash_create :: "nat \<Rightarrow> bool"

abbreviation update_nf :: "nat \<Rightarrow> (('q, 'mq) onvm_nf \<Rightarrow> ('q, 'mq) onvm_nf) \<Rightarrow> ('q, 'mq) mgr_state \<Rightarrow> ('q, 'mq) mgr_state" where
  "update_nf i f s \<equiv> s\<lparr>nfs := (nfs s)[i := f (nfs s ! i)]\<rparr>"

section \<open>Instance ids\<close>

text \<open>The first index from \<open>i\<close> on whose NF is not running.\<close>

function next_free :: "('q, 'mq) onvm_nf list \<Rightarrow> nat \<Rightarrow> nat option" where
  "next_free ns i =
     (if i < MAX_NFS then if onvm_nf_is_valid (ns ! i) then next_free ns (i + 1) else Some i else None)"
  by pat_completeness auto
termination by (relation "measure (\<lambda>(ns, i). MAX_NFS - i)") auto

declare next_free.simps [simp del]

definition onvm_nf_next_instance_id :: "('q, 'mq) mgr_state \<Rightarrow> nat \<times> ('q, 'mq) mgr_state" where
  "onvm_nf_next_instance_id s =
     (if unat (num_nfs s) \<ge> MAX_NFS then (MAX_NFS, s)
      else case next_free (nfs s) (unat (next_instance_id s)) of
        Some i \<Rightarrow> (i, s\<lparr>next_instance_id := of_nat (i + 1)\<rparr>)
      | None \<Rightarrow>
          (case next_free (nfs s) (unat (starting_instance_id s)) of
             Some i \<Rightarrow> (i, s\<lparr>next_instance_id := of_nat (i + 1)\<rparr>)
           | None \<Rightarrow> (MAX_NFS, s\<lparr>next_instance_id := of_nat (max MAX_NFS (unat (starting_instance_id s)))\<rparr>)))"

section \<open>Rings\<close>

abbreviation NF_MSG_QUEUE_SIZE :: nat where "NF_MSG_QUEUE_SIZE \<equiv> 128"

definition onvm_nf_init_rings :: "('q, 'mq) mgr_env \<Rightarrow> nat \<Rightarrow> ('q, 'mq) mgr_state \<Rightarrow> mgr_fail + ('q, 'mq) mgr_state" where
  "onvm_nf_init_rings env i s =
     (let k = ucast (nf_instance_id (nfs s ! i)) :: u32;
          rq = get_rx_queue_name k; tq = get_tx_queue_name k; mq = get_msg_queue_name k
      in if rq \<in> set (ring_names s) \<or> tq \<in> set (ring_names s) \<or> mq \<in> set (ring_names s) then Inl Rte_Exit
         else case (me_new_pkt_ring env NF_QUEUE_RINGSIZE, me_new_msg_ring env NF_MSG_QUEUE_SIZE) of
           (Some q, Some m) \<Rightarrow>
             Inr (update_nf i (\<lambda>nf. nf\<lparr>nf_rx_q := Some q, nf_tx_q := Some q, nf_msg_q := Some m\<rparr>)
                    (s\<lparr>ring_names := mq # tq # rq # ring_names s\<rparr>))
         | _ \<Rightarrow> Inl Rte_Exit)"

definition onvm_nf_clear_rings :: "nat \<Rightarrow> ('q, 'mq) mgr_state \<Rightarrow> ('q, 'mq) mgr_state" where
  "onvm_nf_clear_rings i s =
     (let k = ucast (nf_instance_id (nfs s ! i)) :: u32 in
      s\<lparr>ring_names := removeAll (get_rx_queue_name k) (removeAll (get_tx_queue_name k)
                       (removeAll (get_msg_queue_name k) (ring_names s)))\<rparr>)"

section \<open>Start and ready\<close>

text \<open>The slot of an accepted NF, filled from its configuration.\<close>

definition started_nf :: "nat \<Rightarrow> onvm_nf_init_cfg \<Rightarrow> ('q, 'mq) mgr_state \<Rightarrow> ('q, 'mq) mgr_state" where
  "started_nf i ic s =
     update_nf i (\<lambda>nf. nf\<lparr>nf_instance_id := of_nat i, nf_service_id := ic_service_id ic, nf_status := NF_STARTING,
       nf_tag := ic_tag ic, nf_core := ic_core ic, nf_time_to_live := ic_time_to_live ic, nf_pkt_limit := ic_pkt_limit ic\<rparr>) s"

definition onvm_nf_start ::
  "('q, 'mq) mgr_env \<Rightarrow> onvm_nf_init_cfg option \<Rightarrow> ('q, 'mq) mgr_state
    \<Rightarrow> mgr_fail + (int \<times> onvm_nf_init_cfg option \<times> ('q, 'mq) mgr_state)" where
  "onvm_nf_start env cfgp s0 =
     (case cfgp of
        None \<Rightarrow> Inr (1, None, s0)
      | Some ic \<Rightarrow>
          if ic_status ic \<noteq> NF_WAITING_FOR_ID then Inr (1, Some ic, s0)
          else
            let (nf_id, s) = (if ic_instance_id ic = NF_NO_ID then onvm_nf_next_instance_id s0
                              else (unat (ic_instance_id ic), s0));
                sid = unat (ic_service_id ic)
            in if nf_id \<ge> MAX_NFS then Inr (1, Some (ic\<lparr>ic_status := NF_NO_IDS\<rparr>), s)
               else if sid \<ge> MAX_SERVICES then Inr (1, Some (ic\<lparr>ic_status := NF_SERVICE_MAX\<rparr>), s)
               else if unat (nf_per_service_count s ! sid) \<ge> MAX_NFS_PER_SERVICE
               then Inr (1, Some (ic\<lparr>ic_status := NF_SERVICE_COUNT_MAX\<rparr>), s)
               else if onvm_nf_is_valid (nfs s ! nf_id) then Inr (1, Some (ic\<lparr>ic_status := NF_ID_CONFLICT\<rparr>), s)
               else
                 let ic1 = ic\<lparr>ic_instance_id := of_nat nf_id\<rparr> in
                 (case onvm_threading_get_core (me_max_cores env) (ic_core ic1) (ucast (ic_init_options ic1)) (cores s) of
                    None \<Rightarrow> Inl Bad_Access
                  | Some (ret, core, cs) \<Rightarrow>
                      let ic2 = ic1\<lparr>ic_core := core\<rparr>; s1 = s\<lparr>cores := cs\<rparr> in
                      if ret \<noteq> 0 then Inr (1, Some (ic2\<lparr>ic_status := ret\<rparr>), s1)
                      else
                        let s2 = started_nf nf_id ic2 s1
                        in (case onvm_nf_init_rings env nf_id s2 of
                              Inl e \<Rightarrow> Inl e
                            | Inr s3 \<Rightarrow> Inr (0, Some (ic2\<lparr>ic_status := NF_STARTING\<rparr>), s3))))"

definition onvm_nf_ready :: "nat \<Rightarrow> ('q, 'mq) mgr_state \<Rightarrow> mgr_fail + (int \<times> ('q, 'mq) mgr_state)" where
  "onvm_nf_ready i s =
     (if i \<ge> length (nfs s) then Inl Bad_Access
      else if nf_status (nfs s ! i) \<noteq> NF_STARTING then Inr (- 1, s)
      else
        let sid = unat (nf_service_id (nfs s ! i)) in
        if sid \<ge> length (nf_per_service_count s) \<or> sid \<ge> length (services s) then Inl Bad_Access
        else
          let service_count = nf_per_service_count s ! sid; row = services s ! sid in
          if unat service_count \<ge> length row then Inl Bad_Access
          else Inr (0, update_nf i (\<lambda>nf. nf\<lparr>nf_status := NF_RUNNING\<rparr>)
                 (s\<lparr>nf_per_service_count := (nf_per_service_count s)[sid := service_count + 1],
                    services := (services s)[sid := row[unat service_count := nf_instance_id (nfs s ! i)]],
                    num_nfs := num_nfs s + 1\<rparr>)))"

section \<open>Stop\<close>

text \<open>The position of the id in its service's row; the length of the row when it is not there.\<close>

definition map_index :: "u16 \<Rightarrow> u16 list \<Rightarrow> nat" where
  "map_index i row = length (takeWhile (\<lambda>x. x \<noteq> i) (take MAX_NFS_PER_SERVICE row))"

text \<open>The shift that moves the gap at \<open>k\<close> to the end of the used part.\<close>

function shift_row :: "u16 list \<Rightarrow> nat \<Rightarrow> u16 list" where
  "shift_row row k =
     (if k < MAX_NFS_PER_SERVICE - 1 then
        if row ! (k + 1) = 0 then row
        else shift_row (row[k := row ! (k + 1), k + 1 := 0]) (k + 1)
      else row)"
  by pat_completeness auto
termination by (relation "measure (\<lambda>(row, k). MAX_NFS_PER_SERVICE - k)") auto

declare shift_row.simps [simp del]

definition unregister_nf :: "u16 \<Rightarrow> nat \<Rightarrow> ('q, 'mq) mgr_state \<Rightarrow> ('q, 'mq) mgr_state" where
  "unregister_nf nf_id sid s =
     (let row = services s ! sid; k = map_index nf_id row in
      s\<lparr>nf_per_service_count := (nf_per_service_count s)[sid := nf_per_service_count s ! sid - 1],
        services := (if k < MAX_NFS_PER_SERVICE
                     then (services s)[sid := shift_row (row[k := 0]) k] else services s)\<rparr>)"

definition onvm_stats_clear_nf :: "nat \<Rightarrow> ('q, 'mq) mgr_state \<Rightarrow> ('q, 'mq) mgr_state" where
  "onvm_stats_clear_nf i s = update_nf i (\<lambda>nf. nf\<lparr>nf_stats := zero_nf_stats\<lparr>st_act_buffer := st_act_buffer (nf_stats nf)\<rparr>\<rparr>) s"

text \<open>Empty the three rings of the NF: packets are freed, messages go back to their pool.\<close>

definition drain_rings :: "('q, 'mq) mgr_env \<Rightarrow> nat \<Rightarrow> ('q, 'mq) mgr_state \<Rightarrow> mgr_fail + ('q, 'mq) mgr_state" where
  "drain_rings env i s =
     (case (nf_rx_q (nfs s ! i), nf_tx_q (nfs s ! i), nf_msg_q (nfs s ! i)) of
        (Some rq, Some tq, Some mq) \<Rightarrow>
          (case (drain_burst (me_pkt_ring env) PACKET_READ_SIZE [] rq, drain_burst (me_pkt_ring env) PACKET_READ_SIZE [] tq,
                 drain_each (me_msg_ring env) [] mq) of
             (Some (ps, rq1), Some (qs, tq1), Some (ms, mq1)) \<Rightarrow>
               Inr (update_nf i (\<lambda>nf. nf\<lparr>nf_rx_q := Some rq1, nf_tx_q := Some tq1, nf_msg_q := Some mq1\<rparr>)
                      (s\<lparr>freed_pkts := freed_pkts s @ ps @ qs, freed_msgs := freed_msgs s @ ms\<rparr>))
           | _ \<Rightarrow> Inl No_Return)
      | _ \<Rightarrow> Inl Bad_Access)"

text \<open>The parent of the NF counts one child less; the core it ran on loses it and is no longer dedicated.\<close>

definition tell_parent :: "nat \<Rightarrow> ('q, 'mq) mgr_state \<Rightarrow> ('q, 'mq) mgr_state option" where
  "tell_parent nf_id s =
     (let parent = unat (nf_parent (nfs s ! nf_id)) in
      if parent = 0 then Some s
      else if parent \<ge> length (nfs s) then None
      else Some (update_nf parent (\<lambda>n. n\<lparr>nf_children_cnt := nf_children_cnt n - 1\<rparr>) s))"

definition leave_core :: "nat \<Rightarrow> ('q, 'mq) mgr_state \<Rightarrow> ('q, 'mq) mgr_state option" where
  "leave_core core s =
     (if core \<ge> length (cores s) then None
      else let c = cores s ! core
           in Some (s\<lparr>cores := (cores s)[core := c\<lparr>nf_count := nf_count c - 1, is_dedicated_core := 0\<rparr>]\<rparr>))"

definition onvm_nf_stop ::
  "('q, 'mq) mgr_env \<Rightarrow> nat option \<Rightarrow> ('q, 'mq) mgr_state \<Rightarrow> mgr_fail + (int \<times> ('q, 'mq) mgr_state)" where
  "onvm_nf_stop env ptr s0 =
     (case ptr of
        None \<Rightarrow> Inr (1, s0)
      | Some i \<Rightarrow>
          if i \<ge> length (nfs s0) then Inl Bad_Access
          else
            let nf = nfs s0 ! i; nf_id = unat (nf_instance_id nf); sid = unat (nf_service_id nf);
                status = nf_status nf;
                s1 = update_nf i (\<lambda>n. n\<lparr>nf_tag := None\<rparr>) s0
            in if status \<noteq> NF_STARTING \<and> status \<noteq> NF_RUNNING \<and> status \<noteq> NF_PAUSED then Inr (1, s1)
               else if nf_id \<ge> length (nfs s0) then Inl Bad_Access
               else
                 let s2 = update_nf nf_id (\<lambda>n. n\<lparr>nf_status := NF_STOPPED\<rparr>) (update_nf i (\<lambda>n. n\<lparr>nf_status := NF_STOPPED\<rparr>) s1)
                 in (case Option.bind (tell_parent nf_id s2) (leave_core (unat (nf_core nf))) of
                       None \<Rightarrow> Inl Bad_Access
                     | Some s4 \<Rightarrow>
                         (case drain_rings env nf_id s4 of
                            Inl e \<Rightarrow> Inl e
                          | Inr s5 \<Rightarrow>
                              let s6 = s5\<lparr>nf_info_puts := i # nf_info_puts s5\<rparr> in
                              if \<not> me_nf_info_pool env then Inr (1, s5)
                              else if status \<noteq> NF_RUNNING \<and> status \<noteq> NF_PAUSED then Inr (0, s6)
                              else if sid \<ge> length (services s6) \<or> sid \<ge> length (nf_per_service_count s6) then Inl Bad_Access
                              else
                                let s7 = s6\<lparr>num_nfs := num_nfs s6 - 1\<rparr>;
                                    s8 = onvm_nf_clear_rings nf_id (onvm_stats_clear_nf nf_id s7)
                                in Inr (0, unregister_nf (nf_instance_id nf) sid s8))))"

section \<open>Messages\<close>

definition onvm_nf_init_lpm_region :: "('q, 'mq) mgr_env \<Rightarrow> nat \<Rightarrow> ('q, 'mq) mgr_state \<Rightarrow> ('q, 'mq) mgr_state" where
  "onvm_nf_init_lpm_region env r s = s\<lparr>request_status := (request_status s)(r := if me_lpm_create env r then 0 else - 1)\<rparr>"

definition onvm_nf_init_ft :: "('q, 'mq) mgr_env \<Rightarrow> nat \<Rightarrow> ('q, 'mq) mgr_state \<Rightarrow> ('q, 'mq) mgr_state" where
  "onvm_nf_init_ft env r s = s\<lparr>request_status := (request_status s)(r := if me_hash_create env r then 0 else - 1)\<rparr>"

definition handle_mgr_msg :: "('q, 'mq) mgr_env \<Rightarrow> mgr_msg \<Rightarrow> ('q, 'mq) mgr_state \<Rightarrow> mgr_fail + ('q, 'mq) mgr_state" where
  "handle_mgr_msg env msg s =
     (case msg of
        Msg_Request_LPM r \<Rightarrow> Inr (onvm_nf_init_lpm_region env r s)
      | Msg_Request_FT r \<Rightarrow> Inr (onvm_nf_init_ft env r s)
      | Msg_NF_Starting p \<Rightarrow>
          (case onvm_nf_start env (Option.bind p (init_cfgs s)) s of
             Inl e \<Rightarrow> Inl e
           | Inr (r, ic, s1) \<Rightarrow> Inr (case p of None \<Rightarrow> s1 | Some a \<Rightarrow> s1\<lparr>init_cfgs := (init_cfgs s1)(a := ic)\<rparr>))
      | Msg_NF_Ready i \<Rightarrow> (case onvm_nf_ready i s of Inl e \<Rightarrow> Inl e | Inr (r, s1) \<Rightarrow> Inr s1)
      | Msg_NF_Stopping p \<Rightarrow> (case onvm_nf_stop env p s of Inl e \<Rightarrow> Inl e | Inr (r, s1) \<Rightarrow> Inr s1)
      | Msg_Other \<Rightarrow> Inr s)"

primrec handle_mgr_msgs :: "('q, 'mq) mgr_env \<Rightarrow> nat list \<Rightarrow> ('q, 'mq) mgr_state \<Rightarrow> mgr_fail + ('q, 'mq) mgr_state" where
  "handle_mgr_msgs env [] s = Inr s"
| "handle_mgr_msgs env (m # ms) s =
     (case handle_mgr_msg env (me_msg_of env m) s of
        Inl e \<Rightarrow> Inl e
      | Inr s1 \<Rightarrow> handle_mgr_msgs env ms (s1\<lparr>freed_msgs := freed_msgs s1 @ [m]\<rparr>))"

definition onvm_nf_check_status :: "('q, 'mq) mgr_env \<Rightarrow> ('q, 'mq) mgr_state \<Rightarrow> mgr_fail + ('q, 'mq) mgr_state" where
  "onvm_nf_check_status env s =
     (let num_msgs = ring_count (me_msg_ring env) (incoming_msg_queue s) in
      if num_msgs = 0 then Inr s
      else if num_msgs > MAX_NFS then Inl Bad_Access
      else
        let (ms, q) = ring_dequeue_bulk (me_msg_ring env) (incoming_msg_queue s) num_msgs;
            s1 = s\<lparr>incoming_msg_queue := q\<rparr>
        in if ms = [] then Inr s1 else handle_mgr_msgs env ms s1)"

text \<open>
  \<^verbatim>\<open>onvm_nf_send_msg\<close>: \<open>slot\<close> is the message object the pool gave, \<open>None\<close> when it is exhausted
  (the contents of the message are not part of this model).
\<close>

definition onvm_nf_send_msg ::
  "('q, 'mq) mgr_env \<Rightarrow> nat option \<Rightarrow> nat \<Rightarrow> ('q, 'mq) mgr_state \<Rightarrow> (int \<times> ('q, 'mq) mgr_state) option" where
  "onvm_nf_send_msg env slot dest s =
     (case slot of
        None \<Rightarrow> Some (- ENOENT, s)
      | Some m \<Rightarrow>
          if dest \<ge> length (nfs s) then None
          else case nf_msg_q (nfs s ! dest) of
            None \<Rightarrow> None
          | Some q \<Rightarrow>
              let (r, q1) = ring_enqueue (me_msg_ring env) q m
              in Some (r, update_nf dest (\<lambda>nf. nf\<lparr>nf_msg_q := Some q1\<rparr>) s))"

definition onvm_nf_relocate_nf ::
  "('q, 'mq) mgr_env \<Rightarrow> nat option \<Rightarrow> nat \<Rightarrow> nat \<Rightarrow> ('q, 'mq) mgr_state \<Rightarrow> (int \<times> ('q, 'mq) mgr_state) option" where
  "onvm_nf_relocate_nf env slot dest new_core s =
     (let old = unat (nf_core (nfs s ! dest)) in
      if dest \<ge> length (nfs s) \<or> old \<ge> length (cores s) \<or> new_core \<ge> length (cores s) then None
      else
        let s1 = s\<lparr>cores := (cores s)[old := (cores s ! old)\<lparr>nf_count := nf_count (cores s ! old) - 1\<rparr>]\<rparr> in
        Option.bind (onvm_nf_send_msg env slot dest s1) (\<lambda>(r, s2).
          Some (0, s2\<lparr>cores := (cores s2)[new_core := (cores s2 ! new_core)\<lparr>nf_count := nf_count (cores s2 ! new_core) + 1\<rparr>]\<rparr>)))"

section \<open>The service table\<close>

text \<open>A row holds a list of ids from its start, zeros behind.\<close>

definition row_holds :: "u16 list \<Rightarrow> nat list \<Rightarrow> bool" where
  "row_holds row ids \<longleftrightarrow> length ids \<le> MAX_NFS_PER_SERVICE
     \<and> row = map of_nat ids @ replicate (MAX_NFS_PER_SERVICE - length ids) 0"

definition id_ok :: "nat \<Rightarrow> bool" where
  "id_ok i \<longleftrightarrow> 0 < i \<and> i < MAX_NFS"

lemma id_word: "id_ok i \<Longrightarrow> unat (of_nat i :: u16) = i" "id_ok i \<Longrightarrow> (of_nat i :: u16) \<noteq> 0"
  "id_ok i \<Longrightarrow> id_ok j \<Longrightarrow> (of_nat i :: u16) = of_nat j \<longleftrightarrow> i = j"
proof -
  have *: "id_ok i \<Longrightarrow> unat (of_nat i :: u16) = i" for i
    by (rule unat_of_nat_exact) (simp add: id_ok_def MAX_NFS_def)
  show "id_ok i \<Longrightarrow> unat (of_nat i :: u16) = i" by (rule *)
  show "id_ok i \<Longrightarrow> (of_nat i :: u16) \<noteq> 0" using * [of i] by (auto simp: id_ok_def)
  show "id_ok i \<Longrightarrow> id_ok j \<Longrightarrow> (of_nat i :: u16) = of_nat j \<longleftrightarrow> i = j" by (metis *)
qed

lemma row_holds_add:
  assumes "row_holds row ids" "length ids < MAX_NFS_PER_SERVICE"
  shows "row_holds (row[length ids := of_nat i]) (ids @ [i])"
proof -
  obtain m where m: "MAX_NFS_PER_SERVICE - length ids = Suc m"
    using assms(2) by (metis Suc_diff_Suc)
  then have "MAX_NFS_PER_SERVICE - length (ids @ [i]) = m" by simp
  then show ?thesis using assms m by (simp add: row_holds_def list_update_append)
qed

lemma shift_row_gap:
  "length A + 1 + length ys + m = MAX_NFS_PER_SERVICE \<Longrightarrow> \<forall>y \<in> set ys. id_ok y \<Longrightarrow>
   shift_row (A @ 0 # map of_nat ys @ replicate m 0) (length A) = A @ map of_nat ys @ 0 # replicate m 0"
proof (induction ys arbitrary: A)
  case Nil
  then show ?case by (cases m) (simp_all add: shift_row.simps [of _ "length A"] nth_append)
next
  case (Cons y ys)
  let ?row = "A @ 0 # of_nat y # map of_nat ys @ replicate m 0"
  have k: "length A < MAX_NFS_PER_SERVICE - 1" using Cons.prems(1) by simp
  have y: "?row ! (length A + 1) = of_nat y" by (simp add: nth_append)
  have nz: "(of_nat y :: u16) \<noteq> 0" using Cons.prems(2) id_word(2) by simp
  have upd: "?row[length A := of_nat y, length A + 1 := 0] = (A @ [of_nat y]) @ 0 # map of_nat ys @ replicate m 0"
    by (simp add: list_update_append)
  have "shift_row ?row (length A) = shift_row (?row[length A := of_nat y, length A + 1 := 0]) (length A + 1)"
    using k y nz by (subst shift_row.simps) (simp only: if_True if_False)
  also have "\<dots> = shift_row ((A @ [of_nat y]) @ 0 # map of_nat ys @ replicate m 0) (length (A @ [of_nat y]))"
    unfolding upd by simp
  also have "\<dots> = (A @ [of_nat y]) @ map of_nat ys @ 0 # replicate m 0"
    using Cons.prems by (intro Cons.IH) simp_all
  finally show ?case by simp
qed

lemma row_holds_remove:
  assumes row: "row_holds row ids" and ids: "distinct ids" "\<forall>j \<in> set ids. id_ok j" and i: "i \<in> set ids"
  defines "k \<equiv> map_index (of_nat i) row"
  shows "k < MAX_NFS_PER_SERVICE" "row_holds (shift_row (row[k := 0]) k) (remove1 i ids)"
proof -
  obtain xs ys where sp: "ids = xs @ i # ys" "i \<notin> set xs" using i by (meson split_list_first)
  let ?m = "MAX_NFS_PER_SERVICE - length ids"
  have r: "row = map of_nat xs @ of_nat i # map of_nat ys @ replicate ?m 0" and len: "length ids \<le> MAX_NFS_PER_SERVICE"
    using row sp(1) by (simp_all add: row_holds_def)
  have "length row = MAX_NFS_PER_SERVICE" using r len sp(1) by simp
  then have "take MAX_NFS_PER_SERVICE row = row" by simp
  moreover have "takeWhile (\<lambda>x. x \<noteq> of_nat i) row = map of_nat xs"
    unfolding r using ids(2) sp by (subst takeWhile_append2) (auto simp: id_word(3))
  ultimately have k: "k = length xs" by (simp add: k_def map_index_def)
  show "k < MAX_NFS_PER_SERVICE" using k len sp(1) by simp
  have "row[k := 0] = map of_nat xs @ 0 # map of_nat ys @ replicate ?m 0"
    unfolding r k by (simp add: list_update_append)
  moreover have "shift_row (map of_nat xs @ 0 # map of_nat ys @ replicate ?m 0) (length (map of_nat xs :: u16 list)) =
      map of_nat xs @ map of_nat ys @ 0 # replicate ?m 0"
    using len sp(1) ids(2) by (intro shift_row_gap) auto
  ultimately have "shift_row (row[k := 0]) k = map of_nat xs @ map of_nat ys @ 0 # replicate ?m 0"
    using k by simp
  moreover have "remove1 i ids = xs @ ys" using sp by (simp add: remove1_append)
  moreover have "MAX_NFS_PER_SERVICE - length (xs @ ys) = Suc ?m" using len sp(1) by simp
  ultimately show "row_holds (shift_row (row[k := 0]) k) (remove1 i ids)"
    using len sp(1) by (simp add: row_holds_def)
qed

section \<open>The registration invariant\<close>

text \<open>What the tables say about an NF: state, service and id.\<close>

definition view :: "('q, 'mq) onvm_nf list \<Rightarrow> (u8 \<times> u16 \<times> u16) list" where
  "view ns = map (\<lambda>nf. (nf_status nf, nf_service_id nf, nf_instance_id nf)) ns"

definition runs :: "(u8 \<times> u16 \<times> u16) list \<Rightarrow> nat set" where
  "runs v = {i. i < length v \<and> fst (v ! i) = NF_RUNNING}"

definition runs_in :: "(u8 \<times> u16 \<times> u16) list \<Rightarrow> nat \<Rightarrow> nat set" where
  "runs_in v sid = {i \<in> runs v. unat (fst (snd (v ! i))) = sid}"

text \<open>A slot that is in use carries its own index as id and a service of the table.\<close>

definition slot_ok :: "nat \<Rightarrow> u8 \<times> u16 \<times> u16 \<Rightarrow> bool" where
  "slot_ok i e \<longleftrightarrow> fst e \<noteq> NF_PAUSED
     \<and> (fst e \<in> {NF_STARTING, NF_RUNNING} \<longrightarrow> id_ok i \<and> snd (snd e) = of_nat i \<and> unat (fst (snd e)) < MAX_SERVICES)"

text \<open>Each row of the service table lists exactly the running NFs of its service, with their number beside it.\<close>

definition reg_ok :: "(u8 \<times> u16 \<times> u16) list \<Rightarrow> u16 list list \<Rightarrow> u16 list \<Rightarrow> u16 \<Rightarrow> bool" where
  "reg_ok v svc cnt n \<longleftrightarrow>
     length v = MAX_NFS \<and> length svc = MAX_SERVICES \<and> length cnt = MAX_SERVICES
     \<and> (\<forall>i < MAX_NFS. slot_ok i (v ! i))
     \<and> (\<forall>sid < MAX_SERVICES. \<exists>ids. row_holds (svc ! sid) ids \<and> unat (cnt ! sid) = length ids \<and> distinct ids
          \<and> set ids = runs_in v sid)
     \<and> unat n = card (runs v)"

definition mgr_inv :: "('q, 'mq) mgr_state \<Rightarrow> bool" where
  "mgr_inv s \<longleftrightarrow> reg_ok (view (nfs s)) (services s) (nf_per_service_count s) (num_nfs s)
     \<and> 1 \<le> unat (next_instance_id s) \<and> 1 \<le> unat (starting_instance_id s)"

lemma finite_runs [simp]: "finite (runs v)"
  by (rule finite_subset [of _ "{..<length v}"]) (auto simp: runs_def)

lemma card_runs: "reg_ok v svc cnt n \<Longrightarrow> card (runs v) < MAX_NFS"
proof -
  assume r: "reg_ok v svc cnt n"
  then have "runs v \<subseteq> {1..<MAX_NFS}"
    by (auto simp: reg_ok_def runs_def slot_ok_def id_ok_def Suc_le_eq)
  then have "card (runs v) \<le> card {1..<MAX_NFS}" by (intro card_mono) simp_all
  then show ?thesis by (simp add: MAX_NFS_def)
qed

lemma nf_state_distinct [simp]:
  "NF_STARTING \<noteq> NF_RUNNING" "NF_RUNNING \<noteq> NF_STARTING" "NF_STOPPED \<noteq> NF_RUNNING" "NF_STARTING \<noteq> NF_PAUSED"
  "NF_PAUSED \<noteq> NF_STARTING" "NF_PAUSED \<noteq> NF_RUNNING" "NF_RUNNING \<noteq> NF_PAUSED" "NF_STOPPED \<noteq> NF_PAUSED" "NF_STOPPED \<noteq> NF_STARTING"
  by (simp_all add: nf_states)

lemma runs_in_ids: "reg_ok v svc cnt n \<Longrightarrow> i \<in> runs_in v sid \<Longrightarrow> id_ok i"
  by (auto simp: reg_ok_def runs_in_def runs_def slot_ok_def)

text \<open>Replacing a slot that is not running by one that is not running changes no registration.\<close>

lemma runs_quiet:
  assumes "fst (v ! i) \<noteq> NF_RUNNING" "fst e \<noteq> NF_RUNNING"
  shows "runs (v[i := e]) = runs v" "runs_in (v[i := e]) sid = runs_in v sid"
  using assms by (auto simp: runs_in_def runs_def nth_update_if split: if_splits)

lemma reg_quiet:
  assumes r: "reg_ok v svc cnt n" and q: "fst (v ! i) \<noteq> NF_RUNNING" "fst e \<noteq> NF_RUNNING" and e: "slot_ok i e"
  shows "reg_ok (v[i := e]) svc cnt n"
  using r e unfolding reg_ok_def runs_quiet [OF q] by (auto simp: nth_update_if)

lemma reg_ready:
  assumes r: "reg_ok v svc cnt n" and i: "i < MAX_NFS" "v ! i = (NF_STARTING, sv, w)"
    and room: "unat (cnt ! unat sv) < MAX_NFS_PER_SERVICE"
  shows "reg_ok (v[i := (NF_RUNNING, sv, w)]) (svc[unat sv := (svc ! unat sv)[unat (cnt ! unat sv) := w]])
           (cnt[unat sv := cnt ! unat sv + 1]) (n + 1)"
proof -
  let ?v = "v[i := (NF_RUNNING, sv, w)]"
  have len: "length v = MAX_NFS" "length svc = MAX_SERVICES" "length cnt = MAX_SERVICES"
    using r by (simp_all add: reg_ok_def)
  have sl: "id_ok i" "w = of_nat i" "unat sv < MAX_SERVICES"
    using r i by (fastforce simp: reg_ok_def slot_ok_def)+
  have runs: "runs ?v = insert i (runs v)" "i \<notin> runs v"
    using i len by (auto simp: runs_def nth_update_if split: if_splits)
  have rin: "runs_in ?v sid = (if sid = unat sv then insert i (runs_in v sid) else runs_in v sid)" for sid
    using i len by (auto simp: runs_in_def runs_def nth_update_if split: if_splits)
  have num: "unat (n + 1) = card (runs ?v)"
    using card_runs [OF r] r runs by (subst unat_inc) (simp_all add: reg_ok_def MAX_NFS_def)
  have row: "\<exists>ids. row_holds (svc[unat sv := (svc ! unat sv)[unat (cnt ! unat sv) := w]] ! sid) ids
      \<and> unat (cnt[unat sv := cnt ! unat sv + 1] ! sid) = length ids \<and> distinct ids \<and> set ids = runs_in ?v sid"
    if sid: "sid < MAX_SERVICES" for sid
  proof -
    obtain ids where ids: "row_holds (svc ! sid) ids" "unat (cnt ! sid) = length ids" "distinct ids" "set ids = runs_in v sid"
      using r sid by (auto simp: reg_ok_def)
    show ?thesis
    proof (cases "sid = unat sv")
      case True
      have "unat (cnt ! sid + 1) = Suc (length ids)"
        using ids(2) room True by (subst unat_inc) (simp_all add: MAX_NFS_PER_SERVICE_def)
      then show ?thesis
        using True ids row_holds_add [OF ids(1), of i] room len sl(2) rin [of sid] runs(2) sid
        by (intro exI [where x = "ids @ [i]"]) (auto simp: runs_in_def)
    next
      case False
      then show ?thesis using ids rin [of sid] by auto
    qed
  qed
  have "\<forall>j < MAX_NFS. slot_ok j (?v ! j)"
    using r sl by (auto simp: reg_ok_def nth_update_if slot_ok_def)
  then show ?thesis using len num row by (simp add: reg_ok_def)
qed

lemma reg_stop:
  assumes r: "reg_ok v svc cnt n" and i: "i < MAX_NFS" "v ! i = (NF_RUNNING, sv, w)"
  defines "k \<equiv> map_index w (svc ! unat sv)"
  shows "k < MAX_NFS_PER_SERVICE"
    and "reg_ok (v[i := (NF_STOPPED, sv, w)]) (svc[unat sv := shift_row ((svc ! unat sv)[k := 0]) k])
           (cnt[unat sv := cnt ! unat sv - 1]) (n - 1)"
proof -
  let ?v = "v[i := (NF_STOPPED, sv, w)]"
  have len: "length v = MAX_NFS" "length svc = MAX_SERVICES" "length cnt = MAX_SERVICES"
    using r by (simp_all add: reg_ok_def)
  have sl: "id_ok i" "w = of_nat i" "unat sv < MAX_SERVICES"
    using r i by (fastforce simp: reg_ok_def slot_ok_def)+
  have runs: "runs ?v = runs v - {i}" "i \<in> runs v"
    using i len by (auto simp: runs_def nth_update_if split: if_splits)
  have rin: "runs_in ?v sid = (if sid = unat sv then runs_in v sid - {i} else runs_in v sid)"
    "i \<in> runs_in v (unat sv)" for sid
    using i len by (auto simp: runs_in_def runs_def nth_update_if split: if_splits)
  have n: "unat n = card (runs v)" using r by (simp add: reg_ok_def)
  then have "n \<noteq> 0" using runs(2) by (auto simp: card_gt_0_iff unat_eq_zero [symmetric])
  then have num: "unat (n - 1) = card (runs ?v)" using n runs by (simp add: unat_dec)
  obtain ids where ids: "row_holds (svc ! unat sv) ids" "unat (cnt ! unat sv) = length ids" "distinct ids"
    "set ids = runs_in v (unat sv)"
    using r sl(3) by (auto simp: reg_ok_def)
  have idk: "\<forall>j \<in> set ids. id_ok j" and mem: "i \<in> set ids" using ids(4) runs_in_ids [OF r] rin(2) by auto
  note rem = row_holds_remove [OF ids(1,3) idk mem]
  show "k < MAX_NFS_PER_SERVICE" using rem(1) sl(2) by (simp add: k_def)
  have "cnt ! unat sv \<noteq> 0" using ids(2) mem by (auto simp: unat_eq_zero [symmetric] simp del: unat_eq_zero)
  then have dec: "unat (cnt ! unat sv - 1) = length (remove1 i ids)"
    using ids(2) mem by (simp add: unat_dec length_remove1)
  have row: "\<exists>ids. row_holds (svc[unat sv := shift_row ((svc ! unat sv)[k := 0]) k] ! sid) ids
      \<and> unat (cnt[unat sv := cnt ! unat sv - 1] ! sid) = length ids \<and> distinct ids \<and> set ids = runs_in ?v sid"
    if sid: "sid < MAX_SERVICES" for sid
  proof (cases "sid = unat sv")
    case True
    then show ?thesis
      using rem(2) dec ids len sid sl(2) rin(1) [of sid]
      by (intro exI [where x = "remove1 i ids"]) (simp add: k_def set_remove1_eq)
  next
    case False
    then show ?thesis using r sid rin(1) [of sid] by (simp add: reg_ok_def)
  qed
  have "\<forall>j < MAX_NFS. slot_ok j (?v ! j)"
    using r by (auto simp: reg_ok_def nth_update_if slot_ok_def)
  then show "reg_ok ?v (svc[unat sv := shift_row ((svc ! unat sv)[k := 0]) k]) (cnt[unat sv := cnt ! unat sv - 1]) (n - 1)"
    using len num row by (simp add: reg_ok_def)
qed

section \<open>The operations keep it\<close>

lemma view_update [simp]:
  "view (ns[i := nf]) = (view ns)[i := (nf_status nf, nf_service_id nf, nf_instance_id nf)]"
  by (simp add: view_def map_update)

lemma length_view [simp]: "length (view ns) = length ns"
  by (simp add: view_def)

lemma view_nth: "i < length ns \<Longrightarrow> view ns ! i = (nf_status (ns ! i), nf_service_id (ns ! i), nf_instance_id (ns ! i))"
  by (simp add: view_def)

text \<open>Updates that keep state, service and id.\<close>

lemma view_self [simp]:
  "(view ns)[i := (nf_status (ns ! i), nf_service_id (ns ! i), nf_instance_id (ns ! i))] = view ns"
  by (cases "i < length ns") (simp_all add: view_nth [symmetric] list_update_beyond)

lemma next_free_cases:
  "case next_free ns i of
     Some j \<Rightarrow> i \<le> j \<and> j < MAX_NFS \<and> \<not> onvm_nf_is_valid (ns ! j) \<and> (\<forall>k. i \<le> k \<longrightarrow> k < j \<longrightarrow> onvm_nf_is_valid (ns ! k))
   | None \<Rightarrow> \<forall>k. i \<le> k \<longrightarrow> k < MAX_NFS \<longrightarrow> onvm_nf_is_valid (ns ! k)"
proof (induction ns i rule: next_free.induct)
  case (1 ns i)
  show ?case
  proof (cases "i < MAX_NFS \<and> onvm_nf_is_valid (ns ! i)")
    case True
    have split: "(\<forall>k. i \<le> k \<longrightarrow> P k) \<longleftrightarrow> P i \<and> (\<forall>k. Suc i \<le> k \<longrightarrow> P k)" for P
      by (metis Suc_leD Suc_leI le_eq_less_or_eq)
    show ?thesis
      using "1.IH" True by (auto simp: next_free.simps [of ns i] split split: option.splits)
  next
    case False
    then show ?thesis by (auto simp: next_free.simps [of ns i])
  qed
qed

lemma next_free_spec:
  "next_free ns i = Some j \<Longrightarrow> i \<le> j \<and> j < MAX_NFS \<and> \<not> onvm_nf_is_valid (ns ! j)"
  "next_free ns i = None \<Longrightarrow> i \<le> k \<Longrightarrow> k < MAX_NFS \<Longrightarrow> onvm_nf_is_valid (ns ! k)"
  using next_free_cases [where ns = ns and i = i] by auto

lemma next_id_spec:
  assumes "onvm_nf_next_instance_id s = (i, s')" "1 \<le> unat (next_instance_id s)" "1 \<le> unat (starting_instance_id s)"
  shows "nfs s' = nfs s \<and> services s' = services s \<and> nf_per_service_count s' = nf_per_service_count s
    \<and> num_nfs s' = num_nfs s \<and> cores s' = cores s \<and> ring_names s' = ring_names s
    \<and> starting_instance_id s' = starting_instance_id s \<and> 1 \<le> unat (next_instance_id s')
    \<and> (i < MAX_NFS \<longrightarrow> 1 \<le> i \<and> \<not> onvm_nf_is_valid (nfs s ! i))"
proof -
  have w: "1 \<le> unat (of_nat (Suc j) :: u16)" if "j < MAX_NFS" for j
    using that by (subst unat_of_nat_exact) (simp_all add: MAX_NFS_def)
  have w2: "1 \<le> unat (of_nat (max MAX_NFS (unat (starting_instance_id s))) :: u16)"
    using unat_less_2p [of "starting_instance_id s"]
    by (subst unat_of_nat_exact) (simp_all add: MAX_NFS_def)
  have f: "1 \<le> j \<and> j < MAX_NFS \<and> \<not> onvm_nf_is_valid (nfs s ! j)" if "next_free (nfs s) k = Some j" "1 \<le> k" for j k
    using next_free_spec(1) [OF that(1)] that(2) by (meson le_trans)
  show ?thesis
    using assms f w w2
    by (auto simp: onvm_nf_next_instance_id_def split: if_splits option.splits)
qed

lemma init_rings_view:
  assumes "onvm_nf_init_rings env i s = Inr s'"
  shows "view (nfs s') = view (nfs s) \<and> services s' = services s \<and> nf_per_service_count s' = nf_per_service_count s
    \<and> num_nfs s' = num_nfs s \<and> next_instance_id s' = next_instance_id s \<and> starting_instance_id s' = starting_instance_id s"
  using assms
  by (auto simp: onvm_nf_init_rings_def Let_def split: if_splits option.splits)

lemma inv_start:
  assumes inv: "mgr_inv s" and st: "onvm_nf_start env (Some ic) s = Inr (r, ic', s')" and z: "ic_instance_id ic \<noteq> 0"
  shows "mgr_inv s'"
proof (cases "ic_status ic = NF_WAITING_FOR_ID")
  case False
  then show ?thesis using st inv by (simp add: onvm_nf_start_def)
next
  case True
  obtain i s1 where n: "(if ic_instance_id ic = NF_NO_ID then onvm_nf_next_instance_id s
      else (unat (ic_instance_id ic), s)) = (i, s1)" by (metis surj_pair)
  have s1: "nfs s1 = nfs s" "services s1 = services s" "nf_per_service_count s1 = nf_per_service_count s"
    "num_nfs s1 = num_nfs s" "starting_instance_id s1 = starting_instance_id s" "1 \<le> unat (next_instance_id s1)"
    "i < MAX_NFS \<longrightarrow> 1 \<le> i"
    using n next_id_spec [of s i s1] inv z
    by (auto simp: mgr_inv_def Suc_le_eq unat_gt_0 split: if_splits)
  have inv1: "mgr_inv s1" using inv s1 by (simp add: mgr_inv_def)
  consider (err) "view (nfs s') = view (nfs s1)" "services s' = services s1" "nf_per_service_count s' = nf_per_service_count s1"
      "num_nfs s' = num_nfs s1" "starting_instance_id s' = starting_instance_id s1" "next_instance_id s' = next_instance_id s1"
    | (ok) s2 where "i < MAX_NFS" "\<not> onvm_nf_is_valid (nfs s1 ! i)" "unat (ic_service_id ic) < MAX_SERVICES"
      "onvm_nf_init_rings env i s2 = Inr s'"
      "view (nfs s2) = (view (nfs s1))[i := (NF_STARTING, ic_service_id ic, of_nat i)]" "services s2 = services s1"
      "nf_per_service_count s2 = nf_per_service_count s1"
      "num_nfs s2 = num_nfs s1" "starting_instance_id s2 = starting_instance_id s1" "next_instance_id s2 = next_instance_id s1"
    using st True by (auto simp: onvm_nf_start_def started_nf_def n Let_def split: if_splits option.splits sum.splits prod.splits)
  then show ?thesis
  proof cases
    case err
    then show ?thesis using inv1 by (simp add: mgr_inv_def)
  next
    case ok
    have len: "length (nfs s1) = MAX_NFS" using inv1 by (simp add: mgr_inv_def reg_ok_def)
    have "reg_ok ((view (nfs s1))[i := (NF_STARTING, ic_service_id ic, of_nat i)]) (services s1) (nf_per_service_count s1) (num_nfs s1)"
      using inv1 ok(1-3) s1(7) len
      by (intro reg_quiet) (auto simp: mgr_inv_def view_nth onvm_nf_is_valid_def slot_ok_def id_ok_def)
    then show ?thesis using init_rings_view [OF ok(4)] ok inv1 by (simp add: mgr_inv_def)
  qed
qed

lemma inv_ready:
  assumes inv: "mgr_inv s" and rd: "onvm_nf_ready i s = Inr (r, s')"
  shows "mgr_inv s'"
proof (cases "nf_status (nfs s ! i) = NF_STARTING")
  case False
  then show ?thesis using rd inv by (auto simp: onvm_nf_ready_def split: if_splits)
next
  case True
  let ?nf = "nfs s ! i" let ?sv = "nf_service_id ?nf"
  have r: "reg_ok (view (nfs s)) (services s) (nf_per_service_count s) (num_nfs s)"
    using inv by (simp add: mgr_inv_def)
  have len: "length (nfs s) = MAX_NFS" using r by (simp add: reg_ok_def)
  have i: "i < MAX_NFS" using rd len by (auto simp: onvm_nf_ready_def split: if_splits)
  have v: "view (nfs s) ! i = (NF_STARTING, ?sv, nf_instance_id ?nf)" using True i len by (simp add: view_nth)
  have sv: "unat ?sv < MAX_SERVICES" using r i v by (fastforce simp: reg_ok_def slot_ok_def)
  have "length (services s ! unat ?sv) = MAX_NFS_PER_SERVICE"
    using r sv by (force simp: reg_ok_def row_holds_def)
  then have room: "unat (nf_per_service_count s ! unat ?sv) < MAX_NFS_PER_SERVICE"
    using rd True i len sv r by (auto simp: onvm_nf_ready_def Let_def reg_ok_def split: if_splits)
  show ?thesis
    using rd True i len reg_ready [OF r i v room] inv
    by (auto simp: onvm_nf_ready_def Let_def mgr_inv_def split: if_splits)
qed

abbreviation same_registers :: "('q, 'mq) mgr_state \<Rightarrow> ('q, 'mq) mgr_state \<Rightarrow> bool" where
  "same_registers s t \<equiv> view (nfs s) = view (nfs t) \<and> services s = services t
     \<and> nf_per_service_count s = nf_per_service_count t \<and> num_nfs s = num_nfs t
     \<and> next_instance_id s = next_instance_id t \<and> starting_instance_id s = starting_instance_id t"

lemma drain_rings_view: "drain_rings env i s = Inr t \<Longrightarrow> same_registers t s"
  by (auto simp: drain_rings_def split: option.splits prod.splits)

lemma clear_view:
  "same_registers (onvm_nf_clear_rings i s) s" "same_registers (onvm_stats_clear_nf i s) s"
  by (simp_all add: onvm_nf_clear_rings_def onvm_stats_clear_nf_def Let_def)

lemma inv_same: "same_registers t s \<Longrightarrow> mgr_inv s \<Longrightarrow> mgr_inv t"
  by (simp add: mgr_inv_def)

lemma tell_parent_view: "tell_parent i s = Some t \<Longrightarrow> same_registers t s"
  by (auto simp: tell_parent_def Let_def split: if_splits)

lemma leave_core_view: "leave_core c s = Some t \<Longrightarrow> same_registers t s"
  by (auto simp: leave_core_def Let_def split: if_splits)

text \<open>What \<^verbatim>\<open>onvm_nf_stop\<close> does to the registers of an NF that is starting or running.\<close>

lemma stop_registers:
  assumes inv: "mgr_inv s" and i: "i < length (nfs s)" and st: "onvm_nf_stop env (Some i) s = Inr (r, s')"
    and up: "nf_status (nfs s ! i) = NF_STARTING \<or> nf_status (nfs s ! i) = NF_RUNNING" and pool: "me_nf_info_pool env"
  shows "\<exists>t. view (nfs t) = (view (nfs s))[i := (NF_STOPPED, nf_service_id (nfs s ! i), nf_instance_id (nfs s ! i))]
    \<and> services t = services s \<and> nf_per_service_count t = nf_per_service_count s
    \<and> next_instance_id t = next_instance_id s \<and> starting_instance_id t = starting_instance_id s
    \<and> (if nf_status (nfs s ! i) = NF_RUNNING
       then num_nfs t = num_nfs s - 1 \<and> s' = unregister_nf (nf_instance_id (nfs s ! i)) (unat (nf_service_id (nfs s ! i))) t
       else num_nfs t = num_nfs s \<and> s' = t)"
proof -
  let ?nf = "nfs s ! i"
  have "id_ok i \<and> nf_instance_id ?nf = of_nat i"
    using inv i up by (fastforce simp: mgr_inv_def reg_ok_def slot_ok_def view_nth)
  then have id: "unat (nf_instance_id ?nf) = i" by (simp add: id_word)
  let ?s2 = "update_nf i (\<lambda>n. n\<lparr>nf_status := NF_STOPPED\<rparr>) (update_nf i (\<lambda>n. n\<lparr>nf_status := NF_STOPPED\<rparr>)
    (update_nf i (\<lambda>n. n\<lparr>nf_tag := None\<rparr>) s))"
  have v2: "view (nfs ?s2) = (view (nfs s))[i := (NF_STOPPED, nf_service_id ?nf, nf_instance_id ?nf)]"
    using i by simp
  obtain s3 s4 s5 where d: "tell_parent i ?s2 = Some s3" "leave_core (unat (nf_core ?nf)) s3 = Some s4"
      "drain_rings env i s4 = Inr s5"
    and s': "s' = (if nf_status ?nf \<noteq> NF_RUNNING then s5\<lparr>nf_info_puts := i # nf_info_puts s5\<rparr>
        else unregister_nf (nf_instance_id ?nf) (unat (nf_service_id ?nf))
          (onvm_nf_clear_rings i (onvm_stats_clear_nf i (s5\<lparr>nf_info_puts := i # nf_info_puts s5, num_nfs := num_nfs s5 - 1\<rparr>))))"
    using st i id up pool
    by (auto simp: onvm_nf_stop_def Let_def bind_eq_Some_conv split: if_splits sum.splits option.splits)
  have v5: "same_registers s5 ?s2"
    using tell_parent_view [OF d(1)] leave_core_view [OF d(2)] drain_rings_view [OF d(3)] by simp
  show ?thesis
  proof (cases "nf_status ?nf = NF_RUNNING")
    case True
    let ?t = "onvm_nf_clear_rings i (onvm_stats_clear_nf i (s5\<lparr>nf_info_puts := i # nf_info_puts s5, num_nfs := num_nfs s5 - 1\<rparr>))"
    show ?thesis using True s' v2 v5 by (intro exI [where x = ?t]) (simp add: clear_view)
  next
    case False
    then show ?thesis using s' v2 v5 by (intro exI [where x = s']) simp
  qed
qed

lemma inv_stop:
  assumes inv: "mgr_inv s" and st: "onvm_nf_stop env p s = Inr (r, s')" and pool: "me_nf_info_pool env"
  shows "mgr_inv s'"
proof (cases p)
  case None
  then show ?thesis using st inv by (simp add: onvm_nf_stop_def)
next
  case (Some i)
  let ?nf = "nfs s ! i"
  have i: "i < length (nfs s)" using st Some by (auto simp: onvm_nf_stop_def split: if_splits)
  have r: "reg_ok (view (nfs s)) (services s) (nf_per_service_count s) (num_nfs s)" and len: "length (nfs s) = MAX_NFS"
    using inv by (simp_all add: mgr_inv_def reg_ok_def)
  have v: "view (nfs s) ! i = (nf_status ?nf, nf_service_id ?nf, nf_instance_id ?nf)" using i by (simp add: view_nth)
  have np: "nf_status ?nf \<noteq> NF_PAUSED" using r i len v by (fastforce simp: reg_ok_def slot_ok_def)
  show ?thesis
  proof (cases "nf_status ?nf = NF_STARTING \<or> nf_status ?nf = NF_RUNNING")
    case False
    then have "s' = update_nf i (\<lambda>n. n\<lparr>nf_tag := None\<rparr>) s"
      using st Some i np by (simp add: onvm_nf_stop_def Let_def split: if_splits)
    then show ?thesis using inv by (auto simp: mgr_inv_def)
  next
    case True
    obtain t where t: "view (nfs t) = (view (nfs s))[i := (NF_STOPPED, nf_service_id ?nf, nf_instance_id ?nf)]"
      "services t = services s" "nf_per_service_count t = nf_per_service_count s"
      "next_instance_id t = next_instance_id s" "starting_instance_id t = starting_instance_id s"
      "if nf_status ?nf = NF_RUNNING
       then num_nfs t = num_nfs s - 1 \<and> s' = unregister_nf (nf_instance_id ?nf) (unat (nf_service_id ?nf)) t
       else num_nfs t = num_nfs s \<and> s' = t"
      using stop_registers [OF inv i st [unfolded Some] True pool] by blast
    show ?thesis
    proof (cases "nf_status ?nf = NF_RUNNING")
      case True
      then show ?thesis
        using reg_stop [OF r, of i "nf_service_id ?nf" "nf_instance_id ?nf"] t v i len inv pool
        by (simp add: mgr_inv_def unregister_nf_def Let_def)
    next
      case False
      have "reg_ok ((view (nfs s))[i := (NF_STOPPED, nf_service_id ?nf, nf_instance_id ?nf)]) (services s)
          (nf_per_service_count s) (num_nfs s)"
        using r v False by (intro reg_quiet) (simp_all add: slot_ok_def)
      then show ?thesis using t False inv by (simp add: mgr_inv_def)
    qed
  qed
qed

section \<open>The manager as a transition system\<close>

text \<open>An NF asks for its own id or for any free one, never for the reserved id 0.\<close>

definition cfgs_ok :: "('q, 'mq) mgr_state \<Rightarrow> bool" where
  "cfgs_ok s \<longleftrightarrow> (\<forall>a ic. init_cfgs s a = Some ic \<longrightarrow> ic_instance_id ic \<noteq> 0)"

lemma inv_handle:
  assumes "mgr_inv s" "cfgs_ok s" "me_nf_info_pool env" "handle_mgr_msg env m s = Inr s'"
  shows "mgr_inv s'"
proof (cases m)
  case (Msg_NF_Starting p)
  show ?thesis
  proof (cases "Option.bind p (init_cfgs s)")
    case None
    then show ?thesis using assms Msg_NF_Starting
      by (auto simp: handle_mgr_msg_def onvm_nf_start_def mgr_inv_def split: option.splits)
  next
    case (Some ic)
    then have z: "ic_instance_id ic \<noteq> 0" using assms(2) by (auto simp: cfgs_ok_def bind_eq_Some_conv)
    obtain r ic' t where st: "onvm_nf_start env (Some ic) s = Inr (r, ic', t)"
      using assms(4) Msg_NF_Starting Some by (auto simp: handle_mgr_msg_def split: sum.splits)
    then have "same_registers s' t"
      using assms(4) Msg_NF_Starting Some by (auto simp: handle_mgr_msg_def split: option.splits)
    then show ?thesis using inv_start [OF assms(1) st z] inv_same by blast
  qed
next
  case (Msg_NF_Ready i)
  then show ?thesis using assms inv_ready by (auto simp: handle_mgr_msg_def split: sum.splits)
next
  case (Msg_NF_Stopping p)
  then show ?thesis using assms inv_stop by (auto simp: handle_mgr_msg_def split: sum.splits)
qed (use assms in \<open>auto simp: handle_mgr_msg_def onvm_nf_init_lpm_region_def onvm_nf_init_ft_def mgr_inv_def\<close>)

text \<open>
  A step: the manager handles one message, or an NF process writes its request into a fresh
  configuration record (or anything else outside the registers changes).
\<close>

inductive mgr_step :: "('q, 'mq) mgr_env \<Rightarrow> ('q, 'mq) mgr_state \<Rightarrow> ('q, 'mq) mgr_state \<Rightarrow> bool" for env where
  handle: "cfgs_ok s \<Longrightarrow> handle_mgr_msg env m s = Inr s' \<Longrightarrow> mgr_step env s s'"
| outside: "same_registers s' s \<Longrightarrow> mgr_step env s s'"

inductive mgr_reachable :: "('q, 'mq) mgr_env \<Rightarrow> ('q, 'mq) mgr_state \<Rightarrow> bool" for env where
  boot: "nfs s = replicate MAX_NFS zero_nf \<Longrightarrow> services s = replicate MAX_SERVICES (replicate MAX_NFS_PER_SERVICE 0) \<Longrightarrow>
     nf_per_service_count s = replicate MAX_SERVICES 0 \<Longrightarrow> num_nfs s = 0 \<Longrightarrow> next_instance_id s = 1 \<Longrightarrow>
     starting_instance_id s = 1 \<Longrightarrow> mgr_reachable env s"
| step: "mgr_reachable env s \<Longrightarrow> mgr_step env s s' \<Longrightarrow> mgr_reachable env s'"

inductive_cases mgr_stepE: "mgr_step env s s'"

lemma boot_inv:
  assumes "nfs s = replicate MAX_NFS zero_nf" "services s = replicate MAX_SERVICES (replicate MAX_NFS_PER_SERVICE 0)"
    "nf_per_service_count s = replicate MAX_SERVICES 0" "num_nfs s = 0" "next_instance_id s = 1" "starting_instance_id s = 1"
  shows "mgr_inv s"
proof -
  have v: "view (nfs s) = replicate MAX_NFS (0, 0, 0)" using assms(1) by (simp add: view_def zero_nf_def)
  have e: "runs (view (nfs s)) = {}" "runs_in (view (nfs s)) sid = {}" for sid
    by (auto simp: v runs_def runs_in_def nf_states)
  show ?thesis
    using assms(2-6) e unfolding mgr_inv_def reg_ok_def v by (auto simp: row_holds_def slot_ok_def nf_states)
qed

lemma inv_mgr_reachable:
  assumes pool: "me_nf_info_pool env"
  shows "mgr_reachable env s \<Longrightarrow> mgr_inv s"
proof (induction rule: mgr_reachable.induct)
  case (boot s)
  then show ?case by (intro boot_inv)
next
  case (step s s')
  then show ?case using inv_handle [OF _ _ pool] inv_same by (blast elim: mgr_stepE)
qed

lemma get_core_codes:
  "onvm_threading_get_core n v f cs = Some (c, v', cs')
    \<Longrightarrow> c \<in> {0, NF_NO_CORES, NF_NO_DEDICATED_CORES, NF_CORE_OUT_OF_RANGE, NF_CORE_BUSY}"
  by (auto simp: onvm_threading_get_core_def Let_def split: if_splits prod.splits)

section \<open>A concrete manager\<close>

definition demo_mgr_env :: "(nat list_ring, nat list_ring) mgr_env" where
  "demo_mgr_env = \<lparr>me_max_cores = 4, me_pkt_ring = list_ring_api, me_msg_ring = list_ring_api,
     me_new_pkt_ring = (\<lambda>_. Some \<lparr>lr_items = [], lr_room = 63\<rparr>), me_new_msg_ring = (\<lambda>_. Some \<lparr>lr_items = [], lr_room = 63\<rparr>),
     me_msg_of = (\<lambda>m. if m = 1 then Msg_NF_Starting (Some 0) else Msg_NF_Ready 1), me_nf_info_pool = True,
     me_lpm_create = (\<lambda>_. True), me_hash_create = (\<lambda>_. True)\<rparr>"

definition demo_ic :: onvm_nf_init_cfg where
  "demo_ic = \<lparr>ic_instance_id = NF_NO_ID, ic_service_id = 3, ic_core = 0, ic_init_options = 2, ic_status = NF_WAITING_FOR_ID,
     ic_tag = None, ic_time_to_live = 0, ic_pkt_limit = 0\<rparr>"

definition demo_mgr :: "(nat list_ring, nat list_ring) mgr_state" where
  "demo_mgr = \<lparr>nfs = replicate MAX_NFS zero_nf, services = replicate MAX_SERVICES (replicate MAX_NFS_PER_SERVICE 0),
     nf_per_service_count = replicate MAX_SERVICES 0, cores = demo_cores, num_nfs = 0, next_instance_id = 1,
     starting_instance_id = 1, init_cfgs = [0 \<mapsto> demo_ic], request_status = (\<lambda>_. 0),
     incoming_msg_queue = \<lparr>lr_items = [], lr_room = 127\<rparr>, ring_names = [], freed_pkts = [], freed_msgs = [],
     nf_info_puts = []\<rparr>"

lemma demo_mgr_reachable: "mgr_reachable env demo_mgr"
  by (rule mgr_reachable.boot) (simp_all add: demo_mgr_def)

lemma demo_start: "\<exists>s. handle_mgr_msg demo_mgr_env (Msg_NF_Starting (Some 0)) demo_mgr = Inr s
    \<and> nf_status (nfs s ! 1) = NF_STARTING \<and> nf_service_id (nfs s ! 1) = 3"
proof -
  have "case handle_mgr_msg demo_mgr_env (Msg_NF_Starting (Some 0)) demo_mgr of
      Inl _ \<Rightarrow> False | Inr s \<Rightarrow> nf_status (nfs s ! 1) = NF_STARTING \<and> nf_service_id (nfs s ! 1) = 3"
    by code_simp
  then show ?thesis by (auto split: sum.splits)
qed

lemma nf_start_cases:
  assumes "onvm_nf_start env (Some ic) s = Inr (r, Some ic', s')" and "ic_status ic = NF_WAITING_FOR_ID"
  shows "(r = 1 \<and> ic_status ic' \<in> {NF_NO_IDS, NF_SERVICE_MAX, NF_SERVICE_COUNT_MAX, NF_ID_CONFLICT, NF_NO_CORES,
             NF_NO_DEDICATED_CORES, NF_CORE_OUT_OF_RANGE, NF_CORE_BUSY} \<and> nfs s' = nfs s)
     \<or> (\<exists>i. r = 0 \<and> ic_status ic' = NF_STARTING \<and> ic_instance_id ic' = of_nat i \<and> i < MAX_NFS
          \<and> \<not> onvm_nf_is_valid (nfs s ! i) \<and> length (nfs s') = length (nfs s)
          \<and> (i < length (nfs s) \<longrightarrow> nf_status (nfs s' ! i) = NF_STARTING \<and> nf_service_id (nfs s' ! i) = ic_service_id ic
               \<and> nf_core (nfs s' ! i) = ic_core ic' \<and> nf_rx_q (nfs s' ! i) = me_new_pkt_ring env NF_QUEUE_RINGSIZE)
          \<and> (\<forall>j. j \<noteq> i \<longrightarrow> nfs s' ! j = nfs s ! j))"
proof -
  have next_id: "nfs t = nfs s" if "onvm_nf_next_instance_id s = (i, t)" for i t
    using that by (auto simp: onvm_nf_next_instance_id_def split: if_splits option.splits)
  obtain i t where it: "(if ic_instance_id ic = NF_NO_ID then onvm_nf_next_instance_id s
      else (unat (ic_instance_id ic), s)) = (i, t)" by (metis surj_pair)
  have t: "nfs t = nfs s" using it next_id [of i t] by (simp split: if_splits)
  have iff: "ic_status ic = NF_WAITING_FOR_ID" by (rule assms(2))
  note eq = assms(1) [unfolded onvm_nf_start_def option.case it Let_def prod.case]
  consider (err) "r = 1" "nfs s' = nfs t" "ic_status ic' \<in> {NF_NO_IDS, NF_SERVICE_MAX, NF_SERVICE_COUNT_MAX, NF_ID_CONFLICT}"
    | (core) c v cs where "i < MAX_NFS" "\<not> onvm_nf_is_valid (nfs t ! i)"
        "onvm_threading_get_core (me_max_cores env) (ic_core ic) (ucast (ic_init_options ic)) (cores t) = Some (c, v, cs)"
        "if c \<noteq> 0 then r = 1 \<and> nfs s' = nfs t \<and> ic_status ic' = c
         else r = 0 \<and> ic_status ic' = NF_STARTING \<and> ic_instance_id ic' = of_nat i \<and> ic_core ic' = v
            \<and> onvm_nf_init_rings env i (started_nf i (ic\<lparr>ic_core := v\<rparr>) (t\<lparr>cores := cs\<rparr>)) = Inr s'"
  proof (cases "i < MAX_NFS \<and> unat (ic_service_id ic) < MAX_SERVICES
      \<and> unat (nf_per_service_count t ! unat (ic_service_id ic)) < MAX_NFS_PER_SERVICE \<and> \<not> onvm_nf_is_valid (nfs t ! i)")
    case False
    then show thesis using eq iff by (intro that(1)) (simp_all split: if_splits, auto)
  next
    case True
    let ?core = "onvm_threading_get_core (me_max_cores env) (ic_core ic) (ucast (ic_init_options ic)) (cores t)"
    obtain c v cs where c: "?core = Some (c, v, cs)" using True eq iff by (cases ?core) auto
    have "if c \<noteq> 0 then r = 1 \<and> nfs s' = nfs t \<and> ic_status ic' = c
         else r = 0 \<and> ic_status ic' = NF_STARTING \<and> ic_instance_id ic' = of_nat i \<and> ic_core ic' = v
            \<and> onvm_nf_init_rings env i (started_nf i (ic\<lparr>ic_core := v\<rparr>) (t\<lparr>cores := cs\<rparr>)) = Inr s'"
      using True eq iff c by (auto simp: started_nf_def split: if_splits sum.splits)
    then show thesis using True c by (intro that(2)) simp_all
  qed
  then show ?thesis
  proof cases
    case err
    then show ?thesis using t by auto
  next
    case core
    show ?thesis
    proof (cases "c = 0")
      case False
      then show ?thesis using core t get_core_codes [OF core(3)] by simp
    next
      case True
      let ?s2 = "started_nf i (ic\<lparr>ic_core := v\<rparr>) (t\<lparr>cores := cs\<rparr>)"
      have ok: "r = 0" "ic_status ic' = NF_STARTING" "ic_instance_id ic' = of_nat i" "ic_core ic' = v"
        "onvm_nf_init_rings env i ?s2 = Inr s'" using core(4) True by simp_all
      obtain q m where q: "me_new_pkt_ring env NF_QUEUE_RINGSIZE = Some q"
        "nfs s' = (nfs ?s2)[i := (nfs ?s2 ! i)\<lparr>nf_rx_q := Some q, nf_tx_q := Some q, nf_msg_q := Some m\<rparr>]"
        using ok(5) by (auto simp: onvm_nf_init_rings_def Let_def split: if_splits option.splits)
      show ?thesis using core(1,2) ok(1-4) q t by (intro disjI2 exI [where x = i]) (simp add: started_nf_def)
    qed
  qed
qed

lemma ready_row:
  assumes "mgr_inv s" and "i < MAX_NFS" and "nf_status (nfs s ! i) = NF_STARTING"
  shows "length (nfs s) = MAX_NFS" "length (services s) = MAX_SERVICES" "length (nf_per_service_count s) = MAX_SERVICES"
    "unat (nf_service_id (nfs s ! i)) < MAX_SERVICES" "length (services s ! unat (nf_service_id (nfs s ! i))) = MAX_NFS_PER_SERVICE"
    "unat (nf_per_service_count s ! unat (nf_service_id (nfs s ! i))) \<le> MAX_NFS_PER_SERVICE"
proof -
  let ?sid = "unat (nf_service_id (nfs s ! i))"
  have r: "reg_ok (view (nfs s)) (services s) (nf_per_service_count s) (num_nfs s)" using assms(1) by (simp add: mgr_inv_def)
  then have len: "length (nfs s) = MAX_NFS" "length (services s) = MAX_SERVICES" "length (nf_per_service_count s) = MAX_SERVICES"
    by (simp_all add: reg_ok_def)
  have sid: "?sid < MAX_SERVICES"
    using r assms(2,3) len(1) by (fastforce simp: reg_ok_def slot_ok_def view_nth)
  then obtain ids where "row_holds (services s ! ?sid) ids" "unat (nf_per_service_count s ! ?sid) = length ids"
    using r by (auto simp: reg_ok_def)
  then have row: "length (services s ! ?sid) = MAX_NFS_PER_SERVICE" "unat (nf_per_service_count s ! ?sid) \<le> MAX_NFS_PER_SERVICE"
    by (auto simp: row_holds_def)
  show "length (nfs s) = MAX_NFS" "length (services s) = MAX_SERVICES" "length (nf_per_service_count s) = MAX_SERVICES"
    "?sid < MAX_SERVICES" "length (services s ! ?sid) = MAX_NFS_PER_SERVICE" "unat (nf_per_service_count s ! ?sid) \<le> MAX_NFS_PER_SERVICE"
    by (fact len sid row)+
qed

section \<open>Properties\<close>

text \<open>
  C3. The service table: in every state the manager can reach by handling start, ready and stop
  messages in any order, the row of a service lists exactly its running NFs, each once and without
  gaps, its counter is their number, and \<^verbatim>\<open>num_nfs\<close> is the number of all running NFs.
\<close>

theorem services_match_running_nfs:
  assumes "me_nf_info_pool env" and "mgr_reachable env s" and "sid < MAX_SERVICES"
  shows "\<exists>ids. services s ! sid = map of_nat ids @ replicate (MAX_NFS_PER_SERVICE - length ids) 0
      \<and> length ids \<le> MAX_NFS_PER_SERVICE \<and> unat (nf_per_service_count s ! sid) = length ids \<and> distinct ids \<and> 0 \<notin> set ids
      \<and> set ids = {i. i < MAX_NFS \<and> nf_status (nfs s ! i) = NF_RUNNING \<and> unat (nf_service_id (nfs s ! i)) = sid}
      \<and> unat (num_nfs s) = card {i. i < MAX_NFS \<and> nf_status (nfs s ! i) = NF_RUNNING}"
proof -
  have inv: "mgr_inv s" by (rule inv_mgr_reachable [OF assms(1,2)])
  then have r: "reg_ok (view (nfs s)) (services s) (nf_per_service_count s) (num_nfs s)" by (simp add: mgr_inv_def)
  then have len: "length (nfs s) = MAX_NFS" by (simp add: reg_ok_def)
  have sets: "runs (view (nfs s)) = {i. i < MAX_NFS \<and> nf_status (nfs s ! i) = NF_RUNNING}"
    "runs_in (view (nfs s)) sid = {i. i < MAX_NFS \<and> nf_status (nfs s ! i) = NF_RUNNING \<and> unat (nf_service_id (nfs s ! i)) = sid}"
    using len by (auto simp: runs_def runs_in_def view_nth)
  obtain ids where ids: "row_holds (services s ! sid) ids" "unat (nf_per_service_count s ! sid) = length ids"
    "distinct ids" "set ids = runs_in (view (nfs s)) sid"
    using r assms(3) by (auto simp: reg_ok_def)
  have "0 \<notin> set ids" using runs_in_ids [OF r, of 0 sid] ids(4) by (auto simp: id_ok_def)
  moreover have "unat (num_nfs s) = card (runs (view (nfs s)))" using r by (simp add: reg_ok_def)
  ultimately show ?thesis using ids unfolding sets row_holds_def by blast
qed

theorem services_match_running_nfs_witness:
  "\<exists>s ids. mgr_reachable demo_mgr_env s \<and> nf_status (nfs s ! 1) = NF_STARTING
     \<and> set ids = {i. i < MAX_NFS \<and> nf_status (nfs s ! i) = NF_RUNNING \<and> unat (nf_service_id (nfs s ! i)) = 3}"
proof -
  obtain s where s: "handle_mgr_msg demo_mgr_env (Msg_NF_Starting (Some 0)) demo_mgr = Inr s" "nf_status (nfs s ! 1) = NF_STARTING"
    using demo_start by blast
  have "cfgs_ok demo_mgr" by (simp add: cfgs_ok_def demo_mgr_def demo_ic_def)
  then have "mgr_reachable demo_mgr_env s"
    using s(1) demo_mgr_reachable mgr_reachable.step mgr_step.handle by blast
  moreover have "me_nf_info_pool demo_mgr_env" by (simp add: demo_mgr_env_def)
  ultimately show ?thesis
    using s services_match_running_nfs [of demo_mgr_env s 3] by (auto simp: MAX_SERVICES_def)
qed

text \<open>
  Instance ids: \<^verbatim>\<open>onvm_nf_next_instance_id\<close> returns an id below 128 whose NF is not running
  whenever there is one from the starting id on and the counter is below 128; otherwise it returns
  128. The search wraps around once and always ends.
\<close>

lemma next_instance_id_finds_free:
  assumes "onvm_nf_next_instance_id s = (i, s')"
  shows "(i < MAX_NFS \<longrightarrow> \<not> onvm_nf_is_valid (nfs s ! i)) \<and> i \<le> MAX_NFS
    \<and> (unat (num_nfs s) < MAX_NFS
         \<and> (\<exists>k < MAX_NFS. unat (starting_instance_id s) \<le> k \<and> \<not> onvm_nf_is_valid (nfs s ! k)) \<longrightarrow> i < MAX_NFS)"
proof -
  have some: "j < MAX_NFS \<and> \<not> onvm_nf_is_valid (nfs s ! j)" if "next_free (nfs s) k = Some j" for j k
    using next_free_spec(1) [OF that] by simp
  have none: "onvm_nf_is_valid (nfs s ! k)" if "next_free (nfs s) i = None" "i \<le> k" "k < MAX_NFS" for i k
    using next_free_spec(2) that by blast
  show ?thesis
    using assms some none [of "unat (starting_instance_id s)"]
    by (auto simp: onvm_nf_next_instance_id_def less_imp_le split: if_splits option.splits)
qed

text \<open>
  Starting an NF: a request in the state \<^verbatim>\<open>NF_WAITING_FOR_ID\<close> is either refused with a reason in
  its configuration, with no NF changed, or accepted: the slot was not running, it now is
  starting with the requested service, the id and core recorded in the configuration, and fresh rings;
  no other slot changes.
\<close>

lemma nf_start_outcome:
  assumes "onvm_nf_start env (Some ic) s = Inr (r, Some ic', s')" and "ic_status ic = NF_WAITING_FOR_ID"
  shows "(r = 1 \<and> ic_status ic' \<in> {NF_NO_IDS, NF_SERVICE_MAX, NF_SERVICE_COUNT_MAX, NF_ID_CONFLICT, NF_NO_CORES,
             NF_NO_DEDICATED_CORES, NF_CORE_OUT_OF_RANGE, NF_CORE_BUSY} \<and> nfs s' = nfs s)
     \<or> (\<exists>i. r = 0 \<and> ic_status ic' = NF_STARTING \<and> ic_instance_id ic' = of_nat i \<and> i < MAX_NFS
          \<and> \<not> onvm_nf_is_valid (nfs s ! i) \<and> length (nfs s') = length (nfs s)
          \<and> (i < length (nfs s) \<longrightarrow> nf_status (nfs s' ! i) = NF_STARTING \<and> nf_service_id (nfs s' ! i) = ic_service_id ic
               \<and> nf_core (nfs s' ! i) = ic_core ic' \<and> nf_rx_q (nfs s' ! i) = me_new_pkt_ring env NF_QUEUE_RINGSIZE)
          \<and> (\<forall>j. j \<noteq> i \<longrightarrow> nfs s' ! j = nfs s ! j))"
  by (rule nf_start_cases [OF assms])

text \<open>
  C33. The capacity of a service is tested when an NF starts but used when it becomes ready: for a
  starting NF \<^verbatim>\<open>onvm_nf_ready\<close> writes outside the service's row exactly when 32 NFs of the service
  already run; otherwise it succeeds and the NF runs.
\<close>

theorem nf_ready_overruns_iff_full:
  assumes "mgr_inv s" and "i < MAX_NFS" and "nf_status (nfs s ! i) = NF_STARTING"
  shows "(onvm_nf_ready i s = Inl Bad_Access \<longleftrightarrow>
            unat (nf_per_service_count s ! unat (nf_service_id (nfs s ! i))) = MAX_NFS_PER_SERVICE)
    \<and> (onvm_nf_ready i s \<noteq> Inl Bad_Access \<longrightarrow>
         (\<exists>s'. onvm_nf_ready i s = Inr (0, s') \<and> nf_status (nfs s' ! i) = NF_RUNNING \<and> mgr_inv s'))"
proof -
  let ?sid = "unat (nf_service_id (nfs s ! i))"
  note rr = ready_row [OF assms]
  have len: "length (nfs s) = MAX_NFS" "length (services s) = MAX_SERVICES" "length (nf_per_service_count s) = MAX_SERVICES"
    and sid: "?sid < MAX_SERVICES"
    and row: "length (services s ! ?sid) = MAX_NFS_PER_SERVICE" "unat (nf_per_service_count s ! ?sid) \<le> MAX_NFS_PER_SERVICE"
    by (fact rr)+
  have full: "onvm_nf_ready i s = Inl Bad_Access \<longleftrightarrow> MAX_NFS_PER_SERVICE \<le> unat (nf_per_service_count s ! ?sid)"
    using assms(2,3) len sid row by (simp add: onvm_nf_ready_def Let_def)
  have "\<exists>s'. onvm_nf_ready i s = Inr (0, s') \<and> nf_status (nfs s' ! i) = NF_RUNNING" if "onvm_nf_ready i s \<noteq> Inl Bad_Access"
    using that assms(2,3) len sid row by (auto simp: onvm_nf_ready_def Let_def split: if_splits)
  then show ?thesis using full row(2) inv_ready [OF assms(1)] by auto
qed

theorem nf_ready_overruns_iff_full_witness:
  "\<exists>s s'. handle_mgr_msg demo_mgr_env (Msg_NF_Starting (Some 0)) demo_mgr = Inr s
     \<and> onvm_nf_ready 1 s = Inr (0, s') \<and> nf_status (nfs s' ! 1) = NF_RUNNING"
proof -
  obtain s where s: "handle_mgr_msg demo_mgr_env (Msg_NF_Starting (Some 0)) demo_mgr = Inr s" "nf_status (nfs s ! 1) = NF_STARTING"
    using demo_start by blast
  have ok: "cfgs_ok demo_mgr" "me_nf_info_pool demo_mgr_env"
    by (simp_all add: cfgs_ok_def demo_mgr_def demo_ic_def demo_mgr_env_def)
  have inv: "mgr_inv s"
    using inv_handle [OF inv_mgr_reachable [OF ok(2) demo_mgr_reachable] ok s(1)] .
  have "case handle_mgr_msg demo_mgr_env (Msg_NF_Starting (Some 0)) demo_mgr of
      Inl _ \<Rightarrow> False | Inr s \<Rightarrow> nf_per_service_count s ! unat (nf_service_id (nfs s ! 1)) = 0"
    by code_simp
  then have "nf_per_service_count s ! unat (nf_service_id (nfs s ! 1)) = 0" using s(1) by simp
  then show ?thesis
    using nf_ready_overruns_iff_full [OF inv _ s(2)] s(1) by (auto simp: onvm_limits)
qed

end
