(* ===== verification/NfLifetime.thy ===== *)
theory NfLifetime
  imports NfMgr
begin

text \<open>
  Stopping an NF and starting one again under the same id (\<^verbatim>\<open>onvm_nf_stop\<close>, \<^verbatim>\<open>onvm_nf_start\<close>): what the
  clean-up of an NF releases, given the documented behaviour of the rings, and which names survive it.
\<close>

lemma drain_rings_returns:
  assumes "rte_ring (me_pkt_ring env) pitems proom" "rte_ring (me_msg_ring env) mitems mroom"
    and "nf_rx_q (nfs s ! i) = Some rq" "nf_tx_q (nfs s ! i) = Some tq" "nf_msg_q (nfs s ! i) = Some mq"
  shows "\<exists>rq' tq' mq'. pitems rq' = [] \<and> pitems tq' = [] \<and> mitems mq' = []
    \<and> drain_rings env i s = Inr (update_nf i (\<lambda>nf. nf\<lparr>nf_rx_q := Some rq', nf_tx_q := Some tq', nf_msg_q := Some mq'\<rparr>)
        (s\<lparr>freed_pkts := freed_pkts s @ pitems rq @ pitems tq, freed_msgs := freed_msgs s @ mitems mq\<rparr>))"
proof -
  have n: "0 < PACKET_READ_SIZE" by (simp add: PACKET_READ_SIZE_def)
  obtain rq' where "drain_burst (me_pkt_ring env) PACKET_READ_SIZE [] rq = Some (pitems rq, rq')" "pitems rq' = []"
    using rte_ring.drain_burst_all [OF assms(1) n, of "[]" rq] by auto
  moreover obtain tq' where "drain_burst (me_pkt_ring env) PACKET_READ_SIZE [] tq = Some (pitems tq, tq')" "pitems tq' = []"
    using rte_ring.drain_burst_all [OF assms(1) n, of "[]" tq] by auto
  moreover obtain mq' where "drain_each (me_msg_ring env) [] mq = Some (mitems mq, mq')" "mitems mq' = []"
    using rte_ring.drain_each_all [OF assms(2), of "[]" mq] by auto
  ultimately show ?thesis using assms(3-5) by (auto simp: drain_rings_def)
qed

text \<open>Everything before the rings are drained: only the states, the parent's count and the core change.\<close>

definition quiet_prefix :: "nat \<Rightarrow> ('q, 'mq) mgr_state \<Rightarrow> ('q, 'mq) mgr_state \<Rightarrow> bool" where
  "quiet_prefix i s t \<longleftrightarrow> length (nfs t) = length (nfs s)
     \<and> (\<forall>j < length (nfs s). nf_rx_q (nfs t ! j) = nf_rx_q (nfs s ! j) \<and> nf_tx_q (nfs t ! j) = nf_tx_q (nfs s ! j)
          \<and> nf_msg_q (nfs t ! j) = nf_msg_q (nfs s ! j) \<and> nf_instance_id (nfs t ! j) = nf_instance_id (nfs s ! j))
     \<and> nf_status (nfs t ! i) = NF_STOPPED \<and> length (services t) = length (services s)
     \<and> length (nf_per_service_count t) = length (nf_per_service_count s)
     \<and> freed_pkts t = freed_pkts s \<and> freed_msgs t = freed_msgs s \<and> ring_names t = ring_names s"

lemma stop_prefix:
  assumes "i < length (nfs s)" "unat (nf_parent (nfs s ! i)) < length (nfs s)" "unat (nf_core (nfs s ! i)) < length (cores s)"
  shows "\<exists>t. Option.bind (tell_parent i (update_nf i (\<lambda>n. n\<lparr>nf_status := NF_STOPPED\<rparr>)
      (update_nf i (\<lambda>n. n\<lparr>nf_status := NF_STOPPED\<rparr>) (update_nf i (\<lambda>n. n\<lparr>nf_tag := None\<rparr>) s))))
      (leave_core (unat (nf_core (nfs s ! i)))) = Some t \<and> quiet_prefix i s t"
  using assms by (simp add: tell_parent_def leave_core_def Let_def quiet_prefix_def nth_update_if)

section \<open>Properties\<close>

text \<open>
  C11. Stopping an NF that starts or runs, with its rings created and its parent and core in range,
  returns 0. Both draining loops end, every packet left in its two packet rings is freed exactly once
  and every message left goes back to its pool, the rings are empty and the service table stays
  consistent. The names of the rings are released only if the NF was running: when it was still
  starting they all survive.
\<close>

theorem nf_stop_cleans_up:
  assumes "rte_ring (me_pkt_ring env) pitems proom" and "rte_ring (me_msg_ring env) mitems mroom"
    and "mgr_inv s" and "me_nf_info_pool env" and "i < MAX_NFS"
    and "nf_status (nfs s ! i) = NF_STARTING \<or> nf_status (nfs s ! i) = NF_RUNNING"
    and "nf_rx_q (nfs s ! i) = Some rq" and "nf_tx_q (nfs s ! i) = Some tq" and "nf_msg_q (nfs s ! i) = Some mq"
    and "unat (nf_parent (nfs s ! i)) < MAX_NFS" and "unat (nf_core (nfs s ! i)) < length (cores s)"
  shows "\<exists>s'. onvm_nf_stop env (Some i) s = Inr (0, s') \<and> mgr_inv s' \<and> nf_status (nfs s' ! i) = NF_STOPPED
    \<and> freed_pkts s' = freed_pkts s @ pitems rq @ pitems tq \<and> freed_msgs s' = freed_msgs s @ mitems mq
    \<and> map_option pitems (nf_rx_q (nfs s' ! i)) = Some [] \<and> map_option pitems (nf_tx_q (nfs s' ! i)) = Some []
    \<and> map_option mitems (nf_msg_q (nfs s' ! i)) = Some []
    \<and> set (ring_names s') = (if nf_status (nfs s ! i) = NF_STARTING then set (ring_names s)
         else set (ring_names s) - {get_rx_queue_name (of_nat i), get_tx_queue_name (of_nat i), get_msg_queue_name (of_nat i)})"
proof -
  let ?nf = "nfs s ! i"
  have reg: "reg_ok (view (nfs s)) (services s) (nf_per_service_count s) (num_nfs s)" using assms(3) by (simp add: mgr_inv_def)
  then have len: "length (nfs s) = MAX_NFS" "length (services s) = MAX_SERVICES" "length (nf_per_service_count s) = MAX_SERVICES"
    by (simp_all add: reg_ok_def)
  have "id_ok i \<and> nf_instance_id ?nf = of_nat i \<and> unat (nf_service_id ?nf) < MAX_SERVICES"
    using reg assms(5,6) len by (fastforce simp: reg_ok_def slot_ok_def view_nth)
  then have id: "unat (nf_instance_id ?nf) = i" "ucast (nf_instance_id ?nf) = (of_nat i :: u32)" "unat (nf_service_id ?nf) < MAX_SERVICES"
    by (simp_all add: id_word word_unat_eq_iff unat_ucast_up unat_of_nat_exact id_ok_def MAX_NFS_def)
  obtain t where t: "Option.bind (tell_parent i (update_nf i (\<lambda>n. n\<lparr>nf_status := NF_STOPPED\<rparr>)
      (update_nf i (\<lambda>n. n\<lparr>nf_status := NF_STOPPED\<rparr>) (update_nf i (\<lambda>n. n\<lparr>nf_tag := None\<rparr>) s))))
      (leave_core (unat (nf_core ?nf))) = Some t" and q: "quiet_prefix i s t"
    using stop_prefix [of i s] assms(5,10,11) len by auto
  have ti: "nf_rx_q (nfs t ! i) = Some rq" "nf_tx_q (nfs t ! i) = Some tq" "nf_msg_q (nfs t ! i) = Some mq"
    using q assms(5,7-9) len by (simp_all add: quiet_prefix_def)
  obtain rq' tq' mq' where e: "pitems rq' = []" "pitems tq' = []" "mitems mq' = []"
    and d: "drain_rings env i t = Inr (update_nf i (\<lambda>nf. nf\<lparr>nf_rx_q := Some rq', nf_tx_q := Some tq', nf_msg_q := Some mq'\<rparr>)
        (t\<lparr>freed_pkts := freed_pkts t @ pitems rq @ pitems tq, freed_msgs := freed_msgs t @ mitems mq\<rparr>))"
    using drain_rings_returns [OF assms(1,2) ti] by blast
  obtain r s' where st: "onvm_nf_stop env (Some i) s = Inr (r, s')"
    and r: "r = 0" "nf_status (nfs s' ! i) = NF_STOPPED" "freed_pkts s' = freed_pkts s @ pitems rq @ pitems tq"
      "freed_msgs s' = freed_msgs s @ mitems mq" "nf_rx_q (nfs s' ! i) = Some rq'" "nf_tx_q (nfs s' ! i) = Some tq'"
      "nf_msg_q (nfs s' ! i) = Some mq'"
      "set (ring_names s') = (if nf_status (nfs s ! i) = NF_STARTING then set (ring_names s)
         else set (ring_names s) - {get_msg_queue_name (of_nat i)} - {get_tx_queue_name (of_nat i)} - {get_rx_queue_name (of_nat i)})"
    using assms(4,5,6) len id q t d
    by (auto simp: onvm_nf_stop_def Let_def quiet_prefix_def unregister_nf_def onvm_nf_clear_rings_def onvm_stats_clear_nf_def)
  have "mgr_inv s'" by (rule inv_stop [OF assms(3) st assms(4)])
  then show ?thesis using st r e by auto
qed

definition demo_started :: "(nat list_ring, nat list_ring) mgr_state" where
  "demo_started = (case handle_mgr_msg demo_mgr_env (Msg_NF_Starting (Some 0)) demo_mgr of Inr s \<Rightarrow> s | Inl _ \<Rightarrow> demo_mgr)"

lemma demo_started_eq: "handle_mgr_msg demo_mgr_env (Msg_NF_Starting (Some 0)) demo_mgr = Inr demo_started"
  using demo_start by (auto simp: demo_started_def)

lemma demo_started_facts:
  "nf_status (nfs demo_started ! 1) = NF_STARTING" "nf_parent (nfs demo_started ! 1) = 0"
  "unat (nf_core (nfs demo_started ! 1)) < length (cores demo_started)"
  "map_option lr_items (nf_rx_q (nfs demo_started ! 1)) = Some []"
  "map_option lr_items (nf_tx_q (nfs demo_started ! 1)) = Some []"
  "map_option lr_items (nf_msg_q (nfs demo_started ! 1)) = Some []"
proof -
  have "case handle_mgr_msg demo_mgr_env (Msg_NF_Starting (Some 0)) demo_mgr of
      Inl _ \<Rightarrow> False
    | Inr s \<Rightarrow> nf_status (nfs s ! 1) = NF_STARTING \<and> nf_parent (nfs s ! 1) = 0 \<and> unat (nf_core (nfs s ! 1)) < length (cores s)
        \<and> map_option lr_items (nf_rx_q (nfs s ! 1)) = Some [] \<and> map_option lr_items (nf_tx_q (nfs s ! 1)) = Some []
        \<and> map_option lr_items (nf_msg_q (nfs s ! 1)) = Some []"
    by code_simp
  then show "nf_status (nfs demo_started ! 1) = NF_STARTING" "nf_parent (nfs demo_started ! 1) = 0"
    "unat (nf_core (nfs demo_started ! 1)) < length (cores demo_started)"
    "map_option lr_items (nf_rx_q (nfs demo_started ! 1)) = Some []" "map_option lr_items (nf_tx_q (nfs demo_started ! 1)) = Some []"
    "map_option lr_items (nf_msg_q (nfs demo_started ! 1)) = Some []"
    unfolding demo_started_eq by simp_all
qed

lemma demo_started_inv: "mgr_inv demo_started"
proof -
  have ok: "cfgs_ok demo_mgr" "me_nf_info_pool demo_mgr_env"
    by (simp_all add: cfgs_ok_def demo_mgr_def demo_ic_def demo_mgr_env_def)
  show ?thesis
    using inv_handle [OF inv_mgr_reachable [OF ok(2) demo_mgr_reachable] ok demo_started_eq] .
qed

theorem nf_stop_cleans_up_witness:
  "\<exists>s'. onvm_nf_stop demo_mgr_env (Some 1) demo_started = Inr (0, s') \<and> nf_status (nfs s' ! 1) = NF_STOPPED"
proof -
  have ring: "rte_ring (me_pkt_ring demo_mgr_env) lr_items lr_room" "rte_ring (me_msg_ring demo_mgr_env) lr_items lr_room"
    using list_ring.rte_ring_axioms by (simp_all add: demo_mgr_env_def)
  have pool: "me_nf_info_pool demo_mgr_env" by (simp add: demo_mgr_env_def)
  obtain rq tq mq where q: "nf_rx_q (nfs demo_started ! 1) = Some rq" "nf_tx_q (nfs demo_started ! 1) = Some tq"
    "nf_msg_q (nfs demo_started ! 1) = Some mq"
    using demo_started_facts(4-6) by auto
  have "1 < MAX_NFS" "unat (nf_parent (nfs demo_started ! 1)) < MAX_NFS"
    unfolding demo_started_facts(2) by (simp_all add: MAX_NFS_def)
  from nf_stop_cleans_up [OF ring demo_started_inv pool this(1) disjI1 [OF demo_started_facts(1)] q this(2) demo_started_facts(3)]
  show ?thesis by blast
qed


definition demo_stopped :: "(nat list_ring, nat list_ring) mgr_state" where
  "demo_stopped = (case onvm_nf_stop demo_mgr_env (Some 1) demo_started of Inr (_, s) \<Rightarrow> s | Inl _ \<Rightarrow> demo_mgr)"


end
