(* ===== verification/MgrMain.thy ===== *)
theory MgrMain
  imports MgrThreads NfLifetime
begin

text \<open>
  The top level of the DPDK manager (\<^verbatim>\<open>main.c\<close>): how many threads there are, which NFs each TX and wakeup
  thread serves, the wakeup thread, the master thread with its limits and its shut-down sequence, and the
  allocation and release of the threads' structures. Log output and statistics displays are not modelled.
\<close>

section \<open>Numbers of threads and their NFs\<close>

definition ONVM_NUM_RX_THREADS :: u32 where "ONVM_NUM_RX_THREADS = 1"
definition ONVM_NUM_MGR_AUX_THREADS :: u32 where "ONVM_NUM_MGR_AUX_THREADS = 1"
definition ONVM_NUM_WAKEUP_THREADS :: u32 where "ONVM_NUM_WAKEUP_THREADS = 1"

lemmas thread_counts = ONVM_NUM_RX_THREADS_def ONVM_NUM_MGR_AUX_THREADS_def ONVM_NUM_WAKEUP_THREADS_def

text \<open>The number of TX threads for a number of lcores; \<open>None\<close> when main gives up.\<close>

definition tx_lcores :: "u32 \<Rightarrow> bool \<Rightarrow> u32 option" where
  "tx_lcores lcore_count share =
     (let n = lcore_count - ONVM_NUM_RX_THREADS - ONVM_NUM_MGR_AUX_THREADS in
      if share then let m = n - ONVM_NUM_WAKEUP_THREADS in if m < 1 then None else Some m
      else Some n)"

text \<open>
  \<^verbatim>\<open>ceil((float)MAX_NFS / tx_lcores)\<close> as the exact quotient rounded up (for quotients of this size single precision
  does not change the result), and the integer division of the wakeup threads.
\<close>

definition nfs_per_tx :: "u32 \<Rightarrow> u32" where
  "nfs_per_tx n = of_nat ((MAX_NFS + unat n - 1) div unat n)"

definition nfs_per_wakeup_thread :: "u32 \<Rightarrow> u32" where
  "nfs_per_wakeup_thread n = of_nat MAX_NFS div n"

definition thread_first :: "u32 \<Rightarrow> u32 \<Rightarrow> u32" where
  "thread_first i n = min (i * n + 1) (of_nat MAX_NFS)"

definition thread_last :: "u32 \<Rightarrow> u32 \<Rightarrow> u32" where
  "thread_last i n = min ((i + 1) * n + 1) (of_nat MAX_NFS)"

text \<open>The quotient rounded up is the least number that covers all.\<close>

lemma rounded_up:
  fixes n :: nat
  assumes "0 < n"
  shows "m \<le> ((m + n - 1) div n) * n" "((m + n - 1) div n) * n < m + n"
proof -
  let ?k = "(m + n - 1) div n"
  have "?k * n + (m + n - 1) mod n = m + n - 1" by (simp add: div_mult_mod_eq)
  moreover have "(m + n - 1) mod n < n" using assms by simp
  ultimately show "m \<le> ?k * n" "?k * n < m + n" using assms by linarith+
qed

lemma unat_nfs_per_tx:
  assumes "0 < n"
  shows "unat (nfs_per_tx n) = (MAX_NFS + unat n - 1) div unat n"
proof -
  have n: "0 < unat n" using assms by (simp add: unat_gt_0 word_neq_0_conv)
  have "(MAX_NFS + unat n - 1) div unat n = 127 div unat n + 1"
    using div_add_self2 [of "unat n" 127] n by (simp add: onvm_limits)
  moreover have "127 div unat n \<le> 127" by simp
  ultimately have "(MAX_NFS + unat n - 1) div unat n \<le> 128" by linarith
  then show ?thesis unfolding nfs_per_tx_def by (intro unat_of_nat_exact) simp
qed

text \<open>The bounds of a thread, when the arithmetic does not wrap.\<close>

lemma unat_affine:
  assumes "unat i * unat n + 1 < 2 ^ 32"
  shows "unat (i * n + 1 :: u32) = unat i * unat n + 1"
  using assms by (simp add: unat_word_ariths)

lemma thread_bounds:
  assumes "Suc (unat i) * unat n + 1 < 2 ^ 32" "i + 1 \<noteq> 0"
  shows "unat (thread_first i n) = min (unat i * unat n + 1) MAX_NFS" "unat (thread_last i n) = min (Suc (unat i) * unat n + 1) MAX_NFS"
proof -
  have m: "unat (of_nat MAX_NFS :: u32) = MAX_NFS" by (simp add: onvm_limits)
  have inc: "unat (i + 1) = Suc (unat i)" using assms(2) by (metis add.commute unatSuc)
  show "unat (thread_first i n) = min (unat i * unat n + 1) MAX_NFS"
    using assms(1) by (simp only: thread_first_def unat_min m) (subst unat_affine, simp_all)
  show "unat (thread_last i n) = min (Suc (unat i) * unat n + 1) MAX_NFS"
    using assms(1) by (simp only: thread_last_def unat_min m) (subst unat_affine, simp_all add: inc)
qed

text \<open>The threads share the numbers from 1 below a limit: each belongs to the block of \<open>(x - 1) div k\<close>.\<close>

lemma block_unique:
  fixes k :: nat
  assumes "0 < k" "0 < x" "x < M"
  shows "min (i * k + 1) M \<le> x \<and> x < min (Suc i * k + 1) M \<longleftrightarrow> i = (x - 1) div k"
proof -
  have "min (i * k + 1) M \<le> x \<longleftrightarrow> i * k \<le> x - 1" "x < min (Suc i * k + 1) M \<longleftrightarrow> x - 1 < Suc i * k"
    using assms by auto
  moreover have "i * k \<le> x - 1 \<and> x - 1 < Suc i * k \<longleftrightarrow> i = (x - 1) div k"
    by (metis assms(1) div_nat_eqI less_eq_div_iff_mult_less_eq mult.commute order_refl div_less_iff_less_mult lessI)
  ultimately show ?thesis by simp
qed

text \<open>How \<open>n\<close> threads with \<open>k\<close> NFs each share the ids.\<close>

definition serves :: "u32 \<Rightarrow> u32 \<Rightarrow> u32 \<Rightarrow> nat \<Rightarrow> bool" where
  "serves n k i x \<longleftrightarrow> i < n \<and> unat (thread_first i k) \<le> x \<and> x < unat (thread_last i k)"

lemma serves_iff:
  assumes "0 < k" "unat n * unat k + 1 < 2 ^ 32" "0 < x" "x < MAX_NFS"
  shows "serves n k i x \<longleftrightarrow> i < n \<and> unat i = (x - 1) div unat k"
proof (cases "i < n")
  case True
  then have le: "Suc (unat i) \<le> unat n" by (simp add: word_less_nat_alt Suc_le_eq)
  then have "unat (i + 1) = Suc (unat i)" using unat_less_2p [of n] by (intro unat_inc) simp
  then have "Suc (unat i) \<le> unat n" "i + 1 \<noteq> 0" using le by auto
  moreover from this have "Suc (unat i) * unat k + 1 < 2 ^ 32"
    using assms(2) mult_le_mono1 [of "Suc (unat i)" "unat n" "unat k"] by linarith
  ultimately have "unat (thread_first i k) = min (unat i * unat k + 1) MAX_NFS"
    "unat (thread_last i k) = min (Suc (unat i) * unat k + 1) MAX_NFS"
    using thread_bounds by blast+
  moreover have "0 < unat k" using assms(1) by (simp add: unat_gt_0 word_neq_0_conv)
  ultimately show ?thesis unfolding serves_def using block_unique [of "unat k" x MAX_NFS "unat i"] assms True by metis
qed (simp add: serves_def)

lemma served_once_iff:
  assumes k: "0 < k" and w: "unat n * unat k + 1 < 2 ^ 32" and x: "0 < x" "x < MAX_NFS"
  shows "(\<exists>!i. serves n k i x) \<longleftrightarrow> x \<le> unat n * unat k"
proof -
  have pos: "0 < unat k" using k by (simp add: unat_gt_0 word_neq_0_conv)
  have uni: "serves n k i x \<longleftrightarrow> i < n \<and> unat i = (x - 1) div unat k" for i by (rule serves_iff [OF assms])
  have small: "(x - 1) div unat k < 2 ^ 32"
    by (rule le_less_trans [OF div_le_dividend]) (use x(2) in \<open>simp add: onvm_limits\<close>)
  have "(\<exists>!i. serves n k i x) \<longleftrightarrow> (x - 1) div unat k < unat n"
  proof
    assume "\<exists>!i. serves n k i x"
    then obtain i where "i < n" "unat i = (x - 1) div unat k" using uni by blast
    then show "(x - 1) div unat k < unat n" by (simp add: word_less_nat_alt)
  next
    assume l: "(x - 1) div unat k < unat n"
    have "unat (of_nat ((x - 1) div unat k) :: u32) = (x - 1) div unat k" using small by (intro unat_of_nat_exact) simp
    then have "serves n k (of_nat ((x - 1) div unat k)) x" using uni l by (simp add: word_less_nat_alt)
    moreover have "i = j" if "serves n k i x" "serves n k j x" for i j using that uni by (simp add: word_unat_eq_iff)
    ultimately show "\<exists>!i. serves n k i x" by blast
  qed
  also have "\<dots> \<longleftrightarrow> x - 1 < unat n * unat k" using pos by (simp add: div_less_iff_less_mult)
  also have "\<dots> \<longleftrightarrow> x \<le> unat n * unat k" using x(1) by linarith
  finally show ?thesis .
qed

section \<open>Waking NFs in shared-core mode\<close>

text \<open>The sleep flag, the number of wakeups and the value of the semaphore of an NF.\<close>

record nf_wakeup_info =
  shm_server :: u16
  num_wakeups :: u64
  sem_value :: nat

abbreviation PKT_WAKEUP_THRESHOLD :: nat where "PKT_WAKEUP_THRESHOLD \<equiv> 1"
abbreviation MSG_WAKEUP_THRESHOLD :: nat where "MSG_WAKEUP_THRESHOLD \<equiv> 1"

definition whether_wakeup_client :: "('q, 'mq) mgr_env \<Rightarrow> ('q, 'mq) onvm_nf \<Rightarrow> nf_wakeup_info \<Rightarrow> bool option" where
  "whether_wakeup_client env nf w = do {
     q \<leftarrow> nf_rx_q nf;
     idle \<leftarrow> (if ring_count (me_pkt_ring env) q < PKT_WAKEUP_THRESHOLD
              then map_option (\<lambda>m. ring_count (me_msg_ring env) m < MSG_WAKEUP_THRESHOLD) (nf_msg_q nf) else Some False);
     Some (\<not> idle \<and> shm_server w \<noteq> 0) }"

definition wakeup_client :: "nf_wakeup_info \<Rightarrow> nf_wakeup_info" where
  "wakeup_client w = w\<lparr>num_wakeups := num_wakeups w + 1, shm_server := 0, sem_value := sem_value w + 1\<rparr>"

primrec wakeup_nfs ::
  "('q, 'mq) mgr_env \<Rightarrow> ('q, 'mq) mgr_state \<Rightarrow> nat list \<Rightarrow> nf_wakeup_info list \<Rightarrow> nf_wakeup_info list option" where
  "wakeup_nfs env s [] ws = Some ws"
| "wakeup_nfs env s (i # is) ws =
     (if i \<ge> length (nfs s) \<or> i \<ge> length ws then None
      else if \<not> onvm_nf_is_valid (nfs s ! i) then wakeup_nfs env s is ws
      else case whether_wakeup_client env (nfs s ! i) (ws ! i) of
        None \<Rightarrow> None
      | Some wake \<Rightarrow> wakeup_nfs env s is (if wake then ws[i := wakeup_client (ws ! i)] else ws))"

text \<open>One iteration of the loop of \<^verbatim>\<open>wakeup_thread_main\<close>.\<close>

definition wakeup_pass ::
  "('q, 'mq) mgr_env \<Rightarrow> nat \<Rightarrow> nat \<Rightarrow> ('q, 'mq) mgr_state \<Rightarrow> nf_wakeup_info list \<Rightarrow> nf_wakeup_info list option" where
  "wakeup_pass env lo hi s ws = wakeup_nfs env s [lo..<hi] ws"

section \<open>Master thread\<close>

abbreviation TIME_TTL_MULTIPLIER :: u64 where "TIME_TTL_MULTIPLIER \<equiv> 1"
abbreviation PKT_TTL_MULTIPLIER :: u64 where "PKT_TTL_MULTIPLIER \<equiv> 1000000"

text \<open>What an iteration observes: other threads and NFs, the signal flag, the clock and the port counters.\<close>

record ('q, 'mq) master_obs =
  mo_other :: "('q, 'mq) mgr_state \<Rightarrow> ('q, 'mq) mgr_state"
  mo_signal :: bool
  mo_now :: u64
  mo_ports :: port_info

definition total_rx_pkts :: "port_info \<Rightarrow> u64 option" where
  "total_rx_pkts p =
     (let ids = map unat (take (unat (num_ports p)) (port_id p)) in
      if unat (num_ports p) \<le> length (port_id p) \<and> (\<forall>i \<in> set ids. i < length (port_rx p))
      then Some (\<Sum>i\<leftarrow>ids. port_rx p ! i) else None)"

definition limits_reached :: "u32 \<Rightarrow> u32 \<Rightarrow> u64 \<Rightarrow> u64 \<Rightarrow> u64 \<Rightarrow> port_info \<Rightarrow> bool option" where
  "limits_reached ttl pkt_limit start now hz p =
     (let expired = ttl \<noteq> 0 \<and> (now - start) * TIME_TTL_MULTIPLIER div hz \<ge> ucast ttl in
      if pkt_limit = 0 then Some expired
      else map_option (\<lambda>t. expired \<or> t \<ge> ucast pkt_limit * PKT_TTL_MULTIPLIER) (total_rx_pkts p))"

text \<open>The loop over NF messages and limits: it ends when a signal arrived or a limit was reached.\<close>

primrec master_loop ::
  "('q, 'mq) mgr_env \<Rightarrow> u32 \<Rightarrow> u32 \<Rightarrow> u64 \<Rightarrow> u64 \<Rightarrow> ('q, 'mq) master_obs list \<Rightarrow> ('q, 'mq) mgr_state
    \<Rightarrow> mgr_fail + (bool \<times> ('q, 'mq) mgr_state)" where
  "master_loop env ttl lim start hz [] s = Inr (False, s)"
| "master_loop env ttl lim start hz (ob # obs) s =
     (if mo_signal ob then Inr (True, s)
      else case onvm_nf_check_status env (mo_other ob s) of
        Inl e \<Rightarrow> Inl e
      | Inr s1 \<Rightarrow>
          (case limits_reached ttl lim start (mo_now ob) hz (mo_ports ob) of
             None \<Rightarrow> Inl Bad_Access
           | Some True \<Rightarrow> Inr (True, s1)
           | Some False \<Rightarrow> master_loop env ttl lim start hz obs s1))"

text \<open>Tell all NFs to stop: \<open>slot i\<close> is the message object the pool gave for NF \<open>i\<close>.\<close>

primrec notify_nfs ::
  "('q, 'mq) mgr_env \<Rightarrow> bool \<Rightarrow> (nat \<Rightarrow> nat option) \<Rightarrow> nat list \<Rightarrow> ('q, 'mq) mgr_state \<times> nf_wakeup_info list
    \<Rightarrow> (('q, 'mq) mgr_state \<times> nf_wakeup_info list) option" where
  "notify_nfs env share slot [] c = Some c"
| "notify_nfs env share slot (i # is) c =
     (let (s, ws) = c in
      if i \<ge> length (nfs s) then None
      else if nf_status (nfs s ! i) \<noteq> NF_RUNNING then notify_nfs env share slot is c
      else Option.bind (onvm_nf_send_msg env (slot i) i s) (\<lambda>(r, s1).
        if share \<and> i \<ge> length ws then None
        else notify_nfs env share slot is
          (s1, if share \<and> shm_server (ws ! i) = 1 then ws[i := wakeup_client (ws ! i)] else ws)))"

definition notify_all ::
  "('q, 'mq) mgr_env \<Rightarrow> bool \<Rightarrow> (nat \<Rightarrow> nat option) \<Rightarrow> ('q, 'mq) mgr_state \<times> nf_wakeup_info list
    \<Rightarrow> (('q, 'mq) mgr_state \<times> nf_wakeup_info list) option" where
  "notify_all env share slot c = notify_nfs env share slot [0..<MAX_NFS] c"

text \<open>Wait for the NFs to exit, at most \<^verbatim>\<open>MAX_SHUTDOWN_ITERS\<close> times: \<open>others\<close> is what they do meanwhile.\<close>

abbreviation MAX_SHUTDOWN_ITERS :: nat where "MAX_SHUTDOWN_ITERS \<equiv> 10"

primrec wait_exits ::
  "('q, 'mq) mgr_env \<Rightarrow> nat \<Rightarrow> (nat \<Rightarrow> ('q, 'mq) mgr_state \<Rightarrow> ('q, 'mq) mgr_state) \<Rightarrow> ('q, 'mq) mgr_state
    \<Rightarrow> mgr_fail + ('q, 'mq) mgr_state" where
  "wait_exits env 0 others s = Inr s"
| "wait_exits env (Suc n) others s =
     (if NfMgr.num_nfs s > 0
      then case onvm_nf_check_status env (others n s) of Inl e \<Rightarrow> Inl e | Inr s1 \<Rightarrow> wait_exits env n others s1
      else Inr s)"

text \<open>\<^verbatim>\<open>master_thread_main\<close>: the loop and then the shut-down sequence; \<open>False\<close> when it is still looping.\<close>

definition master_thread_main ::
  "('q, 'mq) mgr_env \<Rightarrow> bool \<Rightarrow> u32 \<Rightarrow> u32 \<Rightarrow> u64 \<Rightarrow> u64 \<Rightarrow> ('q, 'mq) master_obs list \<Rightarrow> (nat \<Rightarrow> nat option)
    \<Rightarrow> (nat \<Rightarrow> ('q, 'mq) mgr_state \<Rightarrow> ('q, 'mq) mgr_state) \<Rightarrow> ('q, 'mq) mgr_state \<times> nf_wakeup_info list
    \<Rightarrow> mgr_fail + (bool \<times> ('q, 'mq) mgr_state \<times> nf_wakeup_info list)" where
  "master_thread_main env share ttl lim start hz obs slot others = (\<lambda>(s, ws).
     case master_loop env ttl lim start hz obs s of
       Inl e \<Rightarrow> Inl e
     | Inr (False, s1) \<Rightarrow> Inr (False, s1, ws)
     | Inr (True, s1) \<Rightarrow>
         (case notify_all env share slot (s1, ws) of
            None \<Rightarrow> Inl Bad_Access
          | Some (s2, ws2) \<Rightarrow>
              (case wait_exits env MAX_SHUTDOWN_ITERS others s2 of
                 Inl e \<Rightarrow> Inl e
               | Inr s3 \<Rightarrow> Inr (True, s3, ws2))))"

section \<open>Memory of main\<close>

text \<open>
  The arrays \<^verbatim>\<open>tx_mgr\<close>, \<^verbatim>\<open>rx_mgr\<close> and \<^verbatim>\<open>wakeup_ctx\<close> are local variables without an initial value: an entry
  that was not yet written is \<open>Uninit\<close>. The \<open>k\<close>-th call of \<^verbatim>\<open>rte_calloc\<close> gives \<open>Block k\<close> (with zeroed, that is null,
  pointers in it) when \<open>ok k\<close>; \<open>busy i\<close> says whether launching the \<open>i\<close>-th thread of a kind finds its core busy.
\<close>

datatype ptr = Uninit | Null | Block nat

definition rte_calloc :: "(nat \<Rightarrow> bool) \<Rightarrow> nat \<Rightarrow> ptr" where
  "rte_calloc ok k = (if ok k then Block k else Null)"

record tx_cell =
  tc_mgr :: ptr
  tc_info :: ptr
  tc_port_bufs :: ptr
  tc_rx_bufs :: ptr

definition uninit_cell :: tx_cell where
  "uninit_cell = \<lparr>tc_mgr = Uninit, tc_info = Uninit, tc_port_bufs = Uninit, tc_rx_bufs = Uninit\<rparr>"

text \<open>The structures of one TX thread: whether its set-up succeeded, the pointers, and the calls made so far.\<close>

definition tx_setup :: "(nat \<Rightarrow> bool) \<Rightarrow> bool \<Rightarrow> nat \<Rightarrow> bool \<times> tx_cell \<times> nat" where
  "tx_setup ok busy k =
     (let c = \<lparr>tc_mgr = rte_calloc ok k, tc_info = Null, tc_port_bufs = Null, tc_rx_bufs = Null\<rparr> in
      if tc_mgr c = Null then (False, c, k + 1)
      else let c1 = c\<lparr>tc_info := rte_calloc ok (k + 1)\<rparr> in
      if tc_info c1 = Null then (False, c1, k + 2)
      else let c2 = c1\<lparr>tc_port_bufs := rte_calloc ok (k + 2)\<rparr> in
      if tc_port_bufs c2 = Null then (False, c2, k + 3)
      else let c3 = c2\<lparr>tc_rx_bufs := rte_calloc ok (k + 3)\<rparr> in
      if tc_rx_bufs c3 = Null then (False, c3, k + 4)
      else (\<not> busy, c3, k + 4))"

definition rx_setup :: "(nat \<Rightarrow> bool) \<Rightarrow> bool \<Rightarrow> nat \<Rightarrow> bool \<times> (ptr \<times> ptr) \<times> nat" where
  "rx_setup ok busy k =
     (let m = rte_calloc ok k in
      if m = Null then (False, (m, Null), k + 1)
      else let b = rte_calloc ok (k + 1) in
      if b = Null then (False, (m, b), k + 2)
      else (\<not> busy, (m, b), k + 2))"

definition wk_setup :: "(nat \<Rightarrow> bool) \<Rightarrow> bool \<Rightarrow> nat \<Rightarrow> bool \<times> ptr \<times> nat" where
  "wk_setup ok busy k = (let c = rte_calloc ok k in if c = Null then (False, c, k + 1) else (\<not> busy, c, k + 1))"

text \<open>The three set-up loops: the first failure leaves the rest of the array unwritten.\<close>

primrec setup_loop :: "(bool \<Rightarrow> nat \<Rightarrow> bool \<times> 'c \<times> nat) \<Rightarrow> 'c \<Rightarrow> (nat \<Rightarrow> bool) \<Rightarrow> nat \<Rightarrow> nat \<Rightarrow> nat \<Rightarrow> bool \<times> 'c list \<times> nat" where
  "setup_loop f u busy i 0 k = (True, [], k)"
| "setup_loop f u busy i (Suc n) k =
     (case f (busy i) k of
        (False, c, k1) \<Rightarrow> (False, c # replicate n u, k1)
      | (True, c, k1) \<Rightarrow> (case setup_loop f u busy (i + 1) n k1 of (r, cs, k2) \<Rightarrow> (r, c # cs, k2)))"

text \<open>\<^verbatim>\<open>onvm_main_free\<close>: what it frees; \<open>None\<close> when it uses an unwritten or a null pointer.\<close>

definition block :: "ptr \<Rightarrow> nat list" where
  "block p = (case p of Block k \<Rightarrow> [k] | _ \<Rightarrow> [])"

primrec free_tx :: "tx_cell list \<Rightarrow> nat list option" where
  "free_tx [] = Some []"
| "free_tx (c # cs) =
     (case tc_mgr c of
        Uninit \<Rightarrow> None
      | Null \<Rightarrow> Some []
      | Block p \<Rightarrow>
          (case tc_info c of
             Block q \<Rightarrow> map_option (\<lambda>f. block (tc_rx_bufs c) @ block (tc_port_bufs c) @ [q, p] @ f) (free_tx cs)
           | _ \<Rightarrow> None))"

primrec free_rx :: "(ptr \<times> ptr) list \<Rightarrow> nat list option" where
  "free_rx [] = Some []"
| "free_rx (c # cs) =
     (case fst c of
        Uninit \<Rightarrow> None
      | Null \<Rightarrow> Some []
      | Block p \<Rightarrow> map_option (\<lambda>f. block (snd c) @ [p] @ f) (free_rx cs))"

primrec free_wk :: "ptr list \<Rightarrow> nat list option" where
  "free_wk [] = Some []"
| "free_wk (c # cs) = (case c of Uninit \<Rightarrow> None | Null \<Rightarrow> Some [] | Block p \<Rightarrow> map_option (\<lambda>f. p # f) (free_wk cs))"

definition onvm_main_free :: "bool \<Rightarrow> tx_cell list \<Rightarrow> (ptr \<times> ptr) list \<Rightarrow> ptr list \<Rightarrow> nat list option" where
  "onvm_main_free share txs rxs wks = do {
     a \<leftarrow> free_tx txs; b \<leftarrow> free_rx rxs; c \<leftarrow> (if share then free_wk wks else Some []);
     Some (a @ b @ c) }"

text \<open>The set-up part of \<^verbatim>\<open>main\<close>: how far it got, the arrays and the number of allocations.\<close>

datatype stage = TX_Stage | RX_Stage | Wakeup_Stage | All_Running

definition main_setup ::
  "bool \<Rightarrow> nat \<Rightarrow> (nat \<Rightarrow> bool) \<Rightarrow> (stage \<Rightarrow> nat \<Rightarrow> bool) \<Rightarrow> stage \<times> tx_cell list \<times> (ptr \<times> ptr) list \<times> ptr list \<times> nat" where
  "main_setup share txn ok busy =
     (let nrx = unat ONVM_NUM_RX_THREADS; nwk = unat ONVM_NUM_WAKEUP_THREADS;
          rx0 = replicate nrx (Uninit, Uninit); wk0 = replicate nwk Uninit
      in case setup_loop (tx_setup ok) uninit_cell (busy TX_Stage) 0 txn 0 of
        (False, txs, k) \<Rightarrow> (TX_Stage, txs, rx0, wk0, k)
      | (True, txs, k) \<Rightarrow>
          (case setup_loop (rx_setup ok) (Uninit, Uninit) (busy RX_Stage) 0 nrx k of
             (False, rxs, k1) \<Rightarrow> (RX_Stage, txs, rxs, wk0, k1)
           | (True, rxs, k1) \<Rightarrow>
               if \<not> share then (All_Running, txs, rxs, wk0, k1)
               else (case setup_loop (wk_setup ok) Uninit (busy Wakeup_Stage) 0 nwk k1 of
                       (False, wks, k2) \<Rightarrow> (Wakeup_Stage, txs, rxs, wks, k2)
                     | (True, wks, k2) \<Rightarrow> (All_Running, txs, rxs, wks, k2))))"

section \<open>What the set-up leaves\<close>

text \<open>The blocks a stretch of calls allocated.\<close>

definition allocated :: "(nat \<Rightarrow> bool) \<Rightarrow> nat \<Rightarrow> nat \<Rightarrow> nat multiset" where
  "allocated ok a b = mset (filter ok [a..<b])"

lemma allocated_append: "a \<le> b \<Longrightarrow> b \<le> c \<Longrightarrow> allocated ok a b + allocated ok b c = allocated ok a c"
  unfolding allocated_def by (metis filter_append le_add_diff_inverse mset_append upt_add_eq_append)

lemma allocated_Suc [simp]: "allocated ok a a = {#}" "allocated ok a (Suc a) = (if ok a then {#a#} else {#})"
  "allocated ok a (Suc (Suc b)) = allocated ok a (Suc b) + (if a \<le> Suc b \<and> ok (Suc b) then {#Suc b#} else {#})"
  by (auto simp: allocated_def)

lemma tx_stage_free:
  "setup_loop (tx_setup ok) uninit_cell busy i n k = (True, cs, k') \<Longrightarrow>
   k \<le> k' \<and> (\<exists>f. free_tx cs = Some f \<and> mset f = allocated ok k k')"
proof (induction n arbitrary: i k cs)
  case (Suc n)
  obtain c k1 cs1 where c: "tx_setup ok (busy i) k = (True, c, k1)" "setup_loop (tx_setup ok) uninit_cell busy (i + 1) n k1 = (True, cs1, k')"
    "cs = c # cs1"
    using Suc.prems by (auto split: prod.splits bool.splits)
  obtain f where f: "k1 \<le> k'" "free_tx cs1 = Some f" "mset f = allocated ok k1 k'" using Suc.IH [OF c(2)] by blast
  have k: "k1 = k + 4" "ok k" "ok (k + 1)" "ok (k + 2)" "ok (k + 3)"
    "c = \<lparr>tc_mgr = Block k, tc_info = Block (k + 1), tc_port_bufs = Block (k + 2), tc_rx_bufs = Block (k + 3)\<rparr>"
    using c(1) by (auto simp: tx_setup_def rte_calloc_def Let_def split: if_splits)
  have "allocated ok k k1 = {#k, k + 1, k + 2, k + 3#}" using k(1-5) by (simp add: allocated_def upt_rec numeral_3_eq_3)
  then show ?case
    using f k(1,6) c(3) allocated_append [of k k1 k' ok] by (auto simp: block_def) (metis add_mset_commute union_mset_add_mset_left add_0)
qed simp

lemma rx_stage_one:
  "setup_loop (rx_setup ok) (Uninit, Uninit) busy 0 (Suc 0) k = (r, cs, k') \<Longrightarrow>
   k \<le> k' \<and> (\<exists>f. free_rx cs = Some f \<and> mset f = allocated ok k k')"
  by (auto simp: rx_setup_def rte_calloc_def Let_def block_def split: if_splits bool.splits)

lemma wk_stage_one:
  "setup_loop (wk_setup ok) Uninit busy 0 (Suc 0) k = (r, cs, k') \<Longrightarrow>
   k \<le> k' \<and> (\<exists>f. free_wk cs = Some f \<and> mset f = allocated ok k k')"
  by (auto simp: wk_setup_def rte_calloc_def Let_def split: if_splits bool.splits)

lemma wakeup_nfs_spec:
  assumes len: "length ws = length (nfs s)" and "distinct is"
    and rings: "\<forall>i \<in> set is. i < length (nfs s) \<and> (onvm_nf_is_valid (nfs s ! i) \<longrightarrow> nf_rx_q (nfs s ! i) \<noteq> None \<and> nf_msg_q (nfs s ! i) \<noteq> None)"
  shows "\<exists>ws'. wakeup_nfs env s is ws = Some ws' \<and> length ws' = length ws
    \<and> (\<forall>i < length ws. ws' ! i = (if i \<in> set is \<and> onvm_nf_is_valid (nfs s ! i) \<and> whether_wakeup_client env (nfs s ! i) (ws ! i) = Some True
         then wakeup_client (ws ! i) else ws ! i))"
  using assms
proof (induction "is" arbitrary: ws)
  case (Cons j js)
  have j: "j < length (nfs s)" "j < length ws" using Cons.prems by simp_all
  show ?case
  proof (cases "onvm_nf_is_valid (nfs s ! j)")
    case False
    then show ?thesis using Cons.IH [of ws] Cons.prems j by auto
  next
    case True
    then obtain q m where "nf_rx_q (nfs s ! j) = Some q" "nf_msg_q (nfs s ! j) = Some m" using Cons.prems(3) by auto
    then obtain w where w: "whether_wakeup_client env (nfs s ! j) (ws ! j) = Some w"
      by (cases "ring_count (me_pkt_ring env) q = 0") (simp_all add: whether_wakeup_client_def)
    define ws1 where "ws1 = (if w then ws[j := wakeup_client (ws ! j)] else ws)"
    have len1: "length ws1 = length (nfs s)" "length ws1 = length ws" using Cons.prems(1) by (simp_all add: ws1_def)
    have nth1: "ws1 ! i = (if i = j \<and> w then wakeup_client (ws ! j) else ws ! i)" for i using j(2) by (simp add: ws1_def nth_update_if)
    obtain ws' where ws': "wakeup_nfs env s js ws1 = Some ws'" "length ws' = length ws1"
      "\<forall>i < length ws1. ws' ! i = (if i \<in> set js \<and> onvm_nf_is_valid (nfs s ! i) \<and> whether_wakeup_client env (nfs s ! i) (ws1 ! i) = Some True
         then wakeup_client (ws1 ! i) else ws1 ! i)"
      using Cons.IH [OF len1(1)] Cons.prems(2,3) by auto
    have "ws' ! i = (if i \<in> set (j # js) \<and> onvm_nf_is_valid (nfs s ! i) \<and> whether_wakeup_client env (nfs s ! i) (ws ! i) = Some True
         then wakeup_client (ws ! i) else ws ! i)" if "i < length ws" for i
      using ws'(3) that True w len1(2) Cons.prems(2) by (cases "i = j") (simp_all add: nth1)
    then show ?thesis using ws'(1,2) True w j len1 by (auto simp: ws1_def)
  qed
qed simp

text \<open>Sending a message to an NF: the ring of that NF takes it when there is room, and nothing else changes.\<close>

definition stop_msg :: "('mq \<Rightarrow> nat) \<Rightarrow> nat option \<Rightarrow> 'mq \<Rightarrow> nat list" where
  "stop_msg room slot q = (case slot of Some m \<Rightarrow> if 0 < room q then [m] else [] | None \<Rightarrow> [])"

lemma send_msg_spec:
  assumes ring: "rte_ring (me_msg_ring env) items room" and i: "i < length (nfs s)" and q: "nf_msg_q (nfs s ! i) = Some q"
  shows "\<exists>r q'. onvm_nf_send_msg env slot i s = Some (r, update_nf i (\<lambda>nf. nf\<lparr>nf_msg_q := Some q'\<rparr>) s)
    \<and> items q' = items q @ stop_msg room slot q"
proof (cases slot)
  case None
  have "(nfs s ! i)\<lparr>nf_msg_q := Some q\<rparr> = nfs s ! i" using q by (cases "nfs s ! i") simp
  then have "update_nf i (\<lambda>nf. nf\<lparr>nf_msg_q := Some q\<rparr>) s = s" by simp
  then show ?thesis using None by (intro exI [where x = "- ENOENT"] exI [where x = q]) (simp add: onvm_nf_send_msg_def stop_msg_def)
next
  case (Some m)
  obtain r q' where e: "ring_enqueue (me_msg_ring env) q m = (r, q')" by (metis surj_pair)
  have "items q' = items q @ (if 0 < room q then [m] else [])"
    using rte_ring.enq_ok [OF ring _ e] rte_ring.enq_full [OF ring _ e] by auto
  then show ?thesis using Some i q e by (auto simp: onvm_nf_send_msg_def stop_msg_def)
qed

text \<open>What telling an NF to stop means: its message ring, its sleep state.\<close>

definition told :: "('mq \<Rightarrow> nat list) \<Rightarrow> ('mq \<Rightarrow> nat) \<Rightarrow> nat option \<Rightarrow> ('q, 'mq) onvm_nf \<Rightarrow> ('q, 'mq) onvm_nf \<Rightarrow> bool" where
  "told items room slot nf nf' \<longleftrightarrow> (\<exists>q q'. nf_msg_q nf = Some q \<and> nf' = nf\<lparr>nf_msg_q := Some q'\<rparr> \<and> items q' = items q @ stop_msg room slot q)"

lemma notify_nfs_spec:
  assumes ring: "rte_ring (me_msg_ring env) items room" and "distinct is"
    and "\<forall>i \<in> set is. i < length (nfs s) \<and> (nf_status (nfs s ! i) = NF_RUNNING \<longrightarrow> nf_msg_q (nfs s ! i) \<noteq> None)"
    and "length ws = length (nfs s)"
  shows "\<exists>s' ws'. notify_nfs env share slot is (s, ws) = Some (s', ws') \<and> length (nfs s') = length (nfs s) \<and> length ws' = length ws
    \<and> s' = s\<lparr>nfs := nfs s'\<rparr>
    \<and> (\<forall>i < length (nfs s). if i \<in> set is \<and> nf_status (nfs s ! i) = NF_RUNNING
         then told items room (slot i) (nfs s ! i) (nfs s' ! i) \<and> ws' ! i = (if share \<and> shm_server (ws ! i) = 1 then wakeup_client (ws ! i) else ws ! i)
         else nfs s' ! i = nfs s ! i \<and> ws' ! i = ws ! i)"
  using assms(2-)
proof (induction "is" arbitrary: s ws)
  case Nil
  then show ?case by simp
next
  case (Cons j js)
  have j: "j < length (nfs s)" using Cons.prems by simp
  show ?case
  proof (cases "nf_status (nfs s ! j) = NF_RUNNING")
    case False
    then show ?thesis using Cons.IH [of s ws] Cons.prems j by auto
  next
    case True
    obtain q where q: "nf_msg_q (nfs s ! j) = Some q" using Cons.prems(2) True by auto
    obtain r q' where m: "onvm_nf_send_msg env (slot j) j s = Some (r, update_nf j (\<lambda>nf. nf\<lparr>nf_msg_q := Some q'\<rparr>) s)"
      "items q' = items q @ stop_msg room (slot j) q"
      using send_msg_spec [OF ring j q] by blast
    define s1 where "s1 = update_nf j (\<lambda>nf. nf\<lparr>nf_msg_q := Some q'\<rparr>) s"
    define ws1 where "ws1 = (if share \<and> shm_server (ws ! j) = 1 then ws[j := wakeup_client (ws ! j)] else ws)"
    have n1: "nfs s1 ! i = (if i = j then (nfs s ! j)\<lparr>nf_msg_q := Some q'\<rparr> else nfs s ! i)" "length (nfs s1) = length (nfs s)" for i
      using j by (simp_all add: s1_def nth_update_if)
    have w1: "ws1 ! i = (if i = j \<and> share \<and> shm_server (ws ! j) = 1 then wakeup_client (ws ! j) else ws ! i)" "length ws1 = length ws" for i
      using j Cons.prems(3) by (simp_all add: ws1_def nth_update_if)
    have pre: "distinct js" "\<forall>i \<in> set js. i < length (nfs s1) \<and> (nf_status (nfs s1 ! i) = NF_RUNNING \<longrightarrow> nf_msg_q (nfs s1 ! i) \<noteq> None)"
      "length ws1 = length (nfs s1)" using Cons.prems n1 w1(2) by auto
    obtain s' ws' where r: "notify_nfs env share slot js (s1, ws1) = Some (s', ws')" "length (nfs s') = length (nfs s1)" "length ws' = length ws1"
      "s' = s1\<lparr>nfs := nfs s'\<rparr>"
      "\<And>i. i < length (nfs s1) \<Longrightarrow> if i \<in> set js \<and> nf_status (nfs s1 ! i) = NF_RUNNING
         then told items room (slot i) (nfs s1 ! i) (nfs s' ! i) \<and> ws' ! i = (if share \<and> shm_server (ws1 ! i) = 1 then wakeup_client (ws1 ! i) else ws1 ! i)
         else nfs s' ! i = nfs s1 ! i \<and> ws' ! i = ws1 ! i"
      using Cons.IH [OF pre] by blast
    have step: "notify_nfs env share slot (j # js) (s, ws) = Some (s', ws')"
      using r(1) True j m(1) Cons.prems(3) by (simp add: s1_def ws1_def)
    have j_told: "told items room (slot j) (nfs s ! j) ((nfs s ! j)\<lparr>nf_msg_q := Some q'\<rparr>)" using q m(2) by (auto simp: told_def)
    have eff: "if i \<in> set (j # js) \<and> nf_status (nfs s ! i) = NF_RUNNING
         then told items room (slot i) (nfs s ! i) (nfs s' ! i) \<and> ws' ! i = (if share \<and> shm_server (ws ! i) = 1 then wakeup_client (ws ! i) else ws ! i)
         else nfs s' ! i = nfs s ! i \<and> ws' ! i = ws ! i" if "i < length (nfs s)" for i
    proof (cases "i = j")
      case eq: True
      then show ?thesis using r(5) [of j] j n1 w1 True Cons.prems(1) j_told by simp
    next
      case False
      then have e: "nfs s1 ! i = nfs s ! i" "ws1 ! i = ws ! i" using n1(1) w1(1) by simp_all
      show ?thesis using r(5) [of i, unfolded e n1(2)] that False by simp
    qed
    have "s' = s\<lparr>nfs := nfs s'\<rparr>" using r(4) by (simp add: s1_def)
    then show ?thesis using step eff r(2,3) n1(2) w1(2) by auto
  qed
qed

section \<open>Properties\<close>

text \<open>
  C28. The NF ids from 1 to 127 are shared out: with any number of TX threads below \<open>2 ^ 16\<close> every id is served by exactly one
  of them, and no thread serves another id. The wakeup threads, whose share is an integer division that \<^verbatim>\<open>ceil\<close>
  comes too late for, serve every id exactly when the product of their number and their share is at least
  127, as it is for the one thread the manager starts.
\<close>

theorem tx_threads_partition_nfs:
  assumes "0 < n" and "unat n < 2 ^ 16"
  shows "(\<forall>x. 0 < x \<and> x < MAX_NFS \<longrightarrow> (\<exists>!i. serves n (nfs_per_tx n) i x))
    \<and> (\<forall>i x. serves n (nfs_per_tx n) i x \<longrightarrow> 0 < x \<and> x < MAX_NFS)
    \<and> ((\<forall>x. 0 < x \<and> x < MAX_NFS \<longrightarrow> (\<exists>!i. serves n (nfs_per_wakeup_thread n) i x)) \<longleftrightarrow> MAX_NFS - 1 \<le> unat n * (MAX_NFS div unat n))"
proof (intro conjI)
  let ?k = "nfs_per_tx n" and ?w = "nfs_per_wakeup_thread n"
  have n: "0 < unat n" using assms(1) by (simp add: unat_gt_0 word_neq_0_conv)
  have k: "unat ?k * unat n < MAX_NFS + unat n" "MAX_NFS \<le> unat ?k * unat n"
    using rounded_up [OF n, of MAX_NFS] unat_nfs_per_tx [OF assms(1)] by simp_all
  then have kw: "0 < ?k" "unat n * unat ?k + 1 < 2 ^ 32"
    using assms(2) by (auto simp: word_greater_zero_iff onvm_limits mult.commute)
  show "\<forall>x. 0 < x \<and> x < MAX_NFS \<longrightarrow> (\<exists>!i. serves n ?k i x)"
    using served_once_iff [OF kw] k(2) by (simp add: mult.commute)
  show "\<forall>i x. serves n ?k i x \<longrightarrow> 0 < x \<and> x < MAX_NFS"
  proof (intro allI impI)
    fix i x
    assume s: "serves n ?k i x"
    then have le: "Suc (unat i) \<le> unat n" by (simp add: serves_def word_less_nat_alt)
    then have "unat (i + 1) = Suc (unat i)" using unat_less_2p [of n] by (intro unat_inc) simp
    then have "i + 1 \<noteq> 0" by auto
    moreover have "Suc (unat i) * unat ?k + 1 < 2 ^ 32"
      using kw(2) mult_le_mono1 [OF le, of "unat ?k"] by linarith
    ultimately show "0 < x \<and> x < MAX_NFS" using s thread_bounds [of i ?k] by (auto simp: serves_def onvm_limits)
  qed
  have w: "unat ?w = MAX_NFS div unat n" by (simp add: nfs_per_wakeup_thread_def unat_div onvm_limits)
  show "(\<forall>x. 0 < x \<and> x < MAX_NFS \<longrightarrow> (\<exists>!i. serves n ?w i x)) \<longleftrightarrow> MAX_NFS - 1 \<le> unat n * (MAX_NFS div unat n)"
  proof (cases "?w = 0")
    case True
    then have "\<not> serves n ?w i x" for i x by (simp add: serves_def thread_first_def thread_last_def)
    then have "\<not> (\<forall>x. 0 < x \<and> x < MAX_NFS \<longrightarrow> (\<exists>!i. serves n ?w i x))" by (auto intro!: exI [of _ 1] simp: onvm_limits)
    then show ?thesis using True w by (simp add: onvm_limits)
  next
    case False
    have "unat n * unat ?w \<le> MAX_NFS" unfolding w by simp
    then have ww: "0 < ?w" "unat n * unat ?w + 1 < 2 ^ 32" using False by (simp_all add: word_neq_0_conv onvm_limits)
    have "(\<forall>x. 0 < x \<and> x < MAX_NFS \<longrightarrow> (\<exists>!i. serves n ?w i x)) \<longleftrightarrow> (\<forall>x. 0 < x \<and> x < MAX_NFS \<longrightarrow> x \<le> unat n * unat ?w)"
      by (simp add: served_once_iff [OF ww])
    also have "\<dots> \<longleftrightarrow> MAX_NFS - 1 \<le> unat n * unat ?w"
    proof
      assume "\<forall>x. 0 < x \<and> x < MAX_NFS \<longrightarrow> x \<le> unat n * unat ?w"
      from spec [OF this, of "MAX_NFS - 1"] show "MAX_NFS - 1 \<le> unat n * unat ?w" unfolding MAX_NFS_def by linarith
    qed linarith
    finally show ?thesis unfolding w .
  qed
qed

theorem tx_threads_partition_nfs_witness:
  "(\<exists>!i. serves 3 (nfs_per_tx 3) i 127) \<and> \<not> (\<forall>x. 0 < x \<and> x < MAX_NFS \<longrightarrow> (\<exists>!i. serves 3 (nfs_per_wakeup_thread 3) i x))"
  using tx_threads_partition_nfs [of 3] by (simp add: onvm_limits)

text \<open>
  Leaving main: the clean-up uses a pointer that was never written, or one that is null, exactly when setting up a TX
  thread failed, or setting up the RX thread failed in shared-core mode. In every other case, the regular one included, it frees each
  block that was allocated, once.
\<close>

lemma main_free_undefined_iff:
  assumes "main_setup share txn ok busy = (st, txs, rxs, wks, calls)"
  shows "(onvm_main_free share txs rxs wks = None \<longleftrightarrow> st = TX_Stage \<or> st = RX_Stage \<and> share)
    \<and> (\<forall>f. onvm_main_free share txs rxs wks = Some f \<longrightarrow> mset f = mset (filter ok [0..<calls]))"
proof -
  obtain r1 ts k where tx: "setup_loop (tx_setup ok) uninit_cell (busy TX_Stage) 0 txn 0 = (r1, ts, k)" by (metis prod_cases3)
  obtain r2 rs k1 where rx: "setup_loop (rx_setup ok) (Uninit, Uninit) (busy RX_Stage) 0 (Suc 0) k = (r2, rs, k1)" by (metis prod_cases3)
  obtain r3 ws k2 where wk: "setup_loop (wk_setup ok) Uninit (busy Wakeup_Stage) 0 (Suc 0) k1 = (r3, ws, k2)" by (metis prod_cases3)
  have one: "unat ONVM_NUM_RX_THREADS = Suc 0" "unat ONVM_NUM_WAKEUP_THREADS = Suc 0" by (simp_all add: thread_counts)
  have su: "(st, txs, rxs, wks, calls) =
      (if \<not> r1 then (TX_Stage, ts, [(Uninit, Uninit)], [Uninit], k)
       else if \<not> r2 then (RX_Stage, ts, rs, [Uninit], k1)
       else if \<not> share then (All_Running, ts, rs, [Uninit], k1)
       else (if r3 then All_Running else Wakeup_Stage, ts, rs, ws, k2))"
    using assms tx rx wk by (cases r1; cases r2; cases r3; cases share) (simp_all add: main_setup_def one Let_def del: setup_loop.simps)
  show ?thesis
  proof (cases r1)
    case False
    then show ?thesis using su by (auto simp: onvm_main_free_def split: bind_splits)
  next
    case True
    obtain f1 where f1: "free_tx ts = Some f1" "mset f1 = allocated ok 0 k" using tx_stage_free [of ok "busy TX_Stage" 0 txn 0 ts k] tx True by auto
    obtain f2 where f2: "k \<le> k1" "free_rx rs = Some f2" "mset f2 = allocated ok k k1" using rx_stage_one [OF rx] by blast
    obtain f3 where f3: "k1 \<le> k2" "free_wk ws = Some f3" "mset f3 = allocated ok k1 k2" using wk_stage_one [OF wk] by blast
    have sum: "mset (f1 @ f2) = allocated ok 0 k1" "mset (f1 @ f2 @ f3) = allocated ok 0 k2"
      using f1 f2 f3 allocated_append [of 0 k k1 ok, symmetric] allocated_append [of 0 k1 k2 ok, symmetric] by simp_all
    show ?thesis
      using su True f1(1) f2(2) f3(2) sum unfolding allocated_def [symmetric]
      by (cases r2; cases share) (simp_all add: onvm_main_free_def)
  qed
qed

text \<open>
  Shared cores: a pass of the wakeup thread wakes exactly the running NFs of its range that sleep (their flag is set) although
  packets or messages wait for them, each with one post of its semaphore, and touches no other; afterwards no such NF is left.
\<close>

lemma wakeup_pass_wakes:
  assumes "rte_ring (me_pkt_ring env) pitems proom" and "rte_ring (me_msg_ring env) mitems mroom"
    and "length ws = length (nfs s)" and "hi \<le> length (nfs s)"
    and "\<forall>i. lo \<le> i \<and> i < hi \<and> onvm_nf_is_valid (nfs s ! i) \<longrightarrow> nf_rx_q (nfs s ! i) = Some (rq i) \<and> nf_msg_q (nfs s ! i) = Some (mq i)"
  shows "\<exists>ws'. wakeup_pass env lo hi s ws = Some ws' \<and> length ws' = length ws
    \<and> (\<forall>i < length ws. ws' ! i =
         (if lo \<le> i \<and> i < hi \<and> onvm_nf_is_valid (nfs s ! i) \<and> (pitems (rq i) \<noteq> [] \<or> mitems (mq i) \<noteq> []) \<and> shm_server (ws ! i) \<noteq> 0
          then wakeup_client (ws ! i) else ws ! i))"
proof -
  have pre: "\<forall>i \<in> set [lo..<hi]. i < length (nfs s) \<and> (onvm_nf_is_valid (nfs s ! i) \<longrightarrow> nf_rx_q (nfs s ! i) \<noteq> None \<and> nf_msg_q (nfs s ! i) \<noteq> None)"
    using assms(4,5) by auto
  have wake: "whether_wakeup_client env (nfs s ! i) (ws ! i) = Some True \<longleftrightarrow>
      (pitems (rq i) \<noteq> [] \<or> mitems (mq i) \<noteq> []) \<and> shm_server (ws ! i) \<noteq> 0" if "lo \<le> i" "i < hi" "onvm_nf_is_valid (nfs s ! i)" for i
  proof -
    have "nf_rx_q (nfs s ! i) = Some (rq i)" "nf_msg_q (nfs s ! i) = Some (mq i)" using assms(5) that by simp_all
    then show ?thesis
      using rte_ring.count_items [OF assms(1), of "rq i"] rte_ring.count_items [OF assms(2), of "mq i"]
      by (cases "pitems (rq i) = []") (simp_all add: whether_wakeup_client_def)
  qed
  obtain ws' where "wakeup_pass env lo hi s ws = Some ws'" "length ws' = length ws" "\<forall>i < length ws. ws' ! i =
      (if i \<in> set [lo..<hi] \<and> onvm_nf_is_valid (nfs s ! i) \<and> whether_wakeup_client env (nfs s ! i) (ws ! i) = Some True
       then wakeup_client (ws ! i) else ws ! i)"
    using wakeup_nfs_spec [OF assms(3) distinct_upt pre, of env] by (auto simp: wakeup_pass_def)
  then show ?thesis using wake by auto
qed


section \<open>A concrete manager\<close>

definition demo_busy :: "(nat list_ring, nat list_ring) mgr_state" where
  "demo_busy = demo_mgr\<lparr>nfs := (replicate MAX_NFS zero_nf)[1 := zero_nf\<lparr>nf_status := NF_RUNNING,
     nf_rx_q := Some \<lparr>lr_items = [5], lr_room = 7\<rparr>, nf_tx_q := Some \<lparr>lr_items = [], lr_room = 8\<rparr>,
     nf_msg_q := Some \<lparr>lr_items = [], lr_room = 8\<rparr>\<rparr>]\<rparr>"

definition demo_asleep :: "nf_wakeup_info list" where
  "demo_asleep = replicate MAX_NFS \<lparr>shm_server = 1, num_wakeups = 0, sem_value = 0\<rparr>"

lemma demo_busy_facts:
  "length (nfs demo_busy) = MAX_NFS" "length demo_asleep = MAX_NFS" "nf_status (nfs demo_busy ! 1) = NF_RUNNING"
  "nf_rx_q (nfs demo_busy ! 1) = Some \<lparr>lr_items = [5], lr_room = 7\<rparr>" "nf_msg_q (nfs demo_busy ! 1) = Some \<lparr>lr_items = [], lr_room = 8\<rparr>"
  "i < MAX_NFS \<Longrightarrow> nf_status (nfs demo_busy ! i) = NF_RUNNING \<Longrightarrow> i = 1"
  "demo_asleep ! 1 = \<lparr>shm_server = 1, num_wakeups = 0, sem_value = 0\<rparr>"
  by (auto simp: demo_busy_def demo_asleep_def onvm_limits zero_nf_def nf_states nth_update_if split: if_splits)

lemma demo_mgr_rings: "rte_ring (me_pkt_ring demo_mgr_env) lr_items lr_room" "rte_ring (me_msg_ring demo_mgr_env) lr_items lr_room"
  using list_ring.rte_ring_axioms by (simp_all add: demo_mgr_env_def)


end
