(* ===== verification/MgrArgs.thy ===== *)
theory MgrArgs
  imports CLib CoreAlloc PktProc
begin

text \<open>
  The command line of the DPDK manager (\<^verbatim>\<open>onvm_args.c\<close>). The globals are the record \<open>mgr_args\<close>; the options arrive as the list
  of results of \<^verbatim>\<open>getopt_long\<close> (for short options the list \<open>getopt_words mgr_optspec\<close> computes). The long options
  \<^verbatim>\<open>stats-out\<close>, \<^verbatim>\<open>stats-sleep-time\<close>, \<^verbatim>\<open>time_to_live\<close>, \<^verbatim>\<open>packet_limit\<close> and \<^verbatim>\<open>verbocity-level\<close> are declared
  without an argument, so they arrive as a letter with no argument, and the parsers then read through a null pointer: \<open>None\<close>, as is
  a write outside a table.
\<close>

section \<open>Globals\<close>

datatype stats_output = ONVM_STATS_NONE | ONVM_STATS_STDOUT | ONVM_STATS_STDERR | ONVM_STATS_WEB

record mgr_args =
  ma_num_services :: u16
  ma_default_service :: u16
  stats_destination :: stats_output
  global_stats_sleep_time :: u16
  global_time_to_live :: u32
  global_pkt_limit :: u32
  global_verbosity_level :: u8
  ONVM_NF_SHARE_CORES :: bool
  ONVM_USE_JUMBO_FRAMES :: bool
  ma_num_ports :: u8
  ma_port_ids :: "u8 list"
  ma_cores :: "core_status list"

definition mgr_args_init :: "u8 list \<Rightarrow> core_status list \<Rightarrow> mgr_args" where
  "mgr_args_init ids cs = \<lparr>ma_num_services = of_nat MAX_SERVICES, ma_default_service = 1, stats_destination = ONVM_STATS_NONE,
     global_stats_sleep_time = 1, global_time_to_live = 0, global_pkt_limit = 0, global_verbosity_level = 1,
     ONVM_NF_SHARE_CORES = False, ONVM_USE_JUMBO_FRAMES = False, ma_num_ports = 0, ma_port_ids = ids, ma_cores = cs\<rparr>"

section \<open>Masks\<close>

text \<open>The loop over the bits of the port mask: a port that exists is appended to the table.\<close>

lemma half_less: "pm \<noteq> 0 \<Longrightarrow> unat (drop_bit 1 pm) < unat pm" for pm :: u64
proof -
  assume "pm \<noteq> 0"
  then have "0 < unat pm" by (simp add: unat_gt_0)
  moreover have "unat (drop_bit 1 pm) = unat pm div 2" unfolding unat_drop_bit_eq by (simp add: drop_bit_eq_div)
  ultimately show ?thesis by simp
qed

function mark_ports :: "u8 \<Rightarrow> u64 \<Rightarrow> u8 \<Rightarrow> mgr_args \<Rightarrow> mgr_args option" where
  "mark_ports max_ports pm cnt a =
     (if pm = 0 then Some a
      else Option.bind
        (if pm AND 1 \<noteq> 0 \<and> cnt < max_ports
         then if unat (ma_num_ports a) < length (ma_port_ids a)
              then Some (a\<lparr>ma_port_ids := (ma_port_ids a)[unat (ma_num_ports a) := cnt], ma_num_ports := ma_num_ports a + 1\<rparr>)
              else None
         else Some a)
        (mark_ports max_ports (drop_bit 1 pm) (cnt + 1)))"
  by pat_completeness auto
termination
  by (relation "measure (\<lambda>(max_ports, pm, cnt, a). unat pm)") (simp_all add: half_less del: One_nat_def)

text \<open>The loop over the bits of the core mask, which stops at the last core; writing outside the core table is \<open>None\<close>.\<close>

function mark_cores :: "u32 \<Rightarrow> u64 \<Rightarrow> u8 \<Rightarrow> core_status list \<Rightarrow> core_status list option" where
  "mark_cores max_cores pm cnt cs =
     (if pm = 0 then Some cs
      else Option.bind
        (if pm AND 1 \<noteq> 0 \<and> ucast cnt < max_cores
         then if unat cnt < length cs
              then Some (cs[unat cnt := (cs ! unat cnt)\<lparr>enabled := 1, nf_count := 0\<rparr>])
              else None
         else Some cs)
        (\<lambda>cs1. if ucast (cnt + 1) = max_cores then Some cs1 else mark_cores max_cores (drop_bit 1 pm) (cnt + 1) cs1))"
  by pat_completeness auto
termination
  by (relation "measure (\<lambda>(max_cores, pm, cnt, cs). unat pm)") (simp_all add: half_less del: One_nat_def)

declare mark_ports.simps [simp del] mark_cores.simps [simp del]

section \<open>Options\<close>

text \<open>A parser's result is its return value with the globals, \<open>None\<close> for a null argument it does not test.\<close>

definition parse_portmask :: "u8 \<Rightarrow> string option \<Rightarrow> mgr_args \<Rightarrow> (int \<times> mgr_args) option" where
  "parse_portmask max_ports portmask a =
     (case portmask of
        None \<Rightarrow> Some (- 1, a)
      | Some s \<Rightarrow>
          let (pm, rest) = strtoul_c 16 s in
          if pm = 0 then Some (0, a)
          else if rest \<noteq> [] then Some (- 1, a)
          else map_option (\<lambda>b. (0, b)) (mark_ports max_ports pm 0 a))"

definition parse_nf_cores :: "u32 \<Rightarrow> string option \<Rightarrow> mgr_args \<Rightarrow> (int \<times> mgr_args) option" where
  "parse_nf_cores max_cores nf_coremask a =
     (case nf_coremask of
        None \<Rightarrow> Some (- 1, a)
      | Some s \<Rightarrow>
          let (pm, rest) = strtoul_c 16 s in
          if pm = 0 then Some (0, a)
          else if rest \<noteq> [] then Some (- 1, a)
          else map_option (\<lambda>cs. (0, a\<lparr>ma_cores := cs\<rparr>)) (mark_cores max_cores pm 0 (ma_cores a)))"

text \<open>The number of the six parsers that only store it: the whole string, not zero.\<close>

definition parse_number :: "string \<Rightarrow> u64 option" where
  "parse_number s = (let (n, rest) = strtoul_c 10 s in if rest \<noteq> [] \<or> n = 0 then None else Some n)"

definition store_number :: "(u64 \<Rightarrow> mgr_args \<Rightarrow> mgr_args) \<Rightarrow> string option \<Rightarrow> mgr_args \<Rightarrow> (int \<times> mgr_args) option" where
  "store_number upd arg a =
     (case arg of
        None \<Rightarrow> None
      | Some s \<Rightarrow> (case parse_number s of None \<Rightarrow> Some (- 1, a) | Some n \<Rightarrow> Some (0, upd n a)))"

definition parse_default_service :: "string option \<Rightarrow> mgr_args \<Rightarrow> (int \<times> mgr_args) option" where
  "parse_default_service = store_number (\<lambda>n a. a\<lparr>ma_default_service := ucast n\<rparr>)"

definition parse_num_services :: "string option \<Rightarrow> mgr_args \<Rightarrow> (int \<times> mgr_args) option" where
  "parse_num_services = store_number (\<lambda>n a. a\<lparr>ma_num_services := ucast n\<rparr>)"

definition parse_stats_sleep_time :: "string option \<Rightarrow> mgr_args \<Rightarrow> (int \<times> mgr_args) option" where
  "parse_stats_sleep_time = store_number (\<lambda>n a. a\<lparr>global_stats_sleep_time := ucast n\<rparr>)"

definition parse_time_to_live :: "string option \<Rightarrow> mgr_args \<Rightarrow> (int \<times> mgr_args) option" where
  "parse_time_to_live = store_number (\<lambda>n a. a\<lparr>global_time_to_live := ucast n\<rparr>)"

definition parse_packet_limit :: "string option \<Rightarrow> mgr_args \<Rightarrow> (int \<times> mgr_args) option" where
  "parse_packet_limit = store_number (\<lambda>n a. a\<lparr>global_pkt_limit := ucast n\<rparr>)"

text \<open>The value is cut to 16 bits and then stored in 8.\<close>

definition parse_verbosity_level :: "string option \<Rightarrow> mgr_args \<Rightarrow> (int \<times> mgr_args) option" where
  "parse_verbosity_level = store_number (\<lambda>n a. a\<lparr>global_verbosity_level := ucast (ucast n :: u16)\<rparr>)"

definition parse_stats_output :: "string option \<Rightarrow> mgr_args \<Rightarrow> (int \<times> mgr_args) option" where
  "parse_stats_output arg a =
     (case arg of
        None \<Rightarrow> None
      | Some s \<Rightarrow>
          if s = ''stdout'' then Some (0, a\<lparr>stats_destination := ONVM_STATS_STDOUT\<rparr>)
          else if s = ''stderr'' then Some (0, a\<lparr>stats_destination := ONVM_STATS_STDERR\<rparr>)
          else if s = ''web'' then Some (0, a\<lparr>stats_destination := ONVM_STATS_WEB\<rparr>)
          else Some (- 1, a))"

definition mgr_optspec :: opt_spec where
  "mgr_optspec = [(CHR ''p'', WithArg), (CHR ''r'', WithArg), (CHR ''n'', WithArg), (CHR ''d'', WithArg), (CHR ''s'', WithArg),
     (CHR ''t'', WithArg), (CHR ''l'', WithArg), (CHR ''z'', WithArg), (CHR ''v'', WithArg), (CHR ''c'', Flag), (CHR ''j'', Flag)]"

definition mgr_apply_opt :: "u8 \<Rightarrow> u32 \<Rightarrow> opt_result \<Rightarrow> mgr_args \<Rightarrow> (int \<times> mgr_args) option" where
  "mgr_apply_opt max_ports max_cores opt a =
     (case opt of (c, arg) \<Rightarrow>
        if c = CHR ''p'' then parse_portmask max_ports arg a
        else if c = CHR ''r'' then parse_num_services arg a
        else if c = CHR ''n'' then parse_nf_cores max_cores arg a
        else if c = CHR ''d'' then parse_default_service arg a
        else if c = CHR ''s'' then parse_stats_output arg a
        else if c = CHR ''t'' then parse_time_to_live arg a
        else if c = CHR ''l'' then parse_packet_limit arg a
        else if c = CHR ''z'' then parse_stats_sleep_time arg a
        else if c = CHR ''v'' then parse_verbosity_level arg a
        else if c = CHR ''c'' then Some (0, a\<lparr>ONVM_NF_SHARE_CORES := True\<rparr>)
        else if c = CHR ''j'' then Some (0, a\<lparr>ONVM_USE_JUMBO_FRAMES := True\<rparr>)
        else Some (- 1, a))"

text \<open>\<^verbatim>\<open>parse_app_args\<close> on the results of \<^verbatim>\<open>getopt_long\<close>: the first option that is refused ends it.\<close>

primrec parse_app_args :: "u8 \<Rightarrow> u32 \<Rightarrow> opt_result list \<Rightarrow> mgr_args \<Rightarrow> (int \<times> mgr_args) option" where
  "parse_app_args max_ports max_cores [] a = Some (0, a)"
| "parse_app_args max_ports max_cores (opt # opts) a =
     Option.bind (mgr_apply_opt max_ports max_cores opt a) (\<lambda>(r, b).
       if r \<noteq> 0 then Some (- 1, b) else parse_app_args max_ports max_cores opts b)"

section \<open>What a mask selects\<close>

definition mask_bits :: "u64 \<Rightarrow> nat \<Rightarrow> nat \<Rightarrow> nat list" where
  "mask_bits pm k n = map ((+) k) (filter (bit pm) [0..<n])"

lemma mask_bits_Suc: "mask_bits pm k (Suc n) = (if bit pm 0 then [k] else []) @ mask_bits (drop_bit 1 pm) (Suc k) n"
proof -
  have "[0..<Suc n] = 0 # map Suc [0..<n]" by (simp only: upt_conv_Cons zero_less_Suc map_Suc_upt)
  then have "filter (bit pm) [0..<Suc n] = (if bit pm 0 then [0] else []) @ map Suc (filter (bit (drop_bit 1 pm)) [0..<n])"
    by (simp add: filter_map comp_def bit_drop_bit_eq)
  then show ?thesis by (simp add: mask_bits_def comp_def)
qed

lemma mask_bits_0 [simp]: "mask_bits 0 k n = []"
  by (simp add: mask_bits_def)

lemma odd_and_1: "pm AND 1 \<noteq> 0 \<longleftrightarrow> bit pm 0" for pm :: u64
  by (simp add: and_one_eq bit_0 odd_iff_mod_2_eq_one)

text \<open>
  The port loop appends, in ascending order, the bits that are set below the number of ports.
\<close>

definition chosen :: "u8 \<Rightarrow> nat list \<Rightarrow> nat list" where
  "chosen max_ports js = filter (\<lambda>j. j < unat max_ports) js"

definition add_ports :: "nat list \<Rightarrow> mgr_args \<Rightarrow> mgr_args" where
  "add_ports js a = (let n = unat (ma_num_ports a) in
     a\<lparr>ma_port_ids := take n (ma_port_ids a) @ map of_nat js @ drop (n + length js) (ma_port_ids a), ma_num_ports := of_nat (n + length js)\<rparr>)"

lemma add_ports_step:
  assumes "unat (ma_num_ports a) + length (j # js) \<le> length (ma_port_ids a)" "length (ma_port_ids a) \<le> 255"
  shows "add_ports js (a\<lparr>ma_port_ids := (ma_port_ids a)[unat (ma_num_ports a) := of_nat j], ma_num_ports := ma_num_ports a + 1\<rparr>) = add_ports (j # js) a"
proof -
  let ?n = "unat (ma_num_ports a)"
  have n: "unat (ma_num_ports a + 1) = Suc ?n" using assms by (subst unat_inc) simp_all
  have "take (Suc ?n) ((ma_port_ids a)[?n := of_nat j]) = take ?n (ma_port_ids a) @ [of_nat j]"
    using assms by (simp add: take_Suc_conv_app_nth)
  then show ?thesis using assms n by (simp add: add_ports_def Let_def)
qed

lemma mark_ports_spec:
  "unat pm < 2 ^ n \<Longrightarrow> k + n \<le> 255 \<Longrightarrow> length (ma_port_ids a) \<le> 255 \<Longrightarrow>
   unat (ma_num_ports a) + length (chosen max_ports (mask_bits pm k n)) \<le> length (ma_port_ids a) \<Longrightarrow>
   mark_ports max_ports pm (of_nat k) a = Some (add_ports (chosen max_ports (mask_bits pm k n)) a)"
proof (induction n arbitrary: pm k a)
  case 0
  then have "pm = 0" by (simp add: unat_eq_zero)
  then show ?case by (simp add: mark_ports.simps chosen_def add_ports_def)
next
  case (Suc n)
  show ?case
  proof (cases "pm = 0")
    case True
    then show ?thesis by (simp add: mark_ports.simps chosen_def add_ports_def)
  next
    case False
    let ?pm = "drop_bit 1 pm" and ?js = "chosen max_ports (mask_bits (drop_bit 1 pm) (Suc k) n)"
    have "unat ?pm = unat pm div 2" unfolding unat_drop_bit_eq by (simp add: drop_bit_eq_div)
    then have lt: "unat ?pm < 2 ^ n" using Suc.prems(1) by simp
    have k: "unat (of_nat k :: u8) = k" using Suc.prems(2) by (intro unat_of_nat_exact) simp
    have go: "mark_ports max_ports pm (of_nat k) a = Option.bind
        (if bit pm 0 \<and> k < unat max_ports then
           if unat (ma_num_ports a) < length (ma_port_ids a)
           then Some (a\<lparr>ma_port_ids := (ma_port_ids a)[unat (ma_num_ports a) := of_nat k], ma_num_ports := ma_num_ports a + 1\<rparr>) else None
         else Some a) (mark_ports max_ports ?pm (of_nat (Suc k)))"
      using False k by (subst mark_ports.simps) (simp add: odd_and_1 word_less_nat_alt add.commute)
    show ?thesis
    proof (cases "bit pm 0 \<and> k < unat max_ports")
      case True
      let ?a = "a\<lparr>ma_port_ids := (ma_port_ids a)[unat (ma_num_ports a) := of_nat k], ma_num_ports := ma_num_ports a + 1\<rparr>"
      have all: "chosen max_ports (mask_bits pm k (Suc n)) = k # ?js" using True by (simp add: mask_bits_Suc chosen_def)
      then have room: "unat (ma_num_ports a) + length (k # ?js) \<le> length (ma_port_ids a)" using Suc.prems(4) by simp
      have "unat (ma_num_ports ?a) = Suc (unat (ma_num_ports a))" using room Suc.prems(3) by simp (subst unat_inc, simp_all)
      then have "mark_ports max_ports ?pm (of_nat (Suc k)) ?a = Some (add_ports ?js ?a)"
        using Suc.IH [OF lt, of "Suc k" ?a] room Suc.prems(2,3) by simp
      then show ?thesis using go True room all add_ports_step [OF room Suc.prems(3)] by simp
    next
      case False
      then have "chosen max_ports (mask_bits pm k (Suc n)) = ?js" by (auto simp: mask_bits_Suc chosen_def)
      then show ?thesis using go False Suc.IH [OF lt, of "Suc k" a] Suc.prems(2,3,4) by simp
    qed
  qed
qed

lemma chosen_64: "chosen max_ports (mask_bits pm 0 64) = filter (bit pm) [0..<min 64 (unat max_ports)]"
proof -
  have "filter (\<lambda>j. j < m) [0..<n] = [0..<min n m]" for m n :: nat
    by (induction n) (auto simp: min_def not_less_eq_eq le_antisym)
  then have "filter (\<lambda>j. j < unat max_ports) [0..<64] = [0..<min 64 (unat max_ports)]" .
  moreover have "filter (\<lambda>j. j < unat max_ports) (filter (bit pm) [0..<64]) = filter (bit pm) (filter (\<lambda>j. j < unat max_ports) [0..<64])"
    by (simp only: filter_filter conj_commute)
  moreover have "map ((+) 0) xs = xs" for xs :: "nat list" by (induction xs) simp_all
  ultimately show ?thesis by (simp add: chosen_def mask_bits_def)
qed

text \<open>The core loop enables the cores whose bit is set, and no others.\<close>

lemma mark_cores_spec:
  "unat pm < 2 ^ n \<Longrightarrow> k + n \<le> 255 \<Longrightarrow> k < unat max_cores \<Longrightarrow> unat max_cores \<le> length cs \<Longrightarrow>
   \<exists>cs'. mark_cores max_cores pm (of_nat k) cs = Some cs' \<and> length cs' = length cs
     \<and> (\<forall>c < length cs. cs' ! c = (if c \<in> set (mask_bits pm k n) \<and> c < unat max_cores then (cs ! c)\<lparr>enabled := 1, nf_count := 0\<rparr> else cs ! c))"
proof (induction n arbitrary: pm k cs)
  case 0
  then have "pm = 0" by (simp add: unat_eq_zero)
  then show ?case by (simp add: mark_cores.simps)
next
  case (Suc n)
  show ?case
  proof (cases "pm = 0")
    case True
    then show ?thesis by (simp add: mark_cores.simps)
  next
    case False
    let ?pm = "drop_bit 1 pm" and ?on = "\<lambda>c. c\<lparr>enabled := 1, nf_count := 0\<rparr>"
    define cs1 where "cs1 = (if bit pm 0 then cs[k := ?on (cs ! k)] else cs)"
    have "unat ?pm = unat pm div 2" unfolding unat_drop_bit_eq by (simp add: drop_bit_eq_div)
    then have lt: "unat ?pm < 2 ^ n" using Suc.prems(1) by simp
    have k: "unat (of_nat k :: u8) = k" using Suc.prems(2) by (intro unat_of_nat_exact) simp
    have k1: "unat (of_nat (Suc k) :: u8) = Suc k" using Suc.prems(2) by (intro unat_of_nat_exact) simp
    have up: "unat (ucast (c :: u8) :: u32) = unat c" for c by (rule unat_ucast_up) simp
    have lM: "(ucast (of_nat k :: u8) :: u32) < max_cores" using Suc.prems(3) k by (simp add: word_less_nat_alt up)
    have eM: "ucast (of_nat (Suc k) :: u8) = max_cores \<longleftrightarrow> Suc k = unat max_cores"
      using k1 up by (metis word_unat_eq_iff)
    have go: "mark_cores max_cores pm (of_nat k) cs = (if Suc k = unat max_cores then Some cs1 else mark_cores max_cores ?pm (of_nat (Suc k)) cs1)"
      using False k lM eM Suc.prems(3,4) by (subst mark_cores.simps) (simp add: cs1_def odd_and_1 add.commute)
    have bits: "c \<in> set (mask_bits pm k (Suc n)) \<longleftrightarrow> bit pm 0 \<and> c = k \<or> c \<in> set (mask_bits ?pm (Suc k) n)" for c
      by (auto simp: mask_bits_Suc)
    have later: "k < c" if "c \<in> set (mask_bits ?pm (Suc k) n)" for c using that by (auto simp: mask_bits_def)
    show ?thesis
    proof (cases "Suc k = unat max_cores")
      case True
      then have "c \<in> set (mask_bits pm k (Suc n)) \<and> c < unat max_cores \<longleftrightarrow> bit pm 0 \<and> c = k" for c
        using bits [of c] later [of c] by linarith
      then show ?thesis using go True Suc.prems(4) by (simp add: cs1_def nth_list_update del: One_nat_def)
    next
      case False
      have len: "length cs1 = length cs" by (simp add: cs1_def)
      obtain cs' where r: "mark_cores max_cores ?pm (of_nat (Suc k)) cs1 = Some cs'" "length cs' = length cs"
        "\<forall>c < length cs. cs' ! c = (if c \<in> set (mask_bits ?pm (Suc k) n) \<and> c < unat max_cores then ?on (cs1 ! c) else cs1 ! c)"
        using Suc.IH [OF lt, of "Suc k" cs1] False Suc.prems(2,3,4) len by auto
      have "cs' ! c = (if c \<in> set (mask_bits pm k (Suc n)) \<and> c < unat max_cores then ?on (cs ! c) else cs ! c)" if "c < length cs" for c
        using r(3) that bits later [of c] Suc.prems(3) by (auto simp: cs1_def nth_list_update)
      then show ?thesis using go False r by simp
    qed
  qed
qed

section \<open>Properties\<close>


definition demo_mgr_args :: mgr_args where
  "demo_mgr_args = mgr_args_init (replicate 32 0) (replicate 8 \<lparr>enabled = 0, is_dedicated_core = 0, nf_count = 5\<rparr>)"


end
