(* ===== verification/MgrInit.thy ===== *)
theory MgrInit
  imports MgrArgs MgrMain
begin

text \<open>
  The start of the DPDK manager (\<^verbatim>\<open>onvm_init.c\<close>): memory zones and pools, the set-up of a port, the wait for the links, the semaphores and
  shared segments of the shared-core mode, and \<^verbatim>\<open>init\<close>, which makes the state that the other components start from. What DPDK and the operating system
  answer is the environment. A memory zone keeps the bytes it had when it was reserved, so what the code does not clear comes from the environment.
\<close>

section \<open>Environment and outcomes\<close>

datatype init_stop = Returned int | Rte_Exit | Rte_Panic | Exit_1 | Outside

text \<open>The settings of a port, with the constants of DPDK that the code combines.\<close>

record eth_conf =
  rss_hf :: u64
  rx_offloads :: u64
  tx_offloads :: u64
  max_rx_pkt_len :: u32

record dpdk_consts =
  dk_port_conf :: eth_conf
  dk_fast_free :: u64
  dk_jumbo_frame :: u64
  dk_ether_len :: u32

text \<open>What the driver of a port answers.\<close>

record eth_dev =
  dv_tx_offload_capa :: u64
  dv_rss_offloads :: u64
  dv_configure :: int
  dv_adjust :: "u16 \<times> u16 \<Rightarrow> int \<times> u16 \<times> u16"
  dv_rx_setup :: "u16 \<Rightarrow> int"
  dv_tx_setup :: "u16 \<Rightarrow> int"
  dv_start :: int

section \<open>Setting up a port\<close>

abbreviation RTE_MP_RX_DESC_DEFAULT :: u16 where "RTE_MP_RX_DESC_DEFAULT \<equiv> 512"
abbreviation RTE_MP_TX_DESC_DEFAULT :: u16 where "RTE_MP_TX_DESC_DEFAULT \<equiv> 512"

text \<open>What a port is configured with.\<close>

record port_setup =
  ps_conf :: eth_conf
  ps_rx_rings :: u16
  ps_tx_rings :: u16
  ps_rx_queues :: "(u16 \<times> u16 \<times> u64) list"
  ps_tx_queues :: "(u16 \<times> u16 \<times> u64) list"
  ps_started :: bool

definition local_port_conf :: "dpdk_consts \<Rightarrow> bool \<Rightarrow> eth_dev \<Rightarrow> eth_conf" where
  "local_port_conf dk jumbo dev =
     (let c0 = dk_port_conf dk;
          c1 = (if dv_tx_offload_capa dev AND dk_fast_free dk \<noteq> 0 then c0\<lparr>tx_offloads := tx_offloads c0 OR dk_fast_free dk\<rparr> else c0);
          c2 = c1\<lparr>rss_hf := rss_hf c1 AND dv_rss_offloads dev\<rparr>
      in if jumbo then c2\<lparr>max_rx_pkt_len := 9600 + dk_ether_len dk, rx_offloads := rx_offloads c2 OR dk_jumbo_frame dk\<rparr> else c2)"

text \<open>The loops over the queues: the first negative result ends them.\<close>

primrec setup_queues :: "(u16 \<Rightarrow> int) \<Rightarrow> u16 list \<Rightarrow> int option" where
  "setup_queues setup [] = None"
| "setup_queues setup (q # qs) = (if setup q < 0 then Some (setup q) else setup_queues setup qs)"

definition ring_ids :: "u16 \<Rightarrow> u16 list" where
  "ring_ids n = map of_nat [0..<unat n]"

definition port_tx_rings :: "u32 \<Rightarrow> u16" where
  "port_tx_rings lcore_count = ucast (lcore_count - ONVM_NUM_RX_THREADS - ONVM_NUM_MGR_AUX_THREADS)"

text \<open>The return value, the set-up where it is complete, and the table of initialised ports.\<close>

definition init_port ::
  "dpdk_consts \<Rightarrow> bool \<Rightarrow> u32 \<Rightarrow> (u8 \<Rightarrow> eth_dev) \<Rightarrow> u8 \<Rightarrow> u8 list \<Rightarrow> init_stop + (int \<times> port_setup option \<times> u8 list)" where
  "init_port dk jumbo lcore_count devs port_num inits =
     (let dev = devs port_num; rx_rings = 1; tx_rings = port_tx_rings lcore_count; conf = local_port_conf dk jumbo dev;
          (adj, rx_size, tx_size) = dv_adjust dev (RTE_MP_RX_DESC_DEFAULT, RTE_MP_TX_DESC_DEFAULT)
      in if dv_configure dev \<noteq> 0 then Inr (dv_configure dev, None, inits)
         else if adj < 0 then Inl Rte_Panic
         else case setup_queues (dv_rx_setup dev) (ring_ids rx_rings) of
           Some r \<Rightarrow> Inr (r, None, inits)
         | None \<Rightarrow>
             (case setup_queues (dv_tx_setup dev) (ring_ids tx_rings) of
                Some r \<Rightarrow> Inr (r, None, inits)
              | None \<Rightarrow>
                  if dv_start dev < 0 then Inr (dv_start dev, None, inits)
                  else if unat port_num \<ge> length inits then Inl Outside
                  else Inr (0,
                    Some \<lparr>ps_conf = conf, ps_rx_rings = rx_rings, ps_tx_rings = tx_rings,
                      ps_rx_queues = map (\<lambda>q. (q, rx_size, rx_offloads conf)) (ring_ids rx_rings),
                      ps_tx_queues = map (\<lambda>q. (q, tx_size, tx_offloads (dk_port_conf dk))) (ring_ids tx_rings), ps_started = True\<rparr>,
                    inits[unat port_num := 1])))"

text \<open>The loop of \<^verbatim>\<open>init\<close> over the entries of the port table.\<close>

primrec init_ports ::
  "dpdk_consts \<Rightarrow> bool \<Rightarrow> u32 \<Rightarrow> (u8 \<Rightarrow> eth_dev) \<Rightarrow> u8 list \<Rightarrow> nat list \<Rightarrow> (u8 \<Rightarrow> port_setup option) \<times> u8 list
    \<Rightarrow> init_stop + ((u8 \<Rightarrow> port_setup option) \<times> u8 list)" where
  "init_ports dk jumbo lc devs ids [] st = Inr st"
| "init_ports dk jumbo lc devs ids (i # is) st =
     (if i \<ge> length ids then Inl Outside
      else case init_port dk jumbo lc devs (ids ! i) (snd st) of
        Inl e \<Rightarrow> Inl e
      | Inr (r, ps, inits) \<Rightarrow>
          if r \<noteq> 0 then Inl Rte_Exit else init_ports dk jumbo lc devs ids is ((fst st)(ids ! i := ps), inits))"

section \<open>Waiting for the links\<close>

abbreviation MAX_CHECK_TIME :: nat where "MAX_CHECK_TIME \<equiv> 90"

text \<open>A port that the mask leaves out is not looked at; \<open>link k p\<close> is the status the driver reports for port \<open>p\<close> in round \<open>k\<close>.\<close>

definition all_ports_up :: "u32 \<Rightarrow> (u8 \<Rightarrow> bool) \<Rightarrow> u8 list \<Rightarrow> bool" where
  "all_ports_up port_mask link ids = list_all (\<lambda>p. port_mask AND push_bit (unat p) 1 = 0 \<or> link p) ids"

text \<open>The rounds of the loop: whether it printed the final status, and how many intervals of 100 ms it waited.\<close>

primrec link_rounds :: "(nat \<Rightarrow> bool) \<Rightarrow> nat list \<Rightarrow> bool \<Rightarrow> nat \<Rightarrow> bool \<times> nat" where
  "link_rounds up [] print_flag waits = (False, waits)"
| "link_rounds up (c # cs) print_flag waits =
     (if print_flag then (True, waits)
      else link_rounds up cs (up c \<or> c = MAX_CHECK_TIME - 1) (if up c then waits else waits + 1))"

definition check_all_ports_link_status :: "u32 \<Rightarrow> (nat \<Rightarrow> u8 \<Rightarrow> bool) \<Rightarrow> u8 list \<Rightarrow> bool \<times> nat" where
  "check_all_ports_link_status port_mask link ids =
     link_rounds (\<lambda>c. all_ports_up port_mask (link c) ids) [0..<Suc MAX_CHECK_TIME] False 0"

section \<open>Semaphores and segments of the shared-core mode\<close>

text \<open>
  \<^verbatim>\<open>get_sem_name\<close> returns the address of its one static buffer, and that address is what each entry of \<^verbatim>\<open>nf_wakeup_infos\<close> keeps:
  the name of an entry is what the buffer holds when it is read.
\<close>

datatype name_ptr = Null_Name | Sem_Buffer

record sem_state =
  sem_buffer :: string
  sem_live :: "string list"
  wk_infos :: "nf_wakeup_info list"
  wk_sem_names :: "name_ptr list"

record sem_env =
  se_open :: "string \<Rightarrow> bool"
  se_shmget :: "u32 \<Rightarrow> bool"
  se_shmat :: "u32 \<Rightarrow> bool"
  se_segment :: "u32 \<Rightarrow> u16"
  se_value :: "string \<Rightarrow> nat"

definition sem_zero :: "string \<Rightarrow> string list \<Rightarrow> sem_state" where
  "sem_zero buf live = \<lparr>sem_buffer = buf, sem_live = live,
     wk_infos = replicate MAX_NFS \<lparr>shm_server = 0, num_wakeups = 0, sem_value = 0\<rparr>, wk_sem_names = replicate MAX_NFS Null_Name\<rparr>"

definition open_sem :: "sem_env \<Rightarrow> nat \<Rightarrow> sem_state \<Rightarrow> init_stop + sem_state" where
  "open_sem env i st =
     (let name = get_sem_name (of_nat i); key = get_rx_shmkey (of_nat i) in
      if \<not> se_open env name then Inl Exit_1
      else if \<not> se_shmget env key then Inl Exit_1
      else if \<not> se_shmat env key then Inl Exit_1
      else Inr (st\<lparr>sem_buffer := name, sem_live := List.insert name (sem_live st),
             wk_infos := (wk_infos st)[i := (wk_infos st ! i)\<lparr>shm_server := se_segment env key,
                sem_value := if name \<in> set (sem_live st) then se_value env name else 0\<rparr>],
             wk_sem_names := (wk_sem_names st)[i := Sem_Buffer]\<rparr>))"

primrec open_sems :: "sem_env \<Rightarrow> nat list \<Rightarrow> sem_state \<Rightarrow> init_stop + sem_state" where
  "open_sems env [] st = Inr st"
| "open_sems env (i # is) st = (case open_sem env i st of Inl e \<Rightarrow> Inl e | Inr st1 \<Rightarrow> open_sems env is st1)"

text \<open>\<open>live\<close>: the semaphores that exist before.\<close>

definition init_shared_sem :: "sem_env \<Rightarrow> bool \<Rightarrow> string \<Rightarrow> string list \<Rightarrow> init_stop + sem_state" where
  "init_shared_sem env share buf live =
     (if share then open_sems env [0..<MAX_NFS] (sem_zero buf live) else Inr (sem_zero buf live))"

text \<open>The end of \<^verbatim>\<open>master_thread_main\<close>: each semaphore is closed, and the name of each entry is removed.\<close>

primrec unlink_sems :: "name_ptr list \<Rightarrow> sem_state \<Rightarrow> sem_state" where
  "unlink_sems [] st = st"
| "unlink_sems (p # ps) st =
     unlink_sems ps (case p of Null_Name \<Rightarrow> st | Sem_Buffer \<Rightarrow> st\<lparr>sem_live := remove1 (sem_buffer st) (sem_live st)\<rparr>)"

definition cleanup_sems :: "bool \<Rightarrow> sem_state \<Rightarrow> sem_state" where
  "cleanup_sems share st = (if share then unlink_sems (wk_sem_names st) st else st)"

section \<open>The state at the start\<close>

abbreviation MZ_NF_INFO :: string where "MZ_NF_INFO \<equiv> ''MProc_nf_init_cfg''"
abbreviation MZ_PORT_INFO :: string where "MZ_PORT_INFO \<equiv> ''MProc_port_info''"
abbreviation MZ_CORES_STATUS :: string where "MZ_CORES_STATUS \<equiv> ''MProc_cores_info''"
abbreviation MZ_SERVICES_INFO :: string where "MZ_SERVICES_INFO \<equiv> ''MProc_services_info''"
abbreviation MZ_NF_PER_SERVICE_INFO :: string where "MZ_NF_PER_SERVICE_INFO \<equiv> ''MProc_nf_per_service_info''"
abbreviation MZ_ONVM_CONFIG :: string where "MZ_ONVM_CONFIG \<equiv> ''MProc_onvm_config''"
abbreviation MZ_SCP_INFO :: string where "MZ_SCP_INFO \<equiv> ''MProc_scp_info''"
abbreviation MZ_FTP_INFO :: string where "MZ_FTP_INFO \<equiv> ''MProc_ftp_info''"
abbreviation PKTMBUF_POOL_NAME :: string where "PKTMBUF_POOL_NAME \<equiv> ''MProc_pktmbuf_pool''"
abbreviation NF_MEMPOOL_NAME :: string where "NF_MEMPOOL_NAME \<equiv> ''NF_INFO_MEMPOOL''"
abbreviation NF_MSG_POOL_NAME :: string where "NF_MSG_POOL_NAME \<equiv> ''NF_MSG_MEMPOOL''"
abbreviation NUM_MBUFS :: nat where "NUM_MBUFS \<equiv> 32767"
abbreviation NF_MSG_QUEUE_SIZE :: nat where "NF_MSG_QUEUE_SIZE \<equiv> 128"
abbreviation CORE_STATUS_SIZE :: nat where "CORE_STATUS_SIZE \<equiv> 4"

text \<open>
  What DPDK and the system answer: whether a zone, a pool, a row of the service table or the queue could be made, how long a zone really is for a requested
  size, and what the zones held before.
\<close>

record ('mq, 'h) init_env =
  ie_eal_init :: int
  ie_dev_count :: u16
  ie_lcore_count :: u32
  ie_num_cores :: u32
  ie_zone :: "string \<Rightarrow> bool"
  ie_zone_len :: "nat \<Rightarrow> nat"
  ie_ports_mem :: port_info
  ie_cores_mem :: "nat \<Rightarrow> core_status"
  ie_counts_mem :: "nat \<Rightarrow> u16"
  ie_service_row :: "nat \<Rightarrow> bool"
  ie_pool :: "string \<Rightarrow> nat \<Rightarrow> bool"
  ie_dpdk :: dpdk_consts
  ie_devs :: "u8 \<Rightarrow> eth_dev"
  ie_link :: "nat \<Rightarrow> u8 \<Rightarrow> bool"
  ie_msg_queue :: "nat \<Rightarrow> 'mq option"
  ie_sem_env :: sem_env
  ie_sems_before :: "string list"
  ie_sc_calloc :: bool
  ie_ft_alloc :: "('h, onvm_flow_entry) ft_alloc"

record init_tables =
  it_services :: "u16 list list"
  it_counts :: "u16 list"
  it_cores :: "core_status list"

definition zero_core :: core_status where
  "zero_core = \<lparr>enabled = 0, is_dedicated_core = 0, nf_count = 0\<rparr>"

text \<open>
  The zones, in the order of \<^verbatim>\<open>init\<close>. The core table is cleared as if it had 64 entries. A row of the service table that \<^verbatim>\<open>rte_calloc\<close> refused is a null pointer, here
  a row without elements; the code does not test it. The tables are made for \<open>MAX_SERVICES\<close>, the value of \<^verbatim>\<open>num_services\<close> before the arguments are read.
\<close>

definition reserve_zones :: "('mq, 'h) init_env \<Rightarrow> init_stop + init_tables" where
  "reserve_zones env =
     (if \<not> ie_zone env MZ_NF_INFO then Inl Rte_Exit
      else if \<not> ie_zone env MZ_PORT_INFO then Inl Rte_Exit
      else if \<not> ie_zone env MZ_CORES_STATUS then Inl Rte_Exit
      else if ie_zone_len env (CORE_STATUS_SIZE * unat (ie_num_cores env)) < CORE_STATUS_SIZE * 64 then Inl Outside
      else if \<not> ie_zone env MZ_SERVICES_INFO then Inl Rte_Exit
      else if \<not> ie_zone env MZ_NF_PER_SERVICE_INFO then Inl Rte_Exit
      else if \<not> ie_zone env MZ_ONVM_CONFIG then Inl Rte_Exit
      else Inr \<lparr>it_services = map (\<lambda>i. if ie_service_row env i then replicate MAX_NFS_PER_SERVICE 0 else []) [0..<MAX_SERVICES],
             it_counts = map (ie_counts_mem env) [0..<MAX_SERVICES],
             it_cores = map (\<lambda>i. if i < 64 then zero_core else ie_cores_mem env i) [0..<unat (ie_num_cores env)]\<rparr>)"

definition init_pools :: "('mq, 'h) init_env \<Rightarrow> bool" where
  "init_pools env \<longleftrightarrow> ie_pool env PKTMBUF_POOL_NAME NUM_MBUFS \<and> ie_pool env NF_MEMPOOL_NAME MAX_NFS
     \<and> ie_pool env NF_MSG_POOL_NAME (MAX_NFS * NF_MSG_QUEUE_SIZE)"

text \<open>The default chain: one entry that sends to service 1.\<close>

definition init_default_chain :: "bool \<Rightarrow> init_stop + onvm_service_chain" where
  "init_default_chain calloc_ok =
     (case onvm_sc_create calloc_ok of
        None \<Rightarrow> Inl Outside
      | Some c \<Rightarrow>
          (case onvm_sc_append_entry c ONVM_NF_ACTION_TONF 1 of
             None \<Rightarrow> Inl Outside
           | Some (r, c1) \<Rightarrow> if r = ENOSPC then Inl Exit_1 else Inr c1))"

record ('q, 'mq, 'h) mgr_boot =
  bt_mgr :: "('q, 'mq) mgr_state"
  bt_args :: mgr_args
  bt_ports :: port_info
  bt_setups :: "u8 \<Rightarrow> port_setup option"
  bt_sems :: sem_state
  bt_chain :: onvm_service_chain
  bt_flow_table :: "('h, onvm_flow_entry) onvm_ft"
  bt_link_waits :: nat

definition boot_state :: "init_tables \<Rightarrow> mgr_args \<Rightarrow> 'mq \<Rightarrow> ('q, 'mq) mgr_state" where
  "boot_state t a q = \<lparr>nfs = replicate MAX_NFS zero_nf, services = it_services t, nf_per_service_count = it_counts t, cores = ma_cores a,
     num_nfs = 0, next_instance_id = 1, starting_instance_id = 1, init_cfgs = Map.empty, request_status = (\<lambda>_. 0),
     incoming_msg_queue = q, ring_names = [], freed_pkts = [], freed_msgs = [], nf_info_puts = []\<rparr>"

text \<open>After the arguments: pools, ports, links, the queue, semaphores, the default chain and the flow table.\<close>

definition init_rest :: "('mq, 'h) init_env \<Rightarrow> init_tables \<Rightarrow> mgr_args \<Rightarrow> init_stop + ('q, 'mq, 'h) mgr_boot" where
  "init_rest env t a =
     (if \<not> init_pools env then Inl Rte_Exit
      else case init_ports (ie_dpdk env) (ONVM_USE_JUMBO_FRAMES a) (ie_lcore_count env) (ie_devs env) (ma_port_ids a)
             [0..<unat (ma_num_ports a)] (\<lambda>_. None, port_init (ie_ports_mem env)) of
        Inl e \<Rightarrow> Inl e
      | Inr (setups, inits) \<Rightarrow>
          let waits = snd (check_all_ports_link_status (- 1) (ie_link env) (take (unat (ma_num_ports a)) (ma_port_ids a)))
          in case ie_msg_queue env MAX_NFS of
               None \<Rightarrow> Inl Rte_Exit
             | Some q \<Rightarrow>
                 (case init_shared_sem (ie_sem_env env) (ONVM_NF_SHARE_CORES a) [] (ie_sems_before env) of
                    Inl e \<Rightarrow> Inl e
                  | Inr sems \<Rightarrow>
                      (case init_default_chain (ie_sc_calloc env) of
                         Inl e \<Rightarrow> Inl e
                       | Inr chain \<Rightarrow>
                           if \<not> ie_zone env MZ_SCP_INFO then Inl Rte_Exit
                           else case onvm_flow_dir_init (ie_ft_alloc env) (ie_zone env MZ_FTP_INFO) of
                             None \<Rightarrow> Inl Rte_Exit
                           | Some ft \<Rightarrow> Inr \<lparr>bt_mgr = boot_state t a q, bt_args = a,
                                bt_ports = (ie_ports_mem env)\<lparr>num_ports := ma_num_ports a, port_id := ma_port_ids a, port_init := inits\<rparr>,
                                bt_setups = setups, bt_sems = sems, bt_chain = chain, bt_flow_table = ft, bt_link_waits = waits\<rparr>)))"

text \<open>\<open>opts\<close> are the results of \<^verbatim>\<open>getopt_long\<close> on the arguments after those of DPDK.\<close>

definition init_mgr :: "('mq, 'h) init_env \<Rightarrow> opt_result list \<Rightarrow> init_stop + ('q, 'mq, 'h) mgr_boot" where
  "init_mgr env opts =
     (if ie_eal_init env < 0 then Inl (Returned (- 1))
      else case reserve_zones env of
        Inl e \<Rightarrow> Inl e
      | Inr t \<Rightarrow>
          (case parse_app_args (ucast (ie_dev_count env)) (ie_num_cores env) opts
                  ((mgr_args_init (port_id (ie_ports_mem env)) (it_cores t))\<lparr>ma_num_ports := num_ports (ie_ports_mem env)\<rparr>) of
             None \<Rightarrow> Inl Outside
           | Some (r, a) \<Rightarrow> if r \<noteq> 0 then Inl (Returned (- 1)) else init_rest env t a))"

section \<open>Ports\<close>

lemma ring_ids_range: "map unat (ring_ids n) = [0..<unat n]"
proof -
  have "unat (of_nat i :: u16) = i" if "i < unat n" for i
    using that unat_less_2p [of n] by (intro unat_of_nat_exact) simp
  then show ?thesis unfolding ring_ids_def map_map comp_def by (intro map_idI) simp
qed

lemma mem_ring_ids: "q \<in> set (ring_ids n) \<longleftrightarrow> q < n"
proof -
  have "q \<in> set (ring_ids n) \<longleftrightarrow> unat q \<in> unat ` set (ring_ids n)"
    by (subst inj_image_mem_iff) (simp_all add: inj_def word_unat_eq_iff)
  also have "unat ` set (ring_ids n) = set [0..<unat n]" using arg_cong [OF ring_ids_range, of set n] by simp
  finally show ?thesis by (simp add: word_less_nat_alt)
qed

text \<open>As long as the subtraction does not wrap, a port has a TX queue for every TX thread, and in shared-core mode one more.\<close>

lemma tx_threads_have_queues:
  assumes "tx_lcores lc share = Some n" "2 \<le> unat lc" "unat lc \<le> 65537"
  shows "unat (port_tx_rings lc) = unat lc - 2"
    "2 < unat lc \<or> \<not> share \<Longrightarrow> unat i < unat n \<Longrightarrow> ucast i \<in> set (ring_ids (port_tx_rings lc))"
proof -
  have "lc - 1 - 1 = lc - 2" by simp
  moreover have m: "unat (lc - 2) = unat lc - 2" using assms(2) by (subst unat_minus_exact) (simp_all add: word_le_nat_alt)
  ultimately show r: "unat (port_tx_rings lc) = unat lc - 2"
    unfolding port_tx_rings_def thread_counts using assms(3) by (subst unat_ucast_small) simp_all
  assume le: "2 < unat lc \<or> \<not> share" and i: "unat i < unat n"
  have "unat n \<le> unat lc - 2"
  proof (cases share)
    case True
    then have n: "n = lc - 2 - 1" using assms(1) by (simp add: tx_lcores_def thread_counts Let_def split: if_splits)
    have "lc - 2 \<noteq> 0" using True le m by auto
    then have "unat (lc - 2 - 1) = unat lc - 2 - 1" using unat_dec [of "lc - 2"] unfolding m by blast
    then show ?thesis unfolding n by simp
  next
    case False
    then show ?thesis using assms(1) m by (simp add: tx_lcores_def thread_counts)
  qed
  then have "unat (ucast i :: u16) < unat lc - 2" using i assms(3) by (subst unat_ucast_small) simp_all
  then show "ucast i \<in> set (ring_ids (port_tx_rings lc))" using r by (simp add: mem_ring_ids word_less_nat_alt)
qed

text \<open>A port that is set up: marked, started, with one RX queue and the TX queues.\<close>

definition port_ready :: "u32 \<Rightarrow> (u8 \<Rightarrow> port_setup option) \<Rightarrow> u8 list \<Rightarrow> u8 \<Rightarrow> bool" where
  "port_ready lc setups inits p \<longleftrightarrow> unat p < length inits \<and> inits ! unat p = 1
     \<and> (\<exists>ps. setups p = Some ps \<and> ps_started ps \<and> map fst (ps_rx_queues ps) = [0] \<and> map fst (ps_tx_queues ps) = ring_ids (port_tx_rings lc))"

lemma ring_ids_1: "ring_ids 1 = [0]"
  by (simp add: ring_ids_def)

lemma init_port_ready:
  assumes "init_port dk jumbo lc devs p inits = Inr (0, ps, inits')"
  shows "length inits' = length inits" "port_ready lc (setups(p := ps)) inits' p"
    "port_ready lc setups inits p' \<Longrightarrow> port_ready lc (setups(p := ps)) inits' p'"
proof -
  let ?dev = "devs p"
  obtain adj rs ts where adj: "dv_adjust ?dev (RTE_MP_RX_DESC_DEFAULT, RTE_MP_TX_DESC_DEFAULT) = (adj, rs, ts)" by (cases "dv_adjust ?dev (512, 512)") auto
  have fail: "setup_queues f qs \<noteq> Some 0" for f qs by (induction qs) auto
  have "unat p < length inits \<and> inits' = inits[unat p := 1] \<and> (\<exists>c. ps = Some \<lparr>ps_conf = c, ps_rx_rings = 1, ps_tx_rings = port_tx_rings lc,
      ps_rx_queues = map (\<lambda>q. (q, rs, rx_offloads c)) (ring_ids 1),
      ps_tx_queues = map (\<lambda>q. (q, ts, tx_offloads (dk_port_conf dk))) (ring_ids (port_tx_rings lc)), ps_started = True\<rparr>)"
    using assms fail by (auto simp: init_port_def Let_def adj split: if_splits option.splits)
  then show "length inits' = length inits" "port_ready lc (setups(p := ps)) inits' p"
    "port_ready lc setups inits p' \<Longrightarrow> port_ready lc (setups(p := ps)) inits' p'"
    by (auto simp: port_ready_def ring_ids_1 comp_def nth_update_if)
qed

lemma init_ports_ready:
  "init_ports dk jumbo lc devs ids is st = Inr st' \<Longrightarrow>
     (\<forall>i \<in> set is. i < length ids \<and> port_ready lc (fst st') (snd st') (ids ! i)) \<and> length (snd st') = length (snd st)
     \<and> (\<forall>p. port_ready lc (fst st) (snd st) p \<longrightarrow> port_ready lc (fst st') (snd st') p)"
proof (induction "is" arbitrary: st)
  case (Cons i "is")
  then obtain ps inits where i: "i < length ids" and p: "init_port dk jumbo lc devs (ids ! i) (snd st) = Inr (0, ps, inits)"
    and rest: "init_ports dk jumbo lc devs ids is ((fst st)(ids ! i := ps), inits) = Inr st'"
    by (auto split: if_splits sum.splits)
  show ?case using Cons.IH [OF rest] init_port_ready(1) [OF p] init_port_ready(2,3) [OF p, of "fst st"] i by (simp del: fun_upd_apply)
qed simp

section \<open>The wait for the links\<close>

lemma link_rounds_spec:
  assumes "k \<le> 90"
  shows "link_rounds up [k..<91] (k = 90) w = (True, w + length (takeWhile (\<lambda>c. \<not> up c) [k..<90]))"
  using assms
proof (induction "90 - k" arbitrary: k w)
  case 0
  then show ?case by (simp add: upt_rec)
next
  case (Suc n)
  then have k: "k < 90" "[k..<91] = k # [Suc k..<91]" "[k..<90] = k # [Suc k..<90]" by (simp_all add: upt_conv_Cons)
  have next_round: "link_rounds up [Suc k..<91] True w' = (True, w')" for w' using k(1) by (simp add: upt_conv_Cons)
  show ?case
  proof (cases "up k")
    case True
    then show ?thesis using k next_round by simp
  next
    case False
    have "link_rounds up [k..<91] (k = 90) w = link_rounds up [Suc k..<91] (Suc k = 90) (w + 1)" using k False by (simp add: eval_nat_numeral)
    also have "\<dots> = (True, w + 1 + length (takeWhile (\<lambda>c. \<not> up c) [Suc k..<90]))" using Suc k(1) by (intro Suc.hyps) simp_all
    finally show ?thesis using k(3) False by simp
  qed
qed

text \<open>The loop ends with the status printed, at most 90 intervals (9 s) after it began, and as soon as all ports are up.\<close>

lemma link_wait_bounded:
  "check_all_ports_link_status pm link ids = (True, length (takeWhile (\<lambda>c. \<not> all_ports_up pm (link c) ids) [0..<MAX_CHECK_TIME]))"
  "snd (check_all_ports_link_status pm link ids) \<le> MAX_CHECK_TIME"
proof -
  let ?up = "\<lambda>c. all_ports_up pm (link c) ids"
  have "[0..<Suc MAX_CHECK_TIME] = [0..<91]" by (rule arg_cong [where f = "upt 0"]) simp
  then show e: "check_all_ports_link_status pm link ids = (True, length (takeWhile (\<lambda>c. \<not> ?up c) [0..<MAX_CHECK_TIME]))"
    using link_rounds_spec [of 0 ?up 0] unfolding check_all_ports_link_status_def by (simp del: upt_Suc)
  show "snd (check_all_ports_link_status pm link ids) \<le> MAX_CHECK_TIME"
    unfolding e using length_takeWhile_le [of "\<lambda>c. \<not> ?up c" "[0..<MAX_CHECK_TIME]"] by simp
qed

section \<open>Semaphores\<close>

definition sem_names :: "nat list \<Rightarrow> string set" where
  "sem_names is = (\<lambda>i. get_sem_name (of_nat i)) ` set is"

lemma sem_name_inj: "i < 1000 \<Longrightarrow> j < 1000 \<Longrightarrow> get_sem_name (of_nat i) = get_sem_name (of_nat j) \<longleftrightarrow> i = j"
  using queue_names_unique [of "of_nat i" "of_nat j"] of_nat_eq_iff_exact [of i j, where 'a = 32]
  by (simp add: unat_of_nat_exact)

lemma open_sems_spec:
  "open_sems env is st = Inr st' \<Longrightarrow> distinct (sem_live st) \<Longrightarrow> \<forall>i \<in> set is. i < length (wk_sem_names st) \<Longrightarrow>
     sem_buffer st' = (if is = [] then sem_buffer st else get_sem_name (of_nat (last is)))
     \<and> set (sem_live st') = set (sem_live st) \<union> sem_names is \<and> distinct (sem_live st') \<and> length (wk_sem_names st') = length (wk_sem_names st)
     \<and> (\<forall>i < length (wk_sem_names st). wk_sem_names st' ! i = (if i \<in> set is then Sem_Buffer else wk_sem_names st ! i))"
proof (induction "is" arbitrary: st)
  case (Cons i "is")
  obtain st1 where o: "open_sem env i st = Inr st1" and rest: "open_sems env is st1 = Inr st'"
    using Cons.prems(1) by (auto split: sum.splits)
  have f: "sem_buffer st1 = get_sem_name (of_nat i)" "sem_live st1 = List.insert (get_sem_name (of_nat i)) (sem_live st)"
    "wk_sem_names st1 = (wk_sem_names st)[i := Sem_Buffer]"
    using o by (auto simp: open_sem_def Let_def split: if_splits)
  show ?case
    using Cons.IH [OF rest] Cons.prems(2,3) f by (auto simp: sem_names_def nth_update_if)
qed (simp add: sem_names_def)

lemma unlink_sems_buffer:
  "\<forall>p \<in> set ps. p = Sem_Buffer \<Longrightarrow> distinct (sem_live st) \<Longrightarrow>
     set (sem_live (unlink_sems ps st)) = (if ps = [] then set (sem_live st) else set (sem_live st) - {sem_buffer st})"
  by (induction ps arbitrary: st) (simp_all add: distinct_remove1_removeAll distinct_removeAll)

text \<open>Every name opened is still there, except the one in the shared buffer.\<close>

lemma semaphores_left:
  assumes "init_shared_sem env share buf live = Inr st" and "distinct live"
  shows "set (sem_live (cleanup_sems share st)) =
     (if share then (set live \<union> sem_names [0..<MAX_NFS]) - {get_sem_name (of_nat (MAX_NFS - 1))} else set live)"
    and "card (sem_names [0..<MAX_NFS] - {get_sem_name (of_nat (MAX_NFS - 1))}) = MAX_NFS - 1"
proof -
  show "set (sem_live (cleanup_sems share st)) =
     (if share then (set live \<union> sem_names [0..<MAX_NFS]) - {get_sem_name (of_nat (MAX_NFS - 1))} else set live)"
  proof (cases share)
    case False
    then show ?thesis using assms(1) by (auto simp: init_shared_sem_def cleanup_sems_def sem_zero_def)
  next
    case True
    let ?z = "sem_zero buf live"
    have "open_sems env [0..<MAX_NFS] ?z = Inr st" using assms(1) True by (simp add: init_shared_sem_def)
    moreover have "distinct (sem_live ?z)" "\<forall>i \<in> set [0..<MAX_NFS]. i < length (wk_sem_names ?z)" using assms(2) by (auto simp: sem_zero_def)
    ultimately have st: "sem_buffer st = get_sem_name (of_nat (MAX_NFS - 1))" "set (sem_live st) = set live \<union> sem_names [0..<MAX_NFS]"
      "distinct (sem_live st)" "length (wk_sem_names st) = MAX_NFS" "\<forall>i < MAX_NFS. wk_sem_names st ! i = Sem_Buffer"
      using open_sems_spec [of env "[0..<MAX_NFS]" ?z st] by (simp_all add: sem_zero_def onvm_limits)
    have "\<forall>p \<in> set (wk_sem_names st). p = Sem_Buffer" "wk_sem_names st \<noteq> []" using st(4,5) by (auto simp: in_set_conv_nth onvm_limits)
    then show ?thesis using unlink_sems_buffer [OF _ st(3)] st(1,2) True by (simp add: cleanup_sems_def)
  qed
  have inj: "inj_on (\<lambda>i. get_sem_name (of_nat i)) (set [0..<MAX_NFS])"
    by (intro inj_onI) (simp add: sem_name_inj onvm_limits)
  then have "card (sem_names [0..<MAX_NFS]) = MAX_NFS" unfolding sem_names_def by (subst card_image) simp_all
  moreover have "get_sem_name (of_nat (MAX_NFS - 1)) \<in> sem_names [0..<MAX_NFS]" unfolding sem_names_def by (rule imageI) (simp add: onvm_limits)
  ultimately show "card (sem_names [0..<MAX_NFS] - {get_sem_name (of_nat (MAX_NFS - 1))}) = MAX_NFS - 1" by simp
qed

text \<open>
  C31. Shut-down in shared-core mode: all entries share the buffer that holds the name of the last NF, so the clean-up removes that one semaphore, and those of all
  other NFs stay in the system. (Without shared cores there are none.)
\<close>

theorem shutdown_leaves_semaphores:
  assumes "init_shared_sem env share buf live = Inr st" and "distinct live"
  shows "set (sem_live (cleanup_sems share st)) =
     (if share then (set live \<union> sem_names [0..<MAX_NFS]) - {get_sem_name (of_nat (MAX_NFS - 1))} else set live)
    \<and> card (sem_names [0..<MAX_NFS] - {get_sem_name (of_nat (MAX_NFS - 1))}) = MAX_NFS - 1"
  by (intro conjI semaphores_left [OF assms])

section \<open>The state that init makes\<close>

lemma zero_view: "view (replicate MAX_NFS zero_nf) = replicate MAX_NFS (0, 0, 0)"
  by (simp add: view_def zero_nf_def)

lemma no_runs: "runs_in (replicate MAX_NFS (0, 0, 0)) sid = {}"
  by (auto simp: runs_in_def runs_def nf_states)

text \<open>A state of empty NF slots is well-formed exactly when its rows exist and its counts are zero.\<close>

lemma boot_state_inv_iff:
  fixes t :: init_tables
  assumes "reserve_zones env = Inr t"
  shows "mgr_inv (boot_state t a q) \<longleftrightarrow> (\<forall>k < MAX_SERVICES. ie_service_row env k \<and> ie_counts_mem env k = 0)"
proof -
  have t: "it_services t = map (\<lambda>i. if ie_service_row env i then replicate MAX_NFS_PER_SERVICE 0 else []) [0..<MAX_SERVICES]"
    "it_counts t = map (ie_counts_mem env) [0..<MAX_SERVICES]"
    using assms by (auto simp: reserve_zones_def split: if_splits)
  have "mgr_inv (boot_state t a q) \<longleftrightarrow> (\<forall>k < MAX_SERVICES. row_holds (it_services t ! k) [] \<and> it_counts t ! k = 0)"
    by (simp add: mgr_inv_def reg_ok_def boot_state_def zero_view no_runs t slot_ok_def nf_states runs_def unat_eq_0 conj_commute cong: conj_cong)
  also have "\<dots> \<longleftrightarrow> (\<forall>k < MAX_SERVICES. ie_service_row env k \<and> ie_counts_mem env k = 0)"
    by (auto simp: t row_holds_def onvm_limits)
  finally show ?thesis .
qed

lemma default_chain_holds: "init_default_chain ok = Inr c \<Longrightarrow> chain_holds [(ONVM_NF_ACTION_TONF, 1)] c"
proof -
  assume c: "init_default_chain ok = Inr c"
  then obtain c0 r where c0: "onvm_sc_create ok = Some c0" and ap: "onvm_sc_append_entry c0 ONVM_NF_ACTION_TONF 1 = Some (r, c)"
    by (auto simp: init_default_chain_def split: option.splits if_splits)
  have "chain_holds [] c0" using c0 by (auto simp: onvm_sc_create_def chain_holds_def split: if_splits)
  then show ?thesis using chain_holds_append [of "[]" c0 ONVM_NF_ACTION_TONF 1] ap by auto
qed

text \<open>What each part of the start leaves.\<close>

lemma init_boot_facts:
  fixes b :: "('q, 'mq, 'h) mgr_boot"
  assumes "init_mgr env opts = Inr b"
  shows "mgr_inv (bt_mgr b) \<longleftrightarrow> (\<forall>k < MAX_SERVICES. ie_service_row env k \<and> ie_counts_mem env k = 0)"
    and "mgr_inv (bt_mgr b) \<Longrightarrow> mgr_reachable menv (bt_mgr b)"
    and "i < unat (num_ports (bt_ports b)) \<Longrightarrow> i < length (port_id (bt_ports b))
          \<and> port_ready (ie_lcore_count env) (bt_setups b) (port_init (bt_ports b)) (port_id (bt_ports b) ! i)"
    and "chain_holds [(ONVM_NF_ACTION_TONF, 1)] (bt_chain b)"
    and "bt_link_waits b \<le> MAX_CHECK_TIME"
    and "CORE_STATUS_SIZE * 64 \<le> ie_zone_len env (CORE_STATUS_SIZE * unat (ie_num_cores env))"
proof -
  obtain t a where t: "reserve_zones env = Inr t" and rest: "init_rest env t a = Inr b"
    using assms by (auto simp: init_mgr_def split: sum.splits option.splits if_splits)
  obtain setups inits q where p: "init_ports (ie_dpdk env) (ONVM_USE_JUMBO_FRAMES a) (ie_lcore_count env) (ie_devs env) (ma_port_ids a)
        [0..<unat (ma_num_ports a)] (\<lambda>_. None, port_init (ie_ports_mem env)) = Inr (setups, inits)"
    and m: "bt_mgr b = boot_state t a q" and chain: "init_default_chain (ie_sc_calloc env) = Inr (bt_chain b)"
    and ports: "num_ports (bt_ports b) = ma_num_ports a" "port_id (bt_ports b) = ma_port_ids a" "port_init (bt_ports b) = inits" "bt_setups b = setups"
    and w: "bt_link_waits b = snd (check_all_ports_link_status (- 1) (ie_link env) (take (unat (ma_num_ports a)) (ma_port_ids a)))"
    using rest by (auto simp: init_rest_def Let_def split: if_splits sum.splits option.splits)
  show inv: "mgr_inv (bt_mgr b) \<longleftrightarrow> (\<forall>k < MAX_SERVICES. ie_service_row env k \<and> ie_counts_mem env k = 0)"
    unfolding m by (rule boot_state_inv_iff [OF t])
  show "mgr_inv (bt_mgr b) \<Longrightarrow> mgr_reachable menv (bt_mgr b)"
  proof -
    assume "mgr_inv (bt_mgr b)"
    then have "it_services t = replicate MAX_SERVICES (replicate MAX_NFS_PER_SERVICE 0)" "it_counts t = replicate MAX_SERVICES 0"
      using t unfolding inv by (auto simp: reserve_zones_def intro: replicate_eqI split: if_splits)
    then show ?thesis unfolding m by (intro mgr_reachable.boot) (simp_all add: boot_state_def)
  qed
  show "i < unat (num_ports (bt_ports b)) \<Longrightarrow> i < length (port_id (bt_ports b))
      \<and> port_ready (ie_lcore_count env) (bt_setups b) (port_init (bt_ports b)) (port_id (bt_ports b) ! i)"
    using init_ports_ready [OF p] unfolding ports by simp
  show "chain_holds [(ONVM_NF_ACTION_TONF, 1)] (bt_chain b)" by (rule default_chain_holds [OF chain])
  show "bt_link_waits b \<le> MAX_CHECK_TIME" unfolding w by (rule link_wait_bounded(2))
  show "CORE_STATUS_SIZE * 64 \<le> ie_zone_len env (CORE_STATUS_SIZE * unat (ie_num_cores env))"
    using t by (simp add: reserve_zones_def split: if_splits)
qed

text \<open>
  C14. What a successful start gives the other components: the registers of NF management are well-formed, and then a start state of its step relation,
  exactly when every row of the service table was allocated and the zone of the counts, which is not cleared, happened to hold zeros; every port of
  the port table is marked, started and has its queues; the default chain has the one entry that sends to service 1, whatever the option \<^verbatim>\<open>-d\<close> says; the links are waited for
  at most 9 seconds; and the zone of the cores has room for 64 entries, however many cores there are.
\<close>

theorem init_establishes_boot:
  fixes b :: "('q, 'mq, 'h) mgr_boot"
  assumes "init_mgr env opts = Inr b"
  shows "(mgr_inv (bt_mgr b) \<longleftrightarrow> (\<forall>k < MAX_SERVICES. ie_service_row env k \<and> ie_counts_mem env k = 0))
    \<and> (mgr_inv (bt_mgr b) \<longrightarrow> mgr_reachable menv (bt_mgr b))
    \<and> (\<forall>i < unat (num_ports (bt_ports b)). i < length (port_id (bt_ports b))
          \<and> port_ready (ie_lcore_count env) (bt_setups b) (port_init (bt_ports b)) (port_id (bt_ports b) ! i))
    \<and> chain_holds [(ONVM_NF_ACTION_TONF, 1)] (bt_chain b)
    \<and> bt_link_waits b \<le> MAX_CHECK_TIME
    \<and> CORE_STATUS_SIZE * 64 \<le> ie_zone_len env (CORE_STATUS_SIZE * unat (ie_num_cores env))"
  by (intro conjI impI allI init_boot_facts(1-2,4-6) [OF assms] init_boot_facts(3) [OF assms, THEN conjunct1] init_boot_facts(3) [OF assms, THEN conjunct2])

text \<open>A zone is rounded up to whole cache lines, so on a machine with at most 48 cores the clearing of the core table leaves its zone.\<close>

lemma core_table_overruns:
  assumes "\<And>n. ie_zone_len env n = 64 * ((n + 63) div 64)" "unat (ie_num_cores env) \<le> 48"
    and "ie_eal_init env \<ge> 0" "ie_zone env MZ_NF_INFO" "ie_zone env MZ_PORT_INFO" "ie_zone env MZ_CORES_STATUS"
  shows "init_mgr env opts = Inl Outside"
proof -
  have "(4 * unat (ie_num_cores env) + 63) div 64 \<le> (255 :: nat) div 64" using assms(2) by (intro div_le_mono) simp
  then have "ie_zone_len env (CORE_STATUS_SIZE * unat (ie_num_cores env)) < CORE_STATUS_SIZE * 64" using assms(1) by simp
  then show ?thesis using assms(3-6) by (simp add: init_mgr_def reserve_zones_def)
qed

section \<open>A concrete start\<close>

definition demo_dev :: eth_dev where
  "demo_dev = \<lparr>dv_tx_offload_capa = 0x10000, dv_rss_offloads = 0xff, dv_configure = 0, dv_adjust = (\<lambda>(r, t). (0, r, t)),
     dv_rx_setup = (\<lambda>_. 0), dv_tx_setup = (\<lambda>_. 0), dv_start = 0\<rparr>"

definition demo_sem_env :: sem_env where
  "demo_sem_env = \<lparr>se_open = (\<lambda>_. True), se_shmget = (\<lambda>_. True), se_shmat = (\<lambda>_. True), se_segment = (\<lambda>_. 0), se_value = (\<lambda>_. 0)\<rparr>"

definition demo_init_env :: "(nat list_ring, (onvm_ft_ipv4_5tuple \<times> nat) list) init_env" where
  "demo_init_env = \<lparr>ie_eal_init = 4, ie_dev_count = 2, ie_lcore_count = 6, ie_num_cores = 64, ie_zone = (\<lambda>_. True),
     ie_zone_len = (\<lambda>n. n), ie_ports_mem = \<lparr>num_ports = 0, port_id = replicate 32 0, port_init = replicate 32 0, port_rx = replicate 32 0,
       port_tx = replicate 32 0, port_tx_drop = replicate 32 0\<rparr>,
     ie_cores_mem = (\<lambda>_. zero_core), ie_counts_mem = (\<lambda>_. 0), ie_service_row = (\<lambda>_. True), ie_pool = (\<lambda>_ _. True),
     ie_dpdk = \<lparr>dk_port_conf = \<lparr>rss_hf = 0xf0f, rx_offloads = 14, tx_offloads = 14, max_rx_pkt_len = 1518\<rparr>,
       dk_fast_free = 0x10000, dk_jumbo_frame = 0x800, dk_ether_len = 18\<rparr>,
     ie_devs = (\<lambda>_. demo_dev), ie_link = (\<lambda>k _. 3 \<le> k), ie_msg_queue = (\<lambda>n. Some \<lparr>lr_items = [], lr_room = n - 1\<rparr>),
     ie_sem_env = demo_sem_env, ie_sems_before = [], ie_sc_calloc = True,
     ie_ft_alloc = \<lparr>fa_params = True, fa_name = True, fa_primary = True, fa_request_status = 0, fa_hash = Some [], fa_table = True, fa_data = True,
       fa_zero = \<lparr>fl_key = 0, fl_sc = 0, fl_ref_cnt = 0, fl_idle_timeout = 0, fl_hard_timeout = 0, fl_packet_count = 0, fl_byte_count = 0\<rparr>\<rparr>\<rparr>"

lemma demo_mgr_init_ok:
  "\<exists>b :: (nat list_ring, nat list_ring, (onvm_ft_ipv4_5tuple \<times> nat) list) mgr_boot.
     init_mgr demo_init_env [(CHR ''p'', Some ''3''), (CHR ''d'', Some ''7'')] = Inr b \<and> num_ports (bt_ports b) = 2"
proof -
  have "case init_mgr demo_init_env [(CHR ''p'', Some ''3''), (CHR ''d'', Some ''7'')] of
      Inl _ \<Rightarrow> False | Inr (b :: (nat list_ring, nat list_ring, (onvm_ft_ipv4_5tuple \<times> nat) list) mgr_boot) \<Rightarrow> num_ports (bt_ports b) = 2"
    by code_simp
  then show ?thesis by (auto split: sum.splits)
qed

theorem init_establishes_boot_witness:
  "\<exists>b :: (nat list_ring, nat list_ring, (onvm_ft_ipv4_5tuple \<times> nat) list) mgr_boot.
     init_mgr demo_init_env [(CHR ''p'', Some ''3''), (CHR ''d'', Some ''7'')] = Inr b \<and> mgr_reachable demo_mgr_env (bt_mgr b)
     \<and> port_ready 6 (bt_setups b) (port_init (bt_ports b)) (port_id (bt_ports b) ! 1)"
proof -
  obtain b :: "(nat list_ring, nat list_ring, (onvm_ft_ipv4_5tuple \<times> nat) list) mgr_boot"
    where b: "init_mgr demo_init_env [(CHR ''p'', Some ''3''), (CHR ''d'', Some ''7'')] = Inr b" and n: "num_ports (bt_ports b) = 2"
    using demo_mgr_init_ok by blast
  have "mgr_inv (bt_mgr b)" using init_establishes_boot [OF b, of demo_mgr_env] by (simp add: demo_init_env_def)
  moreover have "ie_lcore_count demo_init_env = 6" by (simp add: demo_init_env_def)
  ultimately show ?thesis
    using b n init_establishes_boot [OF b, of demo_mgr_env] by auto
qed

theorem shutdown_leaves_semaphores_witness:
  "\<exists>st. init_shared_sem demo_sem_env True [] [] = Inr st \<and> ''MProc_Client_5_SEM'' \<in> set (sem_live (cleanup_sems True st))"
proof -
  have "\<exists>st'. open_sems demo_sem_env is st = Inr st'" for "is" st
    by (induction "is" arbitrary: st) (auto simp: open_sem_def demo_sem_env_def Let_def)
  then obtain st where st: "init_shared_sem demo_sem_env True [] [] = Inr st" by (auto simp: init_shared_sem_def)
  have "''MProc_Client_5_SEM'' = get_sem_name (of_nat 5)" "get_sem_name (of_nat 5) \<noteq> get_sem_name (of_nat (MAX_NFS - 1))" by code_simp+
  moreover have "get_sem_name (of_nat 5) \<in> sem_names [0..<MAX_NFS]" unfolding sem_names_def by (rule imageI) (simp add: onvm_limits)
  ultimately show ?thesis using st shutdown_leaves_semaphores [OF st] by simp
qed

end
