(* ===== verification/NfArgs.thy ===== *)
theory NfArgs
  imports CLib NfMgr
begin

text \<open>
  Configuration of a network function in the NF library (\<^verbatim>\<open>onvm_nflib.c\<close>): the initial configuration, the
  one a child inherits, and the command line that the library shares by all NFs.
\<close>

section \<open>Words read by getopt\<close>

text \<open>
  How many words \<^verbatim>\<open>getopt\<close> has moved to the front when it is done: the options, their arguments and the
  terminating \<^verbatim>\<open>--\<close>. \<open>optind\<close> is then one more.
\<close>

function (sequential) getopt_used :: "opt_spec \<Rightarrow> string list \<Rightarrow> nat"
  and getopt_used_cluster :: "opt_spec \<Rightarrow> string \<Rightarrow> string list \<Rightarrow> nat" where
  "getopt_used spec [] = 0"
| "getopt_used spec (w # ws) =
     (if w = ''--'' then 1
      else case w of
        c # d # r \<Rightarrow> if c = CHR ''-'' then 1 + getopt_used_cluster spec (d # r) ws else getopt_used spec ws
      | _ \<Rightarrow> getopt_used spec ws)"
| "getopt_used_cluster spec [] ws = getopt_used spec ws"
| "getopt_used_cluster spec (c # cs) ws =
     (case map_of spec c of
        Some WithArg \<Rightarrow>
          if cs \<noteq> [] then getopt_used spec ws else (case ws of [] \<Rightarrow> 0 | a # ws' \<Rightarrow> 1 + getopt_used spec ws')
      | _ \<Rightarrow> getopt_used_cluster spec cs ws)"
  by pat_completeness auto
termination
  by (relation "measure (\<lambda>x. case x of
        Inl (_, ws) \<Rightarrow> (\<Sum>w\<leftarrow>ws. 2 + length w) | Inr (_, cs, ws) \<Rightarrow> 1 + length cs + (\<Sum>w\<leftarrow>ws. 2 + length w))")
    auto

section \<open>Initial configuration\<close>

abbreviation TAG_SIZE :: nat where "TAG_SIZE \<equiv> 15"

text \<open>
  \<^verbatim>\<open>onvm_nflib_init_nf_init_cfg\<close> for the configuration object the pool gave (its service is what was in
  it before); \<open>None\<close> when the pool is empty and the process exits.
\<close>

definition onvm_nflib_init_nf_init_cfg :: "onvm_nf_init_cfg option \<Rightarrow> u16 \<Rightarrow> string \<Rightarrow> onvm_nf_init_cfg option" where
  "onvm_nflib_init_nf_init_cfg pool lcore tag =
     map_option (\<lambda>ic. ic\<lparr>ic_instance_id := NF_NO_ID, ic_core := lcore, ic_init_options := 0, ic_status := NF_WAITING_FOR_ID,
       ic_tag := Some (take (TAG_SIZE - 1) (strncpy_str tag TAG_SIZE)), ic_time_to_live := 0, ic_pkt_limit := 0\<rparr>) pool"

definition onvm_nflib_inherit_parent_init_cfg ::
  "onvm_nf_init_cfg option \<Rightarrow> u16 \<Rightarrow> ('q, 'mq) onvm_nf \<Rightarrow> onvm_nf_init_cfg option" where
  "onvm_nflib_inherit_parent_init_cfg pool lcore parent =
     map_option (\<lambda>ic. ic\<lparr>ic_service_id := nf_service_id parent, ic_core := nf_core parent, ic_init_options := nf_init_options parent,
       ic_time_to_live := nf_time_to_live parent, ic_pkt_limit := nf_pkt_limit parent\<rparr>)
     (Option.bind (nf_tag parent) (onvm_nflib_init_nf_init_cfg pool lcore))"

section \<open>Arguments\<close>

definition nflib_optstring :: opt_spec where
  "nflib_optstring = [(CHR ''n'', WithArg), (CHR ''r'', WithArg), (CHR ''t'', WithArg), (CHR ''l'', WithArg),
     (CHR ''m'', Flag), (CHR ''s'', Flag)]"

definition strtoul_u16 :: "string option \<Rightarrow> u16" where
  "strtoul_u16 a = (case a of None \<Rightarrow> 0 | Some s \<Rightarrow> ucast (fst (strtoul_c 10 s)))"

text \<open>One option: the configuration and the local \<^verbatim>\<open>service_id\<close>, \<open>None\<close> for a return of \<open>-1\<close>.\<close>

definition nflib_apply_opt :: "opt_result \<Rightarrow> onvm_nf_init_cfg \<times> int \<Rightarrow> (onvm_nf_init_cfg \<times> int) option" where
  "nflib_apply_opt oa = (\<lambda>(ic, service_id).
     let (c, a) = oa; v = strtoul_u16 a in
     if c = CHR ''n'' then Some (ic\<lparr>ic_instance_id := v\<rparr>, service_id)
     else if c = CHR ''r'' then Some (ic, if v = 0 then - 1 else uint v)
     else if c = CHR ''t'' then if v = 0 then None else Some (ic\<lparr>ic_time_to_live := v\<rparr>, service_id)
     else if c = CHR ''l'' then if v = 0 then None else Some (ic\<lparr>ic_pkt_limit := v\<rparr>, service_id)
     else if c = CHR ''m'' then Some (ic\<lparr>ic_init_options := ic_init_options ic OR push_bit MANUAL_CORE_ASSIGNMENT_BIT 1\<rparr>, service_id)
     else if c = CHR ''s'' then Some (ic\<lparr>ic_init_options := ic_init_options ic OR push_bit SHARE_CORE_BIT 1\<rparr>, service_id)
     else None)"

primrec nflib_apply_opts :: "opt_result list \<Rightarrow> onvm_nf_init_cfg \<times> int \<Rightarrow> (onvm_nf_init_cfg \<times> int) option" where
  "nflib_apply_opts [] st = Some st"
| "nflib_apply_opts (oa # oas) st = Option.bind (nflib_apply_opt oa st) (nflib_apply_opts oas)"

text \<open>
  The result is \<^verbatim>\<open>optind\<close> with the configuration. The test for a missing service compares the local variable, an
  \<^verbatim>\<open>int\<close>, with \<^verbatim>\<open>(uint16_t)-1\<close>, which is 65535.
\<close>

definition onvm_nflib_parse_args :: "string list \<Rightarrow> onvm_nf_init_cfg \<Rightarrow> (nat \<times> onvm_nf_init_cfg) option" where
  "onvm_nflib_parse_args argv ic =
     Option.bind (nflib_apply_opts (getopt_words nflib_optstring argv) (ic, - 1)) (\<lambda>(ic1, service_id).
       if service_id = 65535 then None
       else Some (1 + getopt_used nflib_optstring argv, ic1\<lparr>ic_service_id := of_int service_id\<rparr>))"

section \<open>What the arguments mean\<close>

text \<open>An option that makes the parser give up.\<close>

definition opt_refused :: "opt_result \<Rightarrow> bool" where
  "opt_refused oa \<longleftrightarrow> (fst oa = CHR ''t'' \<or> fst oa = CHR ''l'') \<and> strtoul_u16 (snd oa) = 0
     \<or> fst oa \<notin> {CHR ''n'', CHR ''r'', CHR ''t'', CHR ''l'', CHR ''m'', CHR ''s''}"

text \<open>The service after an option, and after all of them: the last \<^verbatim>\<open>-r\<close> counts, \<open>- 1\<close> without one or for 0.\<close>

definition service_after :: "int \<Rightarrow> opt_result \<Rightarrow> int" where
  "service_after sid oa =
     (if fst oa = CHR ''r'' then if strtoul_u16 (snd oa) = 0 then - 1 else uint (strtoul_u16 (snd oa)) else sid)"

definition requested_service :: "opt_result list \<Rightarrow> int" where
  "requested_service oas = foldl service_after (- 1) oas"

lemma apply_opt_cases:
  "nflib_apply_opt oa (ic, sid) = None \<longleftrightarrow> opt_refused oa"
  "nflib_apply_opt oa (ic, sid) = Some (ic', sid') \<Longrightarrow> sid' = service_after sid oa \<and> ic_status ic' = ic_status ic"
  by (cases oa; auto simp: nflib_apply_opt_def opt_refused_def service_after_def Let_def split: if_splits)+

lemma apply_opts_spec:
  "case nflib_apply_opts oas (ic, sid) of
     None \<Rightarrow> \<exists>oa \<in> set oas. opt_refused oa
   | Some (ic', sid') \<Rightarrow> (\<forall>oa \<in> set oas. \<not> opt_refused oa) \<and> sid' = foldl service_after sid oas \<and> ic_status ic' = ic_status ic"
proof (induction oas arbitrary: ic sid)
  case Nil
  then show ?case by simp
next
  case (Cons oa oas)
  show ?case
  proof (cases "nflib_apply_opt oa (ic, sid)")
    case None
    then show ?thesis using apply_opt_cases(1) [of oa ic sid] by auto
  next
    case (Some st)
    obtain ic1 sid1 where st: "st = (ic1, sid1)" by (cases st)
    have one: "\<not> opt_refused oa" "sid1 = service_after sid oa" "ic_status ic1 = ic_status ic"
      using apply_opt_cases [of oa ic sid] Some st by auto
    show ?thesis using Cons.IH [where ic = ic1 and sid = sid1] Some st one by (auto split: option.splits prod.splits)
  qed
qed

lemma service_after_range: "sid \<in> {- 1..65535} \<Longrightarrow> foldl service_after sid oas \<in> {- 1..65535}"
proof (induction oas arbitrary: sid)
  case (Cons oa oas)
  have "service_after sid oa \<in> {- 1..65535}"
    using Cons.prems uint_lt2p [of "strtoul_u16 (snd oa)"] uint_ge_0 [of "strtoul_u16 (snd oa)"]
    by (auto simp: service_after_def intro: order_trans [OF _ uint_ge_0])
  then show ?case using Cons.IH by simp
qed simp

lemma no_service: "\<forall>oa \<in> set oas. fst oa \<noteq> CHR ''r'' \<Longrightarrow> requested_service oas = - 1"
proof -
  have "\<forall>oa \<in> set oas. fst oa \<noteq> CHR ''r'' \<Longrightarrow> foldl service_after sid oas = sid" for sid
    by (induction oas) (simp_all add: service_after_def)
  then show "\<forall>oa \<in> set oas. fst oa \<noteq> CHR ''r'' \<Longrightarrow> requested_service oas = - 1" by (simp add: requested_service_def)
qed

section \<open>Properties\<close>

text \<open>
  The command line of an NF is refused exactly when it has a bad or incomplete option, a time to live or a packet limit of 0, or
  asks for service 65535. A missing service, or service 0, is therefore not seen by the library, although its message says it is
  required: the configuration goes out with service 65535, and the manager refuses it for
  that reason (or because no instance id is free).
\<close>

lemma parse_args_outcome:
  fixes s :: "('q, 'mq) mgr_state"
  assumes "ic_status ic = NF_WAITING_FOR_ID" and "opts = getopt_words nflib_optstring argv"
  shows "(onvm_nflib_parse_args argv ic = None \<longleftrightarrow> (\<exists>oa \<in> set opts. opt_refused oa) \<or> requested_service opts = 65535)
    \<and> (\<forall>n ic'. onvm_nflib_parse_args argv ic = Some (n, ic') \<longrightarrow> ic_service_id ic' = of_int (requested_service opts)
         \<and> ((\<forall>oa \<in> set opts. fst oa \<noteq> CHR ''r'') \<longrightarrow> ic_service_id ic' = 65535
              \<and> (\<exists>st s'. onvm_nf_start env (Some ic') s = Inr (1, Some (ic'\<lparr>ic_status := st\<rparr>), s') \<and> st \<in> {NF_SERVICE_MAX, NF_NO_IDS})))"
proof -
  note spec = apply_opts_spec [where oas = opts and ic = ic and sid = "- 1", folded requested_service_def]
  have none: "onvm_nflib_parse_args argv ic = None \<longleftrightarrow> (\<exists>oa \<in> set opts. opt_refused oa) \<or> requested_service opts = 65535"
    using spec by (auto simp: onvm_nflib_parse_args_def assms(2) split: option.splits if_splits)
  have some: "ic_service_id ic' = of_int (requested_service opts)" "ic_status ic' = NF_WAITING_FOR_ID"
    if "onvm_nflib_parse_args argv ic = Some (n, ic')" for n ic'
    using spec assms(1) that by (auto simp: onvm_nflib_parse_args_def assms(2) split: option.splits if_splits bind_splits)
  have refused: "\<exists>st s'. onvm_nf_start env (Some ic') s = Inr (1, Some (ic'\<lparr>ic_status := st\<rparr>), s') \<and> st \<in> {NF_SERVICE_MAX, NF_NO_IDS}"
    if "ic_service_id ic' = 65535" "ic_status ic' = NF_WAITING_FOR_ID" for ic'
  proof -
    obtain i t where it: "(if ic_instance_id ic' = NF_NO_ID then onvm_nf_next_instance_id s else (unat (ic_instance_id ic'), s)) = (i, t)"
      by (metis surj_pair)
    have "onvm_nf_start env (Some ic') s = Inr (1, Some (ic'\<lparr>ic_status := if i \<ge> MAX_NFS then NF_NO_IDS else NF_SERVICE_MAX\<rparr>), t)"
      unfolding onvm_nf_start_def option.case it Let_def prod.case using that by (simp add: MAX_SERVICES_def)
    then show ?thesis by (intro exI [where x = "if i \<ge> MAX_NFS then NF_NO_IDS else NF_SERVICE_MAX"] exI [where x = t]) simp
  qed
  show ?thesis using none some refused no_service [of opts] by auto
qed

end
