(* ===== verification/NfLoop.thy ===== *)
theory NfLoop
  imports MgrThreads "HOL-Library.Sublist"
begin

text \<open>
  The main loop of a network function (\<^verbatim>\<open>onvm_nflib.c\<close>): taking packets from its RX ring, the user's packet
  handler, sending on what it returns, messages from the manager and other NFs, and the conditions that end the
  loop. The packet handler is a function of the packet and its buffer; what a user's function table does besides
  is a parameter.
\<close>

section \<open>Packets\<close>

type_synonym pkt_handler = "nat \<Rightarrow> mbuf \<Rightarrow> int \<times> mbuf"

definition ONVM_NF_HANDLE_TX :: bool where "ONVM_NF_HANDLE_TX = True"

text \<open>The handler on every packet of the batch: the packets it returned 0 for, in order, and the state after it.\<close>

primrec run_handler :: "pkt_handler \<Rightarrow> nat \<Rightarrow> nat list \<Rightarrow> ('q, 'mq, 'h) pkt_state \<Rightarrow> nat list \<times> ('q, 'mq, 'h) pkt_state" where
  "run_handler h nf [] s = ([], s)"
| "run_handler h nf (p # ps) s =
     (let (ret_act, mb) = h p (pk_mbufs s p);
          s1 = s\<lparr>pk_mbufs := (pk_mbufs s)(p := mb)\<rparr>;
          s2 = (if ret_act = 0 then s1 else upd_stats (Some nf) (\<lambda>t. t\<lparr>st_tx_buffer := st_tx_buffer t + 1\<rparr>) s1);
          (tx, s3) = run_handler h nf ps s2
      in (if ret_act = 0 then p # tx else tx, s3))"

definition tx_buf_of :: "nat list \<Rightarrow> packet_buf" where
  "tx_buf_of ps = \<lparr>pb_buffer = ps @ replicate (PACKET_READ_SIZE - length ps) 0, pb_count = of_nat (length ps)\<rparr>"

text \<open>
  \<^verbatim>\<open>onvm_nflib_dequeue_packets\<close>: the packets for the caller to send on, which are all that were taken from the ring when NFs handle their own
  transmission, and none otherwise.
\<close>

definition onvm_nflib_dequeue_packets ::
  "('q, 'h) pkt_env \<Rightarrow> pkt_handler \<Rightarrow> nat \<Rightarrow> ('q, 'mq, 'h) pkt_state \<Rightarrow> (nat list \<times> ('q, 'mq, 'h) pkt_state) option" where
  "onvm_nflib_dequeue_packets env h nf s =
     (if nf \<ge> length (pk_nfs s) then None
      else case nf_rx_q (pk_nfs s ! nf) of
        None \<Rightarrow> None
      | Some q \<Rightarrow>
          let (pkts, q1) = ring_dequeue_burst (pe_ring env) q PACKET_READ_SIZE;
              s1 = s\<lparr>pk_nfs := (pk_nfs s)[nf := (pk_nfs s ! nf)\<lparr>nf_rx_q := Some q1\<rparr>]\<rparr>
          in if pkts = [] then Some ([], s1)
             else
               let (tx, s2) = run_handler h nf pkts s1
               in if ONVM_NF_HANDLE_TX then Some (pkts, s2)
                  else map_option (\<lambda>(b, s3). ([], s3)) (onvm_pkt_enqueue_tx_thread env (tx_buf_of tx) nf s2))"

text \<open>The part of an iteration of \<^verbatim>\<open>onvm_nflib_thread_main_loop\<close> that moves packets.\<close>

definition nf_pkt_pass ::
  "('q, 'h) pkt_env \<Rightarrow> pkt_handler \<Rightarrow> nat \<Rightarrow> ('q, 'mq, 'h) pkt_cfg \<Rightarrow> ('q, 'mq, 'h) pkt_cfg option" where
  "nf_pkt_pass env h nf = (\<lambda>(qm, s). do {
     (pkts, s1) \<leftarrow> onvm_nflib_dequeue_packets env h nf s;
     (qm2, s2) \<leftarrow> (if pkts \<noteq> [] then onvm_pkt_process_tx_batch env pkts nf (qm, s1) else Some (qm, s1));
     case qm_side qm2 of
       MGR_side info \<Rightarrow> None
     | NF_side b \<Rightarrow> do {
         (b1, s3) \<leftarrow> onvm_pkt_enqueue_tx_thread env b nf s2;
         onvm_pkt_flush_all_nfs env (Some nf) (qm2\<lparr>qm_side := NF_side b1\<rparr>, s3) } })"

text \<open>Returning packets outside the handler.\<close>

definition onvm_nflib_return_pkt_bulk ::
  "('q, 'h) pkt_env \<Rightarrow> nat \<Rightarrow> nat list option \<Rightarrow> ('q, 'mq, 'h) pkt_state \<Rightarrow> (int \<times> ('q, 'mq, 'h) pkt_state) option" where
  "onvm_nflib_return_pkt_bulk env nf pkts s =
     (case pkts of
        None \<Rightarrow> Some (- 1, s)
      | Some ps \<Rightarrow>
          if ps = [] then Some (- 1, s)
          else if nf \<ge> length (pk_nfs s) then None
          else case nf_tx_q (pk_nfs s ! nf) of
            None \<Rightarrow> None
          | Some q \<Rightarrow>
              let (r, q1) = ring_enqueue_bulk (pe_ring env) q ps; n = of_nat (length ps) :: u64;
                  s1 = s\<lparr>pk_nfs := (pk_nfs s)[nf := (pk_nfs s ! nf)\<lparr>nf_tx_q := Some q1\<rparr>]\<rparr>
              in if r = 0 then Some (- ENOBUFS, free_all ps (upd_stats (Some nf) (\<lambda>t. t\<lparr>st_tx_drop := st_tx_drop t + n\<rparr>) s1))
                 else Some (0, upd_stats (Some nf) (\<lambda>t. t\<lparr>st_tx_returned := st_tx_returned t + n\<rparr>) s1))"

definition onvm_nflib_return_pkt ::
  "('q, 'h) pkt_env \<Rightarrow> nat \<Rightarrow> nat \<Rightarrow> ('q, 'mq, 'h) pkt_state \<Rightarrow> (int \<times> ('q, 'mq, 'h) pkt_state) option" where
  "onvm_nflib_return_pkt env nf pkt s = onvm_nflib_return_pkt_bulk env nf (Some [pkt]) s"

section \<open>Messages\<close>

text \<open>
  The messages an NF handles, with what the handler reads through \<^verbatim>\<open>msg_data\<close>: the parent of a scale request and whether
  its configuration is complete, and the core and the address of a relocation.
\<close>

datatype nf_msg =
    MSG_STOP
  | MSG_SCALE nat bool
  | MSG_FROM_NF nat
  | MSG_CHANGE_CORE u16 nat
  | MSG_NOOP

record ('q, 'mq, 'h) nf_run =
  nr_keep_running :: bool
  nr_sleep_state :: bool
  nr_cfg :: "('q, 'mq, 'h) pkt_cfg"
  nr_freed_msgs :: "nat list"
  nr_freed_data :: "nat list"
  nr_spawned :: "nat list"
  nr_delivered :: "nat list"

record ('q, 'mq, 'h) nf_env =
  ne_pkt :: "('q, 'h) pkt_env"
  ne_msg_ring :: "('mq, nat) ring_api"
  ne_msg_of :: "nat \<Rightarrow> nf_msg"
  ne_handler :: pkt_handler
  ne_msg_handler :: bool
  ne_spawn :: "nat \<Rightarrow> int"
  ne_share_cores :: bool
  ne_timer_hz :: u64

abbreviation nr_state :: "('q, 'mq, 'h) nf_run \<Rightarrow> ('q, 'mq, 'h) pkt_state" where
  "nr_state r \<equiv> snd (nr_cfg r)"

abbreviation nr_upd :: "(('q, 'mq, 'h) pkt_state \<Rightarrow> ('q, 'mq, 'h) pkt_state) \<Rightarrow> ('q, 'mq, 'h) nf_run \<Rightarrow> ('q, 'mq, 'h) nf_run" where
  "nr_upd f r \<equiv> r\<lparr>nr_cfg := (fst (nr_cfg r), f (nr_state r))\<rparr>"

text \<open>\<^verbatim>\<open>onvm_nflib_is_scale_info_valid\<close> returns a truth value, and \<^verbatim>\<open>onvm_nflib_scale\<close> asks whether it is negative.\<close>

definition onvm_nflib_is_scale_info_valid :: "bool \<Rightarrow> int" where
  "onvm_nflib_is_scale_info_valid complete = (if complete then 1 else 0)"

definition upd_nf :: "nat \<Rightarrow> (('q, 'mq) onvm_nf \<Rightarrow> ('q, 'mq) onvm_nf) \<Rightarrow> ('q, 'mq, 'h) pkt_state \<Rightarrow> ('q, 'mq, 'h) pkt_state" where
  "upd_nf i f s = s\<lparr>pk_nfs := (pk_nfs s)[i := f (pk_nfs s ! i)]\<rparr>"

text \<open>\<open>ne_spawn\<close> is the result of \<^verbatim>\<open>pthread_create\<close>; a negative one would undo the count.\<close>

definition onvm_nflib_scale :: "('q, 'mq, 'h) nf_env \<Rightarrow> nat \<Rightarrow> bool \<Rightarrow> ('q, 'mq, 'h) nf_run \<Rightarrow> (int \<times> ('q, 'mq, 'h) nf_run) option" where
  "onvm_nflib_scale env parent complete r =
     (if onvm_nflib_is_scale_info_valid complete < 0 then Some (- 1, r)
      else if parent \<ge> length (pk_nfs (nr_state r)) then None
      else
        let r1 = nr_upd (upd_nf parent (\<lambda>n. n\<lparr>nf_children_cnt := nf_children_cnt n + 1\<rparr>)) r in
        if ne_spawn env parent < 0
        then Some (- 1, nr_upd (upd_nf parent (\<lambda>n. n\<lparr>nf_children_cnt := nf_children_cnt n - 1\<rparr>)) r1)
        else Some (0, r1\<lparr>nr_spawned := nr_spawned r1 @ [parent]\<rparr>))"

definition onvm_nflib_handle_msg ::
  "('q, 'mq, 'h) nf_env \<Rightarrow> nat \<Rightarrow> nf_msg \<Rightarrow> ('q, 'mq, 'h) nf_run \<Rightarrow> ('q, 'mq, 'h) nf_run option" where
  "onvm_nflib_handle_msg env nf msg r =
     (case msg of
        MSG_STOP \<Rightarrow> Some (r\<lparr>nr_keep_running := False\<rparr>)
      | MSG_SCALE parent complete \<Rightarrow> map_option snd (onvm_nflib_scale env parent complete r)
      | MSG_FROM_NF data \<Rightarrow> Some (if ne_msg_handler env then r\<lparr>nr_delivered := nr_delivered r @ [data]\<rparr> else r)
      | MSG_CHANGE_CORE core ptr \<Rightarrow>
          if nf \<ge> length (pk_nfs (nr_state r)) then None
          else Some (nr_upd (upd_nf nf (\<lambda>n. n\<lparr>nf_core := core\<rparr>)) r\<lparr>nr_freed_data := nr_freed_data r @ [ptr]\<rparr>)
      | MSG_NOOP \<Rightarrow> Some r)"

definition onvm_nflib_dequeue_messages ::
  "('q, 'mq, 'h) nf_env \<Rightarrow> nat \<Rightarrow> ('q, 'mq, 'h) nf_run \<Rightarrow> ('q, 'mq, 'h) nf_run option" where
  "onvm_nflib_dequeue_messages env nf r =
     (if nf \<ge> length (pk_nfs (nr_state r)) then None
      else case nf_msg_q (pk_nfs (nr_state r) ! nf) of
        None \<Rightarrow> None
      | Some q \<Rightarrow>
          if ring_count (ne_msg_ring env) q = 0 then Some r
          else
            let (m, q1) = ring_dequeue (ne_msg_ring env) q;
                r1 = nr_upd (upd_nf nf (\<lambda>n. n\<lparr>nf_msg_q := Some q1\<rparr>)) r
            in (case m of
                  None \<Rightarrow> None
                | Some k \<Rightarrow> map_option (\<lambda>r2. r2\<lparr>nr_freed_msgs := nr_freed_msgs r2 @ [k]\<rparr>)
                    (onvm_nflib_handle_msg env nf (ne_msg_of env k) r1)))"

section \<open>The loop\<close>

definition TIME_TTL_MULTIPLIER :: u64 where "TIME_TTL_MULTIPLIER = 1"
definition PKT_TTL_MULTIPLIER :: u64 where "PKT_TTL_MULTIPLIER = 1000000"

text \<open>
  What an iteration observes: what others did to the shared state before it; whether the process's main context still
  runs (a signal clears it); if the NF sleeps, what others do until its semaphore is posted, with the sleep flag they leave; the
  answer of the user's action function if there is one; and the cycles since the loop started.
\<close>

record ('q, 'mq, 'h) nf_obs =
  no_other :: "('q, 'mq, 'h) pkt_state \<Rightarrow> ('q, 'mq, 'h) pkt_state"
  no_main_running :: bool
  no_asleep :: "('q, 'mq, 'h) pkt_state \<Rightarrow> bool \<times> ('q, 'mq, 'h) pkt_state"
  no_user_action :: "bool option"
  no_cycles :: u64

definition nf_sleep ::
  "('q, 'mq, 'h) nf_env \<Rightarrow> nat \<Rightarrow> ('q, 'mq, 'h) nf_obs \<Rightarrow> ('q, 'mq, 'h) nf_run \<Rightarrow> ('q, 'mq, 'h) nf_run option" where
  "nf_sleep env nf ob r =
     (if \<not> ne_share_cores env then Some r
      else if nf \<ge> length (pk_nfs (nr_state r)) then None
      else case (nf_rx_q (pk_nfs (nr_state r) ! nf), nf_msg_q (pk_nfs (nr_state r) ! nf)) of
        (Some q, Some mq) \<Rightarrow>
          if ring_count (pe_ring (ne_pkt env)) q = 0 \<and> ring_count (ne_msg_ring env) mq = 0
          then let (flag, s) = no_asleep ob (nr_state r)
               in Some (r\<lparr>nr_sleep_state := flag, nr_cfg := (fst (nr_cfg r), s)\<rparr>)
          else Some r
      | _ \<Rightarrow> None)"

text \<open>The conditions that end the loop, in the order of the code.\<close>

definition nf_limits :: "('q, 'mq, 'h) nf_env \<Rightarrow> nat \<Rightarrow> ('q, 'mq, 'h) nf_obs \<Rightarrow> ('q, 'mq, 'h) nf_run \<Rightarrow> ('q, 'mq, 'h) nf_run" where
  "nf_limits env nf ob r =
     (let n = pk_nfs (nr_state r) ! nf;
          k0 = nr_keep_running r;
          k1 = (case no_user_action ob of None \<Rightarrow> k0 | Some stop \<Rightarrow> \<not> stop \<and> k0);
          k2 = (if nf_time_to_live n \<noteq> 0 \<and> no_cycles ob * TIME_TTL_MULTIPLIER div ne_timer_hz env \<ge> ucast (nf_time_to_live n)
                then False else k1);
          k3 = (if nf_pkt_limit n \<noteq> 0 \<and> st_rx (nf_stats n) \<ge> ucast (nf_pkt_limit n) * PKT_TTL_MULTIPLIER then False else k2)
      in r\<lparr>nr_keep_running := k3\<rparr>)"

definition nf_iteration ::
  "('q, 'mq, 'h) nf_env \<Rightarrow> nat \<Rightarrow> ('q, 'mq, 'h) nf_obs \<Rightarrow> ('q, 'mq, 'h) nf_run \<Rightarrow> ('q, 'mq, 'h) nf_run option" where
  "nf_iteration env nf ob r = do {
     r1 \<leftarrow> nf_sleep env nf ob r;
     c \<leftarrow> nf_pkt_pass (ne_pkt env) (ne_handler env) nf (nr_cfg r1);
     r2 \<leftarrow> onvm_nflib_dequeue_messages env nf (r1\<lparr>nr_cfg := c\<rparr>);
     Some (nf_limits env nf ob r2) }"

text \<open>The loop over a list of observations: \<open>True\<close> when it has ended, \<open>False\<close> when it still runs.\<close>

primrec onvm_nflib_thread_main_loop ::
  "('q, 'mq, 'h) nf_env \<Rightarrow> nat \<Rightarrow> ('q, 'mq, 'h) nf_obs list \<Rightarrow> ('q, 'mq, 'h) nf_run \<Rightarrow> (bool \<times> ('q, 'mq, 'h) nf_run) option" where
  "onvm_nflib_thread_main_loop env nf [] r = Some (False, r)"
| "onvm_nflib_thread_main_loop env nf (ob # obs) r =
     (let r1 = nr_upd (no_other ob) r in
      if \<not> (nr_keep_running r1 \<and> no_main_running ob) then Some (True, r1)
      else Option.bind (nf_iteration env nf ob r1) (onvm_nflib_thread_main_loop env nf obs))"

section \<open>Conservation of packets\<close>

text \<open>What the handler may rely on: the NF's rings exist and its buffers have room.\<close>

definition nf_inv :: "('q, 'h) pkt_env \<Rightarrow> ('q \<Rightarrow> nat list) \<Rightarrow> ('q \<Rightarrow> nat) \<Rightarrow> nat \<Rightarrow> ('q, 'mq, 'h) pkt_cfg \<Rightarrow> bool" where
  "nf_inv env items room nf c \<longleftrightarrow> rte_ring (pe_ring env) items room \<and> nic_ok env \<and> cfg_ok (Some nf) c
     \<and> \<not> is_mgr (qm_side (fst c)) \<and> nf_rx_q (pk_nfs (snd c) ! nf) \<noteq> None"

text \<open>The packets of the next burst, with the buffers as the handler leaves them.\<close>

definition next_burst :: "('q \<Rightarrow> nat list) \<Rightarrow> nat \<Rightarrow> ('q, 'mq, 'h) pkt_state \<Rightarrow> nat list" where
  "next_burst items nf s = (case nf_rx_q (pk_nfs s ! nf) of None \<Rightarrow> [] | Some q \<Rightarrow> take PACKET_READ_SIZE (items q))"

definition handled :: "pkt_handler \<Rightarrow> nat list \<Rightarrow> ('q, 'mq, 'h) pkt_state \<Rightarrow> ('q, 'mq, 'h) pkt_state" where
  "handled h ps s = s\<lparr>pk_mbufs := (\<lambda>p. if p \<in> set ps then snd (h p (pk_mbufs s p)) else pk_mbufs s p)\<rparr>"

text \<open>
  A handler is admissible when the packets it is given are different ones and it leaves each with an action the packet paths can carry
  out; what it returns does not matter.
\<close>

definition nf_adm :: "('q, 'h) pkt_env \<Rightarrow> ('q \<Rightarrow> nat list) \<Rightarrow> nat \<Rightarrow> pkt_handler \<Rightarrow> ('q, 'mq, 'h) pkt_cfg \<Rightarrow> bool" where
  "nf_adm env items nf h c \<longleftrightarrow> (let ps = next_burst items nf (snd c) in
     distinct ps \<and> (\<forall>p \<in> set ps. sendable env (handled h ps (snd c)) False p))"

interpretation msg_q_frame: nf_frame nf_msg_q
  by unfold_locales simp_all

lemma run_handler_spec:
  assumes "distinct ps"
  shows "same_config s (snd (run_handler h nf ps s)) \<and> state_held items (snd (run_handler h nf ps s)) = state_held items s
    \<and> pk_mbufs (snd (run_handler h nf ps s)) = pk_mbufs (handled h ps s)
    \<and> nf_parts nf_msg_q (snd (run_handler h nf ps s)) = nf_parts nf_msg_q s"
  using assms
proof (induction ps arbitrary: s)
  case Nil
  then show ?case by (simp add: handled_def)
next
  case (Cons p ps)
  obtain a mb where h: "h p (pk_mbufs s p) = (a, mb)" by (metis surj_pair)
  let ?s1 = "s\<lparr>pk_mbufs := (pk_mbufs s)(p := mb)\<rparr>"
  define s2 where "s2 = (if a = 0 then ?s1 else upd_stats (Some nf) (\<lambda>t. t\<lparr>st_tx_buffer := st_tx_buffer t + 1\<rparr>) ?s1)"
  have c1: "same_config s ?s1" "state_held items ?s1 = state_held items s" "nf_parts nf_msg_q ?s1 = nf_parts nf_msg_q s"
    by (simp_all add: same_config_def state_held_def nf_parts_def)
  then have c2: "same_config s s2" "state_held items s2 = state_held items s" "pk_mbufs s2 = (pk_mbufs s)(p := mb)"
    "nf_parts nf_msg_q s2 = nf_parts nf_msg_q s"
    unfolding s2_def by (simp_all add: upd_stats_frame config_steps)
  have run: "snd (run_handler h nf (p # ps) s) = snd (run_handler h nf ps s2)"
    using h by (simp add: s2_def split_beta Let_def)
  have "pk_mbufs (handled h ps s2) = pk_mbufs (handled h (p # ps) s)"
    using c2(3) h Cons.prems by (auto simp: handled_def)
  then show ?case
    unfolding run using Cons.IH [of s2] Cons.prems c2 same_config_trans [OF c2(1)] by simp
qed

lemma enqueue_tx_spec:
  assumes ring: "rte_ring (pe_ring env) items room" and i: "nf < length (pk_nfs s)" and q: "nf_tx_q (pk_nfs s ! nf) = Some q"
    and b: "buf_wf b"
  shows "\<exists>b' s'. onvm_pkt_enqueue_tx_thread env b nf s = Some (b', s') \<and> buf_room b' \<and> buf_items b' = []
    \<and> state_held items s' = state_held items s + mset (buf_items b) \<and> same_config s s' \<and> pk_mbufs s' = pk_mbufs s"
proof (cases "pb_count b = 0")
  case True
  then show ?thesis using b by (simp add: onvm_pkt_enqueue_tx_thread_def buf_room_def buf_wf_def buf_items_def onvm_limits)
next
  case False
  obtain r q' where e: "ring_enqueue_bulk (pe_ring env) q (buf_items b) = (r, q')" by (metis surj_pair)
  have ne: "buf_items b \<noteq> []" using False b by (auto simp: buf_items_def buf_wf_def onvm_limits unat_eq_zero)
  let ?s2 = "s\<lparr>pk_nfs := (pk_nfs s)[nf := (pk_nfs s ! nf)\<lparr>nf_tx_q := Some q'\<rparr>]\<rparr>"
  let ?s3 = "account_tx r (buf_items b) (ucast (pb_count b)) nf ?s2"
  have "onvm_pkt_enqueue_tx_thread env b nf s = Some (b\<lparr>pb_count := 0\<rparr>, ?s3)"
    using False q e i by (simp add: onvm_pkt_enqueue_tx_thread_def Let_def)
  moreover have "state_held items ?s3 = state_held items s + mset (buf_items b)"
    by (rule mset_balance [OF state_held_tx_q [OF i q] enqueue_or_free [OF ring e ne]]) (simp add: account_frame)
  moreover have "same_config s ?s3" using same_config_trans [OF set_ring_config(2) [OF q] account_frame(5)] .
  ultimately show ?thesis using b by (simp add: buf_room_def buf_wf_def buf_items_def onvm_limits account_frame)
qed

lemma nf_side_of: "\<not> is_mgr q \<longleftrightarrow> (\<exists>b. q = NF_side b)"
  by (cases q) (simp_all add: is_mgr_def)

text \<open>Sending what the pass has collected: the NF's own buffer, then the batches for other NFs.\<close>

lemma nf_flush_spec:
  assumes ring: "rte_ring (pe_ring env) items room" and ok: "cfg_ok (Some nf) (qm, s)" and side: "qm_side qm = NF_side b"
  shows "\<exists>b1 s3 qm' s'. onvm_pkt_enqueue_tx_thread env b nf s = Some (b1, s3)
    \<and> onvm_pkt_flush_all_nfs env (Some nf) (qm\<lparr>qm_side := NF_side b1\<rparr>, s3) = Some (qm', s') \<and> cfg_ok (Some nf) (qm', s')
    \<and> same_config s s' \<and> held items (qm', s') = held items (qm, s) \<and> qm_side qm' = NF_side b1 \<and> buf_items b1 = []
    \<and> pk_mbufs s' = pk_mbufs s"
proof -
  have i: "nf < length (pk_nfs s)" and b: "buf_wf b" using ok side by (auto simp: cfg_ok_def side_ok_def tables_ok_def buf_wf_def buf_room_def)
  obtain q where q: "nf_tx_q (pk_nfs s ! nf) = Some q" using ok by (auto simp: cfg_ok_def)
  obtain b1 s3 where e: "onvm_pkt_enqueue_tx_thread env b nf s = Some (b1, s3)" "buf_room b1" "buf_items b1 = []"
    "state_held items s3 = state_held items s + mset (buf_items b)" "same_config s s3" "pk_mbufs s3 = pk_mbufs s"
    using enqueue_tx_spec [OF ring i q b] by blast
  let ?qm = "qm\<lparr>qm_side := NF_side b1\<rparr>"
  have ok1: "cfg_ok (Some nf) (?qm, s3)"
    using cfg_ok_config [OF ok e(5)] e(2) by (simp add: cfg_ok_def side_ok_def bufs_ok_def)
  then have "bufs_ok ?qm" "tables_ok s3" by (simp_all add: cfg_ok_def)
  from flush_nfs_spec [OF ring this, of "[0..<MAX_NFS]" "Some nf"] obtain qm' s' where
    f: "flush_nfs env [0..<MAX_NFS] (Some nf) (?qm, s3) = Some (qm', s')" "held items (qm', s') = held items (?qm, s3)"
      "bufs_ok qm'" "same_config s3 s'" "qm_side qm' = NF_side b1" "pk_mbufs s' = pk_mbufs s3" by auto
  have "cfg_ok (Some nf) (qm', s')" using cfg_ok_config [OF ok1 f(4)] f(3,5) by (simp add: cfg_ok_def)
  moreover have "held items (?qm, s3) = held items (qm, s)" using e(3,4) side by (simp add: held_def side_held_def ac_simps)
  ultimately show ?thesis using e f same_config_trans [OF e(5) f(4)] by (auto simp: onvm_pkt_flush_all_nfs_def)
qed

lemma nf_dequeue_spec:
  assumes inv: "nf_inv env items room nf (qm, s)" and adm: "nf_adm env items nf h (qm, s)"
  shows "\<exists>s1. onvm_nflib_dequeue_packets env h nf s = Some (next_burst items nf s, s1) \<and> same_config s s1
    \<and> held items (qm, s1) + mset (next_burst items nf s) = held items (qm, s)
    \<and> (\<forall>p \<in> set (next_burst items nf s). sendable env s1 False p) \<and> nf_parts nf_msg_q s1 = nf_parts nf_msg_q s
    \<and> (\<forall>p. p \<notin> set (next_burst items nf s) \<longrightarrow> pk_mbufs s1 p = pk_mbufs s p)"
proof -
  have ring: "rte_ring (pe_ring env) items room" and i: "nf < length (pk_nfs s)"
    using inv by (simp_all add: nf_inv_def cfg_ok_def tables_ok_def)
  obtain q where q: "nf_rx_q (pk_nfs s ! nf) = Some q" using inv by (auto simp: nf_inv_def)
  obtain ps q1 where d: "ring_dequeue_burst (pe_ring env) q PACKET_READ_SIZE = (ps, q1)" by (metis surj_pair)
  have ps: "next_burst items nf s = ps" "items q = ps @ items q1" using rte_ring.deq_burst [OF ring d] q by (simp_all add: next_burst_def)
  let ?s1 = "s\<lparr>pk_nfs := (pk_nfs s)[nf := (pk_nfs s ! nf)\<lparr>nf_rx_q := Some q1\<rparr>]\<rparr>"
  have c1: "same_config s ?s1" by (rule set_ring_config(1) [OF q])
  have "state_held items ?s1 + mset ps = state_held items s"
    using state_held_rx_q [OF i q, of items q1] ps(2) by (simp add: ac_simps)
  then have h1: "held items (qm, ?s1) + mset ps = held items (qm, s)" by (simp add: held_def ac_simps)
  have m1: "nf_parts nf_msg_q ?s1 = nf_parts nf_msg_q s" by simp
  show ?thesis
  proof (cases "ps = []")
    case True
    then show ?thesis using i q d ps c1 h1 by (simp add: onvm_nflib_dequeue_packets_def)
  next
    case False
    have dp: "distinct ps" and snd_ok: "\<forall>p \<in> set ps. sendable env (handled h ps s) False p"
      using adm ps(1) by (simp_all add: nf_adm_def Let_def)
    let ?s2 = "snd (run_handler h nf ps ?s1)"
    note r = run_handler_spec [OF dp, where s = ?s1 and h = h and nf = nf and items = items]
    have c2: "same_config s ?s2" using same_config_trans [OF c1] r by blast
    have "same_config (handled h ps s) ?s2" using c2 by (simp add: handled_def same_config_def)
    then have "sendable env ?s2 False p = sendable env (handled h ps s) False p" for p
      by (rule sendable_config) (use r in \<open>simp add: handled_def\<close>)
    moreover have "onvm_nflib_dequeue_packets env h nf s = Some (ps, ?s2)"
      using i q d False by (simp add: onvm_nflib_dequeue_packets_def ONVM_NF_HANDLE_TX_def Let_def split_beta)
    moreover have "held items (qm, ?s2) = held items (qm, ?s1)" using r by (simp add: held_def)
    moreover have "pk_mbufs ?s2 p = pk_mbufs s p" if "p \<notin> set ps" for p using r that by (simp add: handled_def)
    ultimately show ?thesis using c2 h1 snd_ok r m1 ps(1) by simp
  qed
qed

lemma nf_pass_spec:
  assumes inv: "nf_inv env items room nf (qm, s)" and adm: "nf_adm env items nf h (qm, s)"
  shows "\<exists>qm' s'. nf_pkt_pass env h nf (qm, s) = Some (qm', s') \<and> nf_inv env items room nf (qm', s')
    \<and> held items (qm', s') = held items (qm, s) \<and> side_held (qm_side qm') = {#} \<and> same_config s s'
    \<and> nf_parts nf_msg_q s' = nf_parts nf_msg_q s \<and> (\<forall>p. p \<notin> set (next_burst items nf s) \<longrightarrow> pk_mbufs s' p = pk_mbufs s p)"
proof -
  let ?ps = "next_burst items nf s"
  have ring: "rte_ring (pe_ring env) items room" and nic: "nic_ok env" and ok: "cfg_ok (Some nf) (qm, s)"
    and nm: "\<not> is_mgr (qm_side qm)" using inv by (simp_all add: nf_inv_def)
  obtain s1 where d: "onvm_nflib_dequeue_packets env h nf s = Some (?ps, s1)" "same_config s s1"
    "held items (qm, s1) + mset ?ps = held items (qm, s)" "\<forall>p \<in> set ?ps. sendable env s1 (is_mgr (qm_side qm)) p"
    "nf_parts nf_msg_q s1 = nf_parts nf_msg_q s" "\<forall>p. p \<notin> set ?ps \<longrightarrow> pk_mbufs s1 p = pk_mbufs s p"
    using nf_dequeue_spec [OF inv adm] nm by auto
  have dist: "distinct ?ps" using adm by (simp add: nf_adm_def Let_def)
  obtain qm2 s2 where b: "onvm_pkt_process_tx_batch env ?ps nf (qm, s1) = Some (qm2, s2)"
    "held items (qm2, s2) = held items (qm, s1) + mset ?ps" "cfg_ok (Some nf) (qm2, s2)" "same_config s1 s2"
    "\<forall>p. p \<notin> set ?ps \<longrightarrow> pk_mbufs s2 p = pk_mbufs s1 p"
    using tx_batch_takes [OF ring nic cfg_ok_config [OF ok d(2)] dist d(4)] by blast
  have fr: "tx_frame nf_msg_q (qm, s1) (qm2, s2)" by (rule msg_q_frame.tx_batch_frame [OF b(1)]) simp
  then have "\<not> is_mgr (qm_side qm2)" using nm by (auto simp: tx_frame_def thread_range_def is_mgr_def split: mgr_side.splits)
  then obtain b0 where side: "qm_side qm2 = NF_side b0" by (auto simp: nf_side_of)
  obtain b1 s3 qm' s' where f: "onvm_pkt_enqueue_tx_thread env b0 nf s2 = Some (b1, s3)"
    "onvm_pkt_flush_all_nfs env (Some nf) (qm2\<lparr>qm_side := NF_side b1\<rparr>, s3) = Some (qm', s')" "cfg_ok (Some nf) (qm', s')"
    "same_config s2 s'" "held items (qm', s') = held items (qm2, s2)" "qm_side qm' = NF_side b1" "buf_items b1 = []"
    "pk_mbufs s' = pk_mbufs s2"
    using nf_flush_spec [OF ring b(3) side] by blast
  have c: "same_config s s'" using d(2) b(4) f(4) same_config_trans by blast
  have "nf_parts nf_msg_q s3 = nf_parts nf_msg_q s2" by (rule msg_q_frame.enqueue_tx_frame [OF f(1)]) simp
  then have m: "nf_parts nf_msg_q s' = nf_parts nf_msg_q s"
    using msg_q_frame.flush_nfs_frame [OF f(2) [unfolded onvm_pkt_flush_all_nfs_def]] fr d(5) by (simp add: tx_frame_def)
  have "nf < length (pk_nfs s)" using ok by (simp add: cfg_ok_def tables_ok_def)
  then have "nf_inv env items room nf (qm', s')"
    using inv ring nic f(3,6) same_config_nf(2) [OF c] by (simp add: nf_inv_def is_mgr_def)
  moreover have "nf_pkt_pass env h nf (qm, s) = Some (qm', s')"
    using d(1) b(1) side f(1,2) by (cases "?ps = []") (simp_all add: nf_pkt_pass_def)
  ultimately show ?thesis using c m f(5-8) b(2,5) d(3,6) by (simp add: side_held_def)
qed

interpretation nf_loop: packet_loop "\<lambda>h. nf_pkt_pass env h nf" "nf_adm env items nf" "\<lambda>_ _. {#}" "nf_inv env items room nf" "held items"
  for env items room nf
proof
  fix c :: "('a, 'c, 'b) pkt_cfg" and h
  assume "nf_inv env items room nf c" "nf_adm env items nf h c"
  then show "\<exists>c'. nf_pkt_pass env h nf c = Some c' \<and> nf_inv env items room nf c' \<and> held items c' = held items c + {#}"
    using nf_pass_spec [of env items room nf "fst c" "snd c" h] by auto
qed

section \<open>Messages and the end of the loop\<close>

definition nf_msgs :: "('mq \<Rightarrow> nat list) \<Rightarrow> nat \<Rightarrow> ('q, 'mq, 'h) pkt_state \<Rightarrow> nat list" where
  "nf_msgs mitems nf s = (case nf_msg_q (pk_nfs s ! nf) of None \<Rightarrow> [] | Some q \<Rightarrow> mitems q)"

definition msg_ok :: "nf_msg \<Rightarrow> bool" where
  "msg_ok m = (case m of MSG_SCALE parent complete \<Rightarrow> parent < MAX_NFS | _ \<Rightarrow> True)"

definition nf_run_ok ::
  "('q, 'mq, 'h) nf_env \<Rightarrow> ('q \<Rightarrow> nat list) \<Rightarrow> ('q \<Rightarrow> nat) \<Rightarrow> ('mq \<Rightarrow> nat list) \<Rightarrow> ('mq \<Rightarrow> nat) \<Rightarrow> nat \<Rightarrow> ('q, 'mq, 'h) nf_run \<Rightarrow> bool" where
  "nf_run_ok env items room mitems mroom nf r \<longleftrightarrow> rte_ring (ne_msg_ring env) mitems mroom
     \<and> nf_inv (ne_pkt env) items room nf (nr_cfg r) \<and> nf_msg_q (pk_nfs (nr_state r) ! nf) \<noteq> None
     \<and> (\<forall>k \<in> set (nf_msgs mitems nf (nr_state r)). msg_ok (ne_msg_of env k))"

text \<open>
  What others may do to the shared state between two steps of the NF: they keep it well-formed and only append
  to its message ring. \<open>obs_ok\<close> asks this of the states a run goes through, and that the packets it finds there are admissible.
\<close>

definition others_ok ::
  "('q, 'mq, 'h) nf_env \<Rightarrow> ('q \<Rightarrow> nat list) \<Rightarrow> ('q \<Rightarrow> nat) \<Rightarrow> ('mq \<Rightarrow> nat list) \<Rightarrow> ('mq \<Rightarrow> nat) \<Rightarrow> nat
    \<Rightarrow> ('q, 'mq, 'h) nf_run \<Rightarrow> ('q, 'mq, 'h) nf_run \<Rightarrow> bool" where
  "others_ok env items room mitems mroom nf r r1 \<longleftrightarrow> nf_run_ok env items room mitems mroom nf r1
     \<and> prefix (nf_msgs mitems nf (nr_state r)) (nf_msgs mitems nf (nr_state r1))"

primrec obs_ok ::
  "('q, 'mq, 'h) nf_env \<Rightarrow> ('q \<Rightarrow> nat list) \<Rightarrow> ('q \<Rightarrow> nat) \<Rightarrow> ('mq \<Rightarrow> nat list) \<Rightarrow> ('mq \<Rightarrow> nat) \<Rightarrow> nat
    \<Rightarrow> ('q, 'mq, 'h) nf_obs list \<Rightarrow> ('q, 'mq, 'h) nf_run \<Rightarrow> bool" where
  "obs_ok env items room mitems mroom nf [] r \<longleftrightarrow> True"
| "obs_ok env items room mitems mroom nf (ob # obs) r \<longleftrightarrow>
     (let r1 = nr_upd (no_other ob) r in
      nr_keep_running r \<and> no_main_running ob \<longrightarrow>
        others_ok env items room mitems mroom nf r r1
        \<and> (case nf_sleep env nf ob r1 of None \<Rightarrow> False
           | Some r2 \<Rightarrow> others_ok env items room mitems mroom nf r1 r2
               \<and> nf_adm (ne_pkt env) items nf (ne_handler env) (nr_cfg r2))
        \<and> (case nf_iteration env nf ob r1 of None \<Rightarrow> True | Some r3 \<Rightarrow> obs_ok env items room mitems mroom nf obs r3))"

lemma upd_nf_frame:
  assumes "\<And>n. nf_status (f n) = nf_status n" "\<And>n. nf_rx_q (f n) = nf_rx_q n" "\<And>n. nf_tx_q (f n) = nf_tx_q n"
  shows "same_config s (upd_nf i f s)"
  using assms by (auto simp: upd_nf_def same_config_def nth_update_if)

lemma nf_inv_config:
  assumes "nf_inv env items room nf (qm, s)" "same_config s t"
  shows "nf_inv env items room nf (qm, t)"
proof -
  have "nf < length (pk_nfs s)" using assms(1) by (simp add: nf_inv_def cfg_ok_def tables_ok_def)
  then show ?thesis using assms cfg_ok_config [of "Some nf" qm s t] same_config_nf(2) [OF assms(2)] by (simp add: nf_inv_def)
qed

text \<open>A message changes counters of the NF table only, and a stop message ends the run.\<close>

lemma handle_msg_spec:
  assumes "msg_ok m" "length (pk_nfs (nr_state r)) = MAX_NFS" "nf < MAX_NFS"
  shows "\<exists>r'. onvm_nflib_handle_msg env nf m r = Some r' \<and> same_config (nr_state r) (nr_state r') \<and> fst (nr_cfg r') = fst (nr_cfg r)
    \<and> nf_parts nf_msg_q (nr_state r') = nf_parts nf_msg_q (nr_state r) \<and> (m = MSG_STOP \<longrightarrow> \<not> nr_keep_running r')"
proof (cases m)
  case (MSG_SCALE parent complete)
  then show ?thesis
    using assms by (auto simp: onvm_nflib_handle_msg_def onvm_nflib_scale_def onvm_nflib_is_scale_info_valid_def Let_def msg_ok_def
        nf_parts_def upd_nf_def map_update_same same_config_def nth_update_if)
next
  case (MSG_CHANGE_CORE core ptr)
  then show ?thesis
    using assms by (auto simp: onvm_nflib_handle_msg_def nf_parts_def upd_nf_def map_update_same same_config_def nth_update_if)
qed (simp_all add: onvm_nflib_handle_msg_def)

lemma nf_msgs_parts:
  assumes "nf_parts nf_msg_q t = nf_parts nf_msg_q s" "nf < length (pk_nfs s)"
  shows "nf_msg_q (pk_nfs t ! nf) = nf_msg_q (pk_nfs s ! nf)" "nf_msgs mitems nf t = nf_msgs mitems nf s"
proof -
  have "length (pk_nfs t) = length (pk_nfs s)" using assms(1) unfolding nf_parts_def by (metis length_map)
  then show e: "nf_msg_q (pk_nfs t ! nf) = nf_msg_q (pk_nfs s ! nf)"
    using assms unfolding nf_parts_def by (metis nth_map)
  then show "nf_msgs mitems nf t = nf_msgs mitems nf s" by (simp add: nf_msgs_def)
qed

lemma dequeue_messages_spec:
  assumes ok: "nf_run_ok env items room mitems mroom nf r"
  shows "\<exists>r'. onvm_nflib_dequeue_messages env nf r = Some r' \<and> nf_run_ok env items room mitems mroom nf r'
    \<and> nf_msgs mitems nf (nr_state r') = tl (nf_msgs mitems nf (nr_state r))
    \<and> (\<forall>k ks. nf_msgs mitems nf (nr_state r) = k # ks \<and> ne_msg_of env k = MSG_STOP \<longrightarrow> \<not> nr_keep_running r')"
proof -
  have ring: "rte_ring (ne_msg_ring env) mitems mroom" and inv: "nf_inv (ne_pkt env) items room nf (nr_cfg r)"
    and len: "length (pk_nfs (nr_state r)) = MAX_NFS" and i: "nf < MAX_NFS"
    using ok by (simp_all add: nf_run_ok_def nf_inv_def cfg_ok_def tables_ok_def)
  obtain q where q: "nf_msg_q (pk_nfs (nr_state r) ! nf) = Some q" using ok by (auto simp: nf_run_ok_def)
  have msgs: "nf_msgs mitems nf (nr_state r) = mitems q" using q by (simp add: nf_msgs_def)
  show ?thesis
  proof (cases "mitems q")
    case Nil
    then show ?thesis using ok q msgs len i rte_ring.count_items [OF ring, of q] by (simp add: onvm_nflib_dequeue_messages_def)
  next
    case (Cons k ks)
    obtain z q1 where d: "ring_dequeue (ne_msg_ring env) q = (z, q1)" by (metis surj_pair)
    then have z: "z = Some k" "mitems q1 = ks" using rte_ring.deq_one [OF ring d] Cons by simp_all
    let ?r1 = "nr_upd (upd_nf nf (\<lambda>n. n\<lparr>nf_msg_q := Some q1\<rparr>)) r"
    have c1: "same_config (nr_state r) (nr_state ?r1)" by (simp add: upd_nf_frame)
    have m1: "nf_msg_q (pk_nfs (nr_state ?r1) ! nf) = Some q1" using len i by (simp add: upd_nf_def)
    have mk: "msg_ok (ne_msg_of env k)" using ok msgs Cons by (simp add: nf_run_ok_def)
    have len1: "length (pk_nfs (nr_state ?r1)) = MAX_NFS" using len by (simp add: upd_nf_def)
    obtain r2 where h: "onvm_nflib_handle_msg env nf (ne_msg_of env k) ?r1 = Some r2" "same_config (nr_state ?r1) (nr_state r2)"
      "fst (nr_cfg r2) = fst (nr_cfg ?r1)" "nf_parts nf_msg_q (nr_state r2) = nf_parts nf_msg_q (nr_state ?r1)"
      "ne_msg_of env k = MSG_STOP \<longrightarrow> \<not> nr_keep_running r2"
      using handle_msg_spec [OF mk len1 i] by blast
    let ?r' = "r2\<lparr>nr_freed_msgs := nr_freed_msgs r2 @ [k]\<rparr>"
    have i1: "nf < length (pk_nfs (nr_state ?r1))" using len1 i by simp
    have m2: "nf_msg_q (pk_nfs (nr_state r2) ! nf) = Some q1" using nf_msgs_parts(1) [OF h(4) i1] m1 by simp
    have "nf_inv (ne_pkt env) items room nf (fst (nr_cfg r), nr_state r2)"
      by (rule nf_inv_config [OF _ same_config_trans [OF c1 h(2)]]) (simp add: inv)
    then have "nf_inv (ne_pkt env) items room nf (nr_cfg r2)" using h(3) by (cases "nr_cfg r2") simp
    moreover have msgs2: "nf_msgs mitems nf (nr_state ?r') = ks" using m2 z(2) by (simp add: nf_msgs_def)
    ultimately have "nf_run_ok env items room mitems mroom nf ?r'"
      using ok m2 msgs Cons by (simp add: nf_run_ok_def)
    moreover have "onvm_nflib_dequeue_messages env nf r = Some ?r'"
      using q d z h(1) len i Cons rte_ring.count_items [OF ring, of q] by (simp add: onvm_nflib_dequeue_messages_def)
    ultimately show ?thesis using h(5) msgs msgs2 Cons by simp
  qed
qed

lemma nf_iteration_spec:
  assumes sl: "nf_sleep env nf ob r = Some r2" and ok: "nf_run_ok env items room mitems mroom nf r2"
    and adm: "nf_adm (ne_pkt env) items nf (ne_handler env) (nr_cfg r2)"
  shows "\<exists>r'. nf_iteration env nf ob r = Some r' \<and> nf_run_ok env items room mitems mroom nf r'
    \<and> nf_msgs mitems nf (nr_state r') = tl (nf_msgs mitems nf (nr_state r2))
    \<and> (\<forall>k ks. nf_msgs mitems nf (nr_state r2) = k # ks \<and> ne_msg_of env k = MSG_STOP \<longrightarrow> \<not> nr_keep_running r')"
proof -
  obtain qm s where c: "nr_cfg r2 = (qm, s)" by (cases "nr_cfg r2")
  have inv: "nf_inv (ne_pkt env) items room nf (qm, s)" and i: "nf < length (pk_nfs s)"
    using ok c by (simp_all add: nf_run_ok_def nf_inv_def cfg_ok_def tables_ok_def)
  obtain qm' s' where p: "nf_pkt_pass (ne_pkt env) (ne_handler env) nf (qm, s) = Some (qm', s')"
    "nf_inv (ne_pkt env) items room nf (qm', s')" "nf_parts nf_msg_q s' = nf_parts nf_msg_q s"
    using nf_pass_spec [OF inv adm [unfolded c]] by blast
  let ?r3 = "r2\<lparr>nr_cfg := (qm', s')\<rparr>"
  note m = nf_msgs_parts [OF p(3) i]
  have "nf_run_ok env items room mitems mroom nf ?r3" using ok p(2) m c by (simp add: nf_run_ok_def)
  from dequeue_messages_spec [OF this] obtain r4 where
    d: "onvm_nflib_dequeue_messages env nf ?r3 = Some r4" "nf_run_ok env items room mitems mroom nf r4"
      "nf_msgs mitems nf (nr_state r4) = tl (nf_msgs mitems nf s)"
      "\<forall>k ks. nf_msgs mitems nf s = k # ks \<and> ne_msg_of env k = MSG_STOP \<longrightarrow> \<not> nr_keep_running r4"
    using m by auto
  have "nr_cfg (nf_limits env nf ob r4) = nr_cfg r4" "\<not> nr_keep_running r4 \<Longrightarrow> \<not> nr_keep_running (nf_limits env nf ob r4)"
    by (auto simp: nf_limits_def Let_def split: option.splits)
  moreover have "nf_iteration env nf ob r = Some (nf_limits env nf ob r4)"
    using sl p(1) d(1) c by (simp add: nf_iteration_def)
  ultimately show ?thesis using d(2-) c by (auto simp: nf_run_ok_def)
qed

lemma prefix_index:
  assumes "prefix xs ys" "k < length xs"
  shows "k < length ys" "ys ! k = xs ! k"
  using assms by (auto simp: prefix_def nth_append)

section \<open>Properties\<close>


text \<open>
  C15. A stop message ends the loop of an NF: if it is the \<open>k\<close>-th message of the NF's ring and others only append to the ring, the
  loop has ended after at most \<open>k + 2\<close> checks of its condition, and every iteration on the way returns.
\<close>

theorem stop_message_ends_nf_loop:
  assumes "nf_run_ok env items room mitems mroom nf r" and "obs_ok env items room mitems mroom nf obs r"
    and "k < length (nf_msgs mitems nf (nr_state r))" and "ne_msg_of env (nf_msgs mitems nf (nr_state r) ! k) = MSG_STOP"
    and "k + 2 \<le> length obs"
  shows "\<exists>r'. onvm_nflib_thread_main_loop env nf obs r = Some (True, r')"
  using assms
proof (induction obs arbitrary: r k)
  case Nil
  then show ?case by simp
next
  case (Cons ob obs)
  let ?r1 = "nr_upd (no_other ob) r" and ?ms = "\<lambda>r. nf_msgs mitems nf (nr_state r)"
  show ?case
  proof (cases "nr_keep_running r \<and> no_main_running ob")
    case False
    then show ?thesis by (auto simp: Let_def)
  next
    case True
    obtain r2 where r2: "nf_sleep env nf ob ?r1 = Some r2" "others_ok env items room mitems mroom nf ?r1 r2"
      "nf_adm (ne_pkt env) items nf (ne_handler env) (nr_cfg r2)" and o1: "others_ok env items room mitems mroom nf r ?r1"
      using Cons.prems(2) True by (auto simp: Let_def split: option.splits)
    then have ok2: "nf_run_ok env items room mitems mroom nf r2" and "prefix (?ms r) (?ms r2)"
      using prefix_order.trans by (auto simp: others_ok_def)
    note ix = prefix_index [OF this(2) Cons.prems(3)]
    obtain r3 where r3: "nf_iteration env nf ob ?r1 = Some r3" "nf_run_ok env items room mitems mroom nf r3" "?ms r3 = tl (?ms r2)"
      "\<forall>k ks. ?ms r2 = k # ks \<and> ne_msg_of env k = MSG_STOP \<longrightarrow> \<not> nr_keep_running r3"
      using nf_iteration_spec [OF r2(1) ok2 r2(3)] by blast
    have rest: "obs_ok env items room mitems mroom nf obs r3" using Cons.prems(2) True r3(1) by (simp add: Let_def)
    have go: "onvm_nflib_thread_main_loop env nf (ob # obs) r = onvm_nflib_thread_main_loop env nf obs r3"
      using True r3(1) by simp
    show ?thesis
    proof (cases k)
      case 0
      then have "\<not> nr_keep_running r3" using r3(4) ix Cons.prems(4) by (cases "?ms r2") simp_all
      then show ?thesis using Cons.prems(5) go by (cases obs) (simp_all add: Let_def)
    next
      case (Suc j)
      then have "j < length (?ms r3)" "?ms r3 ! j = ?ms r ! k" using r3(3) ix by (simp_all add: nth_tl)
      then show ?thesis using Cons.IH [OF r3(2) rest, of j] Cons.prems(4,5) Suc go by simp
    qed
  qed
qed

section \<open>A concrete NF\<close>

definition demo_handler :: pkt_handler where
  "demo_handler p mb = (if p = 9 then 1 else 0, mb\<lparr>mb_meta := (mb_meta mb)\<lparr>action := ONVM_NF_ACTION_OUT, destination := 0\<rparr>\<rparr>)"

definition demo_nf_state :: "(nat list_ring, nat list_ring, (onvm_ft_ipv4_5tuple \<times> nat) list) pkt_state" where
  "demo_nf_state = demo_pkt_state\<lparr>pk_nfs := (pk_nfs demo_pkt_state)
     [1 := (demo_nf 1)\<lparr>nf_rx_q := Some \<lparr>lr_items = [7, 9], lr_room = 6\<rparr>, nf_msg_q := Some \<lparr>lr_items = [0], lr_room = 3\<rparr>\<rparr>]\<rparr>"

definition demo_nf_qm :: queue_mgr where
  "demo_nf_qm = demo_qm\<lparr>qm_side := NF_side \<lparr>pb_buffer = replicate 32 0, pb_count = 0\<rparr>\<rparr>"

definition demo_nf_env :: "(nat list_ring, nat list_ring, (onvm_ft_ipv4_5tuple \<times> nat) list) nf_env" where
  "demo_nf_env = \<lparr>ne_pkt = demo_pkt_env, ne_msg_ring = list_ring_api, ne_msg_of = (\<lambda>_. MSG_STOP), ne_handler = demo_handler,
     ne_msg_handler = False, ne_spawn = (\<lambda>_. 0), ne_share_cores = True, ne_timer_hz = 1000\<rparr>"

definition demo_nf_run :: "(nat list_ring, nat list_ring, (onvm_ft_ipv4_5tuple \<times> nat) list) nf_run" where
  "demo_nf_run = \<lparr>nr_keep_running = True, nr_sleep_state = False, nr_cfg = (demo_nf_qm, demo_nf_state), nr_freed_msgs = [],
     nr_freed_data = [], nr_spawned = [], nr_delivered = []\<rparr>"

definition demo_nf_obs :: "(nat list_ring, nat list_ring, (onvm_ft_ipv4_5tuple \<times> nat) list) nf_obs" where
  "demo_nf_obs = \<lparr>no_other = (\<lambda>s. s), no_main_running = True, no_asleep = (\<lambda>s. (False, s)), no_user_action = None, no_cycles = 0\<rparr>"

lemma demo_nf_inv: "nf_inv demo_pkt_env lr_items lr_room 1 (demo_nf_qm, demo_nf_state)"
proof -
  have c: "same_config demo_pkt_state demo_nf_state"
    by (auto simp: same_config_def demo_nf_state_def demo_pkt_state_def demo_nf_def nth_update_if nth_Cons')
  have "cfg_ok (Some 1) (demo_nf_qm, demo_pkt_state)"
    using demo_tx(2) by (simp add: cfg_ok_def side_ok_def demo_nf_qm_def bufs_ok_def buf_room_def onvm_limits)
  then show ?thesis
    using demo_ring demo_tx(1) cfg_ok_config [OF _ c]
    by (simp add: nf_inv_def) (simp add: demo_nf_qm_def is_mgr_def demo_nf_state_def demo_pkt_state_def)
qed

lemma demo_nf_adm: "nf_adm demo_pkt_env lr_items 1 demo_handler (demo_nf_qm, demo_nf_state)"
  by (simp add: nf_adm_def next_burst_def demo_nf_state_def demo_pkt_state_def onvm_limits handled_def sendable_def meta_of_def demo_handler_def Let_def)


lemma demo_nf_run_ok: "nf_run_ok demo_nf_env lr_items lr_room lr_items lr_room 1 demo_nf_run"
  and demo_nf_msgs: "nf_msgs lr_items 1 (nr_state demo_nf_run) = [0]"
  and demo_nf_obs_ok: "obs_ok demo_nf_env lr_items lr_room lr_items lr_room 1 [demo_nf_obs, demo_nf_obs] demo_nf_run"
proof -
  have q: "nf_msg_q (pk_nfs demo_nf_state ! 1) = Some \<lparr>lr_items = [0], lr_room = 3\<rparr>" by (simp add: demo_nf_state_def demo_pkt_state_def)
  then show msgs: "nf_msgs lr_items 1 (nr_state demo_nf_run) = [0]" by (simp add: nf_msgs_def demo_nf_run_def)
  show ok: "nf_run_ok demo_nf_env lr_items lr_room lr_items lr_room 1 demo_nf_run"
    using demo_nf_inv q msgs by (simp add: nf_run_ok_def list_ring.rte_ring_axioms demo_nf_env_def demo_nf_run_def msg_ok_def)
  have same: "nr_upd (no_other demo_nf_obs) demo_nf_run = demo_nf_run" by (simp add: demo_nf_obs_def demo_nf_run_def)
  have "nf_rx_q (pk_nfs demo_nf_state ! 1) = Some \<lparr>lr_items = [7, 9], lr_room = 6\<rparr>" "1 < length (pk_nfs demo_nf_state)"
    by (simp_all add: demo_nf_state_def demo_pkt_state_def)
  then have sl: "nf_sleep demo_nf_env 1 demo_nf_obs demo_nf_run = Some demo_nf_run"
    using q by (simp add: nf_sleep_def demo_nf_run_def demo_nf_env_def demo_pkt_env_def list_ring_api_def)
  have adm: "nf_adm (ne_pkt demo_nf_env) lr_items 1 (ne_handler demo_nf_env) (nr_cfg demo_nf_run)"
    using demo_nf_adm by (simp add: demo_nf_env_def demo_nf_run_def)
  obtain r' where r': "nf_iteration demo_nf_env 1 demo_nf_obs demo_nf_run = Some r'" "\<not> nr_keep_running r'"
    using nf_iteration_spec [OF sl ok adm] msgs by (auto simp: demo_nf_env_def)
  show "obs_ok demo_nf_env lr_items lr_room lr_items lr_room 1 [demo_nf_obs, demo_nf_obs] demo_nf_run"
    using ok r' sl adm by (simp add: Let_def same others_ok_def)
qed

theorem stop_message_ends_nf_loop_witness:
  "\<exists>r'. onvm_nflib_thread_main_loop demo_nf_env 1 [demo_nf_obs, demo_nf_obs] demo_nf_run = Some (True, r')"
  by (rule stop_message_ends_nf_loop [OF demo_nf_run_ok demo_nf_obs_ok, of 0])
    (unfold demo_nf_msgs, simp_all add: demo_nf_env_def)

end
