(* ===== verification/NfClient.thy ===== *)
theory NfClient
  imports NfLifetime NfLoop
begin

text \<open>
  The NF library's side of the life cycle (\<^verbatim>\<open>onvm_nflib.c\<close>): starting an NF, telling the manager that it is
  ready, messages to other NFs, requests, and stopping. The library shares the NF table, the message pool and the
  manager's message ring with the manager; what the manager and others do while the library sleeps is a list of turns, functions of that
  shared state. \<^verbatim>\<open>rte_exit\<close>, undefined behaviour and a wait that the given turns do not end are the values of
  \<open>nl_fail\<close>.
\<close>

section \<open>State\<close>

datatype nl_fail = Nl_Exit | Nl_Bad | Nl_Waiting

record nf_local_ctx =
  lc_nf :: "nat option"
  lc_nf_init_finished :: bool
  lc_keep_running :: bool
  lc_nf_stopped :: bool

text \<open>\<^verbatim>\<open>nf->nf_tx_mgr\<close>: null, a structure that was freed, or one with its two buffers.\<close>

datatype tx_mgr_ptr = Tx_Null | Tx_Freed | Tx_Live

text \<open>A pointer to a context, which is freed when the NF has been stopped.\<close>

datatype ctx_ptr = Ctx_Null | Ctx_Live nf_local_ctx | Ctx_Freed

text \<open>A message object holds a message for the manager or one for an NF; the manager ignores the latter.\<close>

datatype msg_content = To_Mgr mgr_msg | To_NF nf_msg

definition mgr_content :: "msg_content \<Rightarrow> mgr_msg" where
  "mgr_content c = (case c of To_Mgr m \<Rightarrow> m | To_NF m \<Rightarrow> Msg_Other)"

text \<open>
  What the processes share besides the manager's tables: what message objects contain and which are in the pool (its head is the next it hands out), start-up
  structures given back, and per NF the parts of \<^verbatim>\<open>struct onvm_nf\<close> that only the library uses.
\<close>

record ('q, 'mq) shared =
  sh_mgr :: "('q, 'mq) mgr_state"
  sh_msgs :: "nat \<Rightarrow> msg_content"
  sh_pool :: "nat list"
  sh_cfg_puts :: "nat list"
  sh_tx_mgr :: "nat \<Rightarrow> tx_mgr_ptr"
  sh_data :: "nat \<Rightarrow> bool"
  sh_function_table :: "nat \<Rightarrow> bool"
  sh_sleeping :: "nat \<Rightarrow> bool"

type_synonym ('q, 'mq) turn = "('q, 'mq) shared \<Rightarrow> ('q, 'mq) shared"

abbreviation upd_mgr :: "(('q, 'mq) mgr_state \<Rightarrow> ('q, 'mq) mgr_state) \<Rightarrow> ('q, 'mq) turn" where
  "upd_mgr f w \<equiv> w\<lparr>sh_mgr := f (sh_mgr w)\<rparr>"

definition onvm_nflib_init_nf_local_ctx :: nf_local_ctx where
  "onvm_nflib_init_nf_local_ctx = \<lparr>lc_nf = None, lc_nf_init_finished = False, lc_keep_running = True, lc_nf_stopped = False\<rparr>"

text \<open>
  A turn of the manager: it handles the messages that are there, with the contents they have now, and gives the objects back to the
  pool. \<open>manager\<close> makes a turn of the shared state out of it, in which a manager that has exited changes nothing.
\<close>

definition mgr_turn :: "('q, 'mq) mgr_env \<Rightarrow> ('q, 'mq) shared \<Rightarrow> mgr_fail + ('q, 'mq) shared" where
  "mgr_turn env w =
     (case onvm_nf_check_status (env\<lparr>me_msg_of := mgr_content \<circ> sh_msgs w\<rparr>) (sh_mgr w) of
        Inl e \<Rightarrow> Inl e
      | Inr s \<Rightarrow> Inr (w\<lparr>sh_mgr := s, sh_pool := rev (drop (length (freed_msgs (sh_mgr w))) (freed_msgs s)) @ sh_pool w\<rparr>))"

definition manager :: "('q, 'mq) mgr_env \<Rightarrow> ('q, 'mq) turn" where
  "manager env w = (case mgr_turn env w of Inl e \<Rightarrow> w | Inr w1 \<Rightarrow> w1)"

section \<open>Messages\<close>

text \<open>A message object from the pool, filled and put on the manager's ring; a refused one goes back to the pool.\<close>

definition send_mgr_msg :: "('q, 'mq) mgr_env \<Rightarrow> mgr_msg \<Rightarrow> ('q, 'mq) shared \<Rightarrow> int \<times> ('q, 'mq) shared" where
  "send_mgr_msg env msg w =
     (case sh_pool w of
        [] \<Rightarrow> (- ENOENT, w)
      | m # pool \<Rightarrow>
          let (r, q) = ring_enqueue (me_msg_ring env) (incoming_msg_queue (sh_mgr w)) m;
              w1 = upd_mgr (\<lambda>s. s\<lparr>incoming_msg_queue := q\<rparr>) (w\<lparr>sh_msgs := (sh_msgs w)(m := To_Mgr msg), sh_pool := pool\<rparr>)
          in if r < 0 then (r, w1\<lparr>sh_pool := m # pool\<rparr>) else (0, w1))"

definition onvm_nflib_send_msg_to_nf ::
  "('q, 'mq) mgr_env \<Rightarrow> u16 \<Rightarrow> nat \<Rightarrow> ('q, 'mq) shared \<Rightarrow> (int \<times> ('q, 'mq) shared) option" where
  "onvm_nflib_send_msg_to_nf env dest data w =
     (case sh_pool w of
        [] \<Rightarrow> Some (- ENOENT, w)
      | m # pool \<Rightarrow>
          let w1 = w\<lparr>sh_msgs := (sh_msgs w)(m := To_NF (MSG_FROM_NF data)), sh_pool := pool\<rparr>; s = sh_mgr w in
          Option.bind (onvm_sc_service_to_nf_map (services s) (nf_per_service_count s) dest None) (\<lambda>i.
            if unat i \<ge> length (nfs s) then None
            else case nf_msg_q (nfs s ! unat i) of
              None \<Rightarrow> None
            | Some q \<Rightarrow>
                let (r, q1) = ring_enqueue (me_msg_ring env) q m;
                    w2 = upd_mgr (update_nf (unat i) (\<lambda>n. n\<lparr>nf_msg_q := Some q1\<rparr>)) w1
                in Some (if r \<noteq> 0 then (r, w2\<lparr>sh_pool := m # pool\<rparr>) else (0, w2))))"

section \<open>Start\<close>

abbreviation ONVM_SIGNAL_TERMINATION :: int where "ONVM_SIGNAL_TERMINATION \<equiv> - 999"
abbreviation NF_TERM_INIT_ITER_TIMES :: nat where "NF_TERM_INIT_ITER_TIMES \<equiv> 3"
abbreviation NF_TERM_STOP_ITER_TIMES :: nat where "NF_TERM_STOP_ITER_TIMES \<equiv> 10"

text \<open>\<^verbatim>\<open>onvm_nflib_nf_tx_mgr_init\<close> on the outcomes of its three allocations.\<close>

definition onvm_nflib_nf_tx_mgr_init :: "bool \<times> bool \<times> bool \<Rightarrow> nat \<Rightarrow> ('q, 'mq) turn" where
  "onvm_nflib_nf_tx_mgr_init allocs nf w = (case allocs of (mgr, to_tx, rx_bufs) \<Rightarrow>
     w\<lparr>sh_tx_mgr := (sh_tx_mgr w)(nf := if \<not> mgr then Tx_Null else if \<not> to_tx \<or> \<not> rx_bufs then Tx_Freed else Tx_Live)\<rparr>)"

text \<open>
  The two waits of \<^verbatim>\<open>onvm_nflib_start_nf\<close>: for an answer, and after a signal for at most three turns. A turn of the first wait comes
  with whether a signal has arrived by its end.
\<close>

definition cfg_status :: "('q, 'mq) shared \<Rightarrow> nat \<Rightarrow> u8 option" where
  "cfg_status w p = map_option ic_status (init_cfgs (sh_mgr w) p)"

primrec wait_starting :: "nat \<Rightarrow> nat \<Rightarrow> ('q, 'mq) turn list \<Rightarrow> ('q, 'mq) shared \<Rightarrow> nl_fail + ('q, 'mq) shared" where
  "wait_starting p 0 ts w = Inr w"
| "wait_starting p (Suc n) ts w =
     (if cfg_status w p = Some NF_STARTING then Inr w
      else case ts of [] \<Rightarrow> Inl Nl_Waiting | t # ts' \<Rightarrow> wait_starting p n ts' (t w))"

primrec wait_for_id ::
  "nat \<Rightarrow> (bool \<times> ('q, 'mq) turn) list \<Rightarrow> nf_local_ctx \<times> ('q, 'mq) shared
    \<Rightarrow> nl_fail + (bool \<times> nf_local_ctx \<times> ('q, 'mq) shared)" where
  "wait_for_id p [] = (\<lambda>(ctx, w). if cfg_status w p = Some NF_WAITING_FOR_ID then Inl Nl_Waiting else Inr (True, ctx, w))"
| "wait_for_id p (ob # obs) = (\<lambda>(ctx, w).
     if cfg_status w p \<noteq> Some NF_WAITING_FOR_ID then Inr (True, ctx, w)
     else
       let w1 = snd ob w; ctx1 = (if fst ob then ctx\<lparr>lc_keep_running := False\<rparr> else ctx) in
       if lc_keep_running ctx1 then wait_for_id p obs (ctx1, w1)
       else case wait_starting p NF_TERM_INIT_ITER_TIMES (map snd obs) w1 of
         Inl e \<Rightarrow> Inl e
       | Inr w2 \<Rightarrow>
           (case init_cfgs (sh_mgr w2) p of
              Some ic \<Rightarrow> Inr (False, if ic_status ic = NF_STARTING
                then ctx1\<lparr>lc_nf := Some (unat (ic_instance_id ic)), lc_nf_init_finished := True\<rparr> else ctx1, w2)
            | None \<Rightarrow> Inl Nl_Bad))"

definition start_error :: "u8 \<Rightarrow> int option" where
  "start_error st =
     (if st \<in> {NF_ID_CONFLICT, NF_SERVICE_MAX, NF_SERVICE_COUNT_MAX, NF_NO_IDS, NF_NO_CORES, NF_NO_DEDICATED_CORES,
               NF_CORE_OUT_OF_RANGE, NF_CORE_BUSY}
      then Some (- int (unat st)) else if st \<noteq> NF_STARTING then Some (- 1) else None)"

text \<open>
  \<^verbatim>\<open>onvm_nflib_start_nf\<close>: \<open>mask_ok\<close> is the success of \<^verbatim>\<open>pthread_sigmask\<close>, \<open>p\<close> the start-up structure, \<open>allocs\<close> the
  outcomes of the allocations for the TX manager, and \<open>share\<close> whether cores are shared and then whether the NF's semaphore and sleep flag could be opened.
\<close>

definition onvm_nflib_start_nf ::
  "('q, 'mq) mgr_env \<Rightarrow> bool \<Rightarrow> bool option \<Rightarrow> bool \<times> bool \<times> bool \<Rightarrow> (bool \<times> ('q, 'mq) turn) list \<Rightarrow> nat \<Rightarrow> nf_local_ctx \<times> ('q, 'mq) shared
    \<Rightarrow> nl_fail + (int \<times> nf_local_ctx \<times> ('q, 'mq) shared)" where
  "onvm_nflib_start_nf env mask_ok share allocs obs p = (\<lambda>(ctx, w).
     if \<not> mask_ok then Inr (- 1, ctx, w)
     else if \<not> lc_keep_running ctx then Inr (ONVM_SIGNAL_TERMINATION, ctx, w)
     else
       let (r, w1) = send_mgr_msg env (Msg_NF_Starting (Some p)) w in
       if r < 0 then Inl Nl_Exit
       else case wait_for_id p obs (ctx, w1) of
         Inl e \<Rightarrow> Inl e
       | Inr (answered, ctx2, w2) \<Rightarrow>
           if \<not> answered then Inr (ONVM_SIGNAL_TERMINATION, ctx2, w2)
           else (case init_cfgs (sh_mgr w2) p of
              None \<Rightarrow> Inl Nl_Bad
            | Some ic \<Rightarrow>
                let w3 = w2\<lparr>sh_cfg_puts := sh_cfg_puts w2 @ [p]\<rparr>; i = unat (ic_instance_id ic) in
                (case start_error (ic_status ic) of
                   Some e \<Rightarrow> Inr (e, ctx2, w3)
                 | None \<Rightarrow>
                     if i \<ge> length (nfs (sh_mgr w2)) then Inl Nl_Bad
                     else
                       let ctx3 = (if lc_nf_init_finished ctx2 then ctx2
                                   else ctx2\<lparr>lc_nf := Some i, lc_nf_init_finished := True\<rparr>);
                           w4 = onvm_nflib_nf_tx_mgr_init allocs i w3;
                           w5 = upd_mgr (update_nf i (\<lambda>n. n\<lparr>nf_parent := 0, nf_children_cnt := 0\<rparr>)) w4
                       in if share = Some False then Inl Nl_Exit
                          else Inr (0, ctx3, w5\<lparr>sh_function_table := (sh_function_table w5)(i := False)\<rparr>))))"

section \<open>Ready\<close>

primrec wait_running :: "nat \<Rightarrow> ('q, 'mq) turn list \<Rightarrow> ('q, 'mq) shared \<Rightarrow> nl_fail + ('q, 'mq) shared" where
  "wait_running i [] w = (if nf_status (nfs (sh_mgr w) ! i) \<noteq> NF_RUNNING then Inl Nl_Waiting else Inr w)"
| "wait_running i (t # ts) w = (if nf_status (nfs (sh_mgr w) ! i) \<noteq> NF_RUNNING then wait_running i ts (t w) else Inr w)"

definition onvm_nflib_nf_ready ::
  "('q, 'mq) mgr_env \<Rightarrow> ('q, 'mq) turn list \<Rightarrow> nat \<Rightarrow> ('q, 'mq) shared \<Rightarrow> nl_fail + (int \<times> ('q, 'mq) shared)" where
  "onvm_nflib_nf_ready env ts i w =
     (let (r, w1) = send_mgr_msg env (Msg_NF_Ready i) w in
      if r \<noteq> 0 then Inr (r, w1)
      else case wait_running i ts w1 of Inl e \<Rightarrow> Inl e | Inr w2 \<Rightarrow> Inr (0, w2))"

section \<open>Requests\<close>

abbreviation NF_WAITING_FOR_LPM :: int where "NF_WAITING_FOR_LPM \<equiv> 13"
abbreviation NF_WAITING_FOR_FT :: int where "NF_WAITING_FOR_FT \<equiv> 14"

primrec wait_answer :: "int \<Rightarrow> nat \<Rightarrow> ('q, 'mq) turn list \<Rightarrow> ('q, 'mq) shared \<Rightarrow> nl_fail + ('q, 'mq) shared" where
  "wait_answer code r [] w = (if request_status (sh_mgr w) r = code then Inl Nl_Waiting else Inr w)"
| "wait_answer code r (t # ts) w = (if request_status (sh_mgr w) r = code then wait_answer code r ts (t w) else Inr w)"

text \<open>
  The common part of \<^verbatim>\<open>onvm_nflib_request_lpm\<close> and \<^verbatim>\<open>onvm_nflib_request_ft\<close>: the message is sent, then (others may have
  run in between, \<open>early\<close>) the request is marked as waiting, then the answer is awaited and the message object given back.
\<close>

definition mgr_request ::
  "('q, 'mq) mgr_env \<Rightarrow> mgr_msg \<Rightarrow> int \<Rightarrow> nat \<Rightarrow> ('q, 'mq) turn \<Rightarrow> ('q, 'mq) turn list \<Rightarrow> ('q, 'mq) shared
    \<Rightarrow> nl_fail + (int \<times> ('q, 'mq) shared)" where
  "mgr_request env msg code r early ts w =
     (let (ret, w1) = send_mgr_msg env msg w in
      if ret \<noteq> 0 then Inr (ret, w1)
      else
        let w2 = upd_mgr (\<lambda>s. s\<lparr>request_status := (request_status s)(r := code)\<rparr>) (early w1) in
        (case wait_answer code r ts w2 of
           Inl e \<Rightarrow> Inl e
         | Inr w3 \<Rightarrow> Inr (request_status (sh_mgr w3) r, w3\<lparr>sh_pool := hd (sh_pool w) # sh_pool w3\<rparr>)))"

definition onvm_nflib_request_lpm ::
  "('q, 'mq) mgr_env \<Rightarrow> nat \<Rightarrow> ('q, 'mq) turn \<Rightarrow> ('q, 'mq) turn list \<Rightarrow> ('q, 'mq) shared \<Rightarrow> nl_fail + (int \<times> ('q, 'mq) shared)" where
  "onvm_nflib_request_lpm env r = mgr_request env (Msg_Request_LPM r) NF_WAITING_FOR_LPM r"

text \<open>\<^verbatim>\<open>onvm_nflib_request_ft\<close> allocates its request; with an empty pool it gives back an object it never got.\<close>

definition onvm_nflib_request_ft ::
  "('q, 'mq) mgr_env \<Rightarrow> nat option \<Rightarrow> ('q, 'mq) turn \<Rightarrow> ('q, 'mq) turn list \<Rightarrow> ('q, 'mq) shared \<Rightarrow> nl_fail + (int \<times> ('q, 'mq) shared)" where
  "onvm_nflib_request_ft env req early ts w =
     (case req of
        None \<Rightarrow> Inr (- 1, w)
      | Some r \<Rightarrow> if sh_pool w = [] then Inl Nl_Bad else mgr_request env (Msg_Request_FT r) NF_WAITING_FOR_FT r early ts w)"

section \<open>Stop\<close>

text \<open>Waking the children of an NF, and waiting for them in at most ten turns.\<close>

definition wake_children :: "bool \<Rightarrow> nat \<Rightarrow> ('q, 'mq) turn" where
  "wake_children share_cores nf w =
     (let s = sh_mgr w in
      w\<lparr>sh_sleeping := (\<lambda>i. if i < MAX_NFS \<and> nf_parent (nfs s ! i) = nf_instance_id (nfs s ! nf)
           \<and> onvm_nf_is_valid (nfs s ! i) \<and> share_cores then False else sh_sleeping w i)\<rparr>)"

primrec terminate_loop :: "bool \<Rightarrow> nat \<Rightarrow> nat \<Rightarrow> ('q, 'mq) turn list \<Rightarrow> ('q, 'mq) shared \<Rightarrow> nl_fail + ('q, 'mq) shared" where
  "terminate_loop share_cores nf 0 ts w = Inr w"
| "terminate_loop share_cores nf (Suc n) ts w =
     (if sint (nf_children_cnt (nfs (sh_mgr w) ! nf)) > 0
      then case ts of [] \<Rightarrow> Inl Nl_Waiting | t # ts' \<Rightarrow> terminate_loop share_cores nf n ts' (t (wake_children share_cores nf w))
      else Inr w)"

definition onvm_nflib_terminate_children ::
  "bool \<Rightarrow> ('q, 'mq) turn list \<Rightarrow> nat \<Rightarrow> ('q, 'mq) shared \<Rightarrow> nl_fail + ('q, 'mq) shared" where
  "onvm_nflib_terminate_children share_cores ts nf w = terminate_loop share_cores nf NF_TERM_STOP_ITER_TIMES ts w"

definition onvm_nflib_cleanup ::
  "('q, 'mq) mgr_env \<Rightarrow> ctx_ptr \<times> ('q, 'mq) shared \<Rightarrow> nl_fail + (ctx_ptr \<times> ('q, 'mq) shared)" where
  "onvm_nflib_cleanup env = (\<lambda>(ctxp, w).
     case ctxp of
       Ctx_Null \<Rightarrow> Inr (Ctx_Null, w)
     | Ctx_Freed \<Rightarrow> Inl Nl_Bad
     | Ctx_Live ctx \<Rightarrow>
         if \<not> lc_nf_init_finished ctx then Inr (Ctx_Freed, w)
         else (case lc_nf ctx of
             None \<Rightarrow> Inl Nl_Exit
           | Some nf \<Rightarrow>
               let w1 = w\<lparr>sh_data := (sh_data w)(nf := False)\<rparr> in
               if sh_tx_mgr w1 nf = Tx_Freed then Inl Nl_Bad
               else
                 let w2 = w1\<lparr>sh_tx_mgr := (sh_tx_mgr w1)(nf := Tx_Null), sh_function_table := (sh_function_table w1)(nf := False)\<rparr>;
                     (r, w3) = send_mgr_msg env (Msg_NF_Stopping (Some nf)) w2
                 in if r < 0 then Inl Nl_Exit else Inr (Ctx_Freed, w3)))"

definition onvm_nflib_stop ::
  "('q, 'mq) mgr_env \<Rightarrow> bool \<Rightarrow> ('q, 'mq) turn list \<Rightarrow> ctx_ptr \<times> ('q, 'mq) shared \<Rightarrow> nl_fail + (ctx_ptr \<times> ('q, 'mq) shared)" where
  "onvm_nflib_stop env share_cores ts = (\<lambda>(ctxp, w).
     case ctxp of
       Ctx_Null \<Rightarrow> Inr (Ctx_Null, w)
     | Ctx_Freed \<Rightarrow> Inl Nl_Bad
     | Ctx_Live ctx \<Rightarrow>
         (case lc_nf ctx of
            None \<Rightarrow> Inr (Ctx_Live ctx, w)
          | Some nf \<Rightarrow>
              if lc_nf_stopped ctx then Inr (Ctx_Live ctx, w)
              else (case onvm_nflib_terminate_children share_cores ts nf w of
                  Inl e \<Rightarrow> Inl e
                | Inr w1 \<Rightarrow> onvm_nflib_cleanup env (Ctx_Live (ctx\<lparr>lc_nf_stopped := True\<rparr>), w1))))"

text \<open>
  \<^verbatim>\<open>onvm_nflib_start_child\<close>, the thread a scale request starts: \<open>table\<close> and \<open>data\<close> say whether the request carries a function table and
  data, \<open>run\<close> is what happens until the child's main loop has ended. The instance id is read from the start-up structure after it was given back.
\<close>

definition onvm_nflib_start_child ::
  "('q, 'mq) mgr_env \<Rightarrow> bool option \<Rightarrow> bool \<times> bool \<times> bool \<Rightarrow> (bool \<times> ('q, 'mq) turn) list \<Rightarrow> ('q, 'mq) turn \<Rightarrow> ('q, 'mq) turn list
    \<Rightarrow> nat \<Rightarrow> nat \<Rightarrow> bool \<Rightarrow> bool \<Rightarrow> ('q, 'mq) shared \<Rightarrow> nl_fail + (ctx_ptr \<times> ('q, 'mq) shared)" where
  "onvm_nflib_start_child env share allocs obs run ts parent p table data w =
     (case onvm_nflib_start_nf env True share allocs obs p (onvm_nflib_init_nf_local_ctx, w) of
        Inl e \<Rightarrow> Inl e
      | Inr (r, ctx, w1) \<Rightarrow>
          if r < 0 then onvm_nflib_stop env (share \<noteq> None) ts (Ctx_Live ctx, w1)
          else (case init_cfgs (sh_mgr w1) p of
              None \<Rightarrow> Inl Nl_Bad
            | Some ic \<Rightarrow>
                let child = unat (ic_instance_id ic) in
                if child \<ge> length (nfs (sh_mgr w1)) \<or> parent \<ge> length (nfs (sh_mgr w1)) then Inl Nl_Bad
                else
                  let w2 = upd_mgr (\<lambda>s. update_nf child (\<lambda>n. n\<lparr>nf_parent := nf_instance_id (nfs s ! parent)\<rparr>) s) w1;
                      w3 = w2\<lparr>sh_function_table := (sh_function_table w2)(child := table), sh_data := (sh_data w2)(child := data)\<rparr>
                  in onvm_nflib_stop env (share \<noteq> None) ts (Ctx_Live (ctx\<lparr>lc_nf := Some child\<rparr>), run w3)))"

text \<open>The signal handler on the main context.\<close>

definition onvm_nflib_handle_signal :: "bool \<Rightarrow> bool \<Rightarrow> nf_local_ctx \<times> ('q, 'mq) shared \<Rightarrow> (nf_local_ctx \<times> ('q, 'mq) shared) option" where
  "onvm_nflib_handle_signal term share_cores = (\<lambda>(ctx, w).
     if \<not> term then Some (ctx, w)
     else
       let ctx1 = ctx\<lparr>lc_keep_running := False\<rparr> in
       if \<not> lc_nf_init_finished ctx1 then Some (ctx1, w)
       else if \<not> share_cores then Some (ctx1, w)
       else case lc_nf ctx1 of
         None \<Rightarrow> None
       | Some nf \<Rightarrow> Some (ctx1, w\<lparr>sh_sleeping := (sh_sleeping w)(nf := False)\<rparr>))"

section \<open>The manager's answer\<close>

lemma next_id_queue:
  "onvm_nf_next_instance_id (s\<lparr>incoming_msg_queue := q\<rparr>)
     = (fst (onvm_nf_next_instance_id s), (snd (onvm_nf_next_instance_id s))\<lparr>incoming_msg_queue := q\<rparr>)"
  by (simp add: onvm_nf_next_instance_id_def split: option.splits)

lemma init_rings_queue:
  "onvm_nf_init_rings (env\<lparr>me_msg_of := f\<rparr>) i (s\<lparr>incoming_msg_queue := q\<rparr>)
     = map_sum id (\<lambda>t. t\<lparr>incoming_msg_queue := q\<rparr>) (onvm_nf_init_rings env i s)"
  by (simp add: onvm_nf_init_rings_def Let_def split: option.splits)

text \<open>What the manager decides does not depend on its message ring or on what messages contain.\<close>

lemma nf_start_queue:
  "onvm_nf_start (env\<lparr>me_msg_of := f\<rparr>) (Some ic) (s\<lparr>incoming_msg_queue := q\<rparr>)
     = map_sum id (\<lambda>(r, c, t). (r, c, t\<lparr>incoming_msg_queue := q\<rparr>)) (onvm_nf_start env (Some ic) s)"
proof -
  obtain i t where it: "(if ic_instance_id ic = NF_NO_ID then onvm_nf_next_instance_id s
      else (unat (ic_instance_id ic), s)) = (i, t)" by (metis surj_pair)
  then have it': "(if ic_instance_id ic = NF_NO_ID then onvm_nf_next_instance_id (s\<lparr>incoming_msg_queue := q\<rparr>)
      else (unat (ic_instance_id ic), s\<lparr>incoming_msg_queue := q\<rparr>)) = (i, t\<lparr>incoming_msg_queue := q\<rparr>)"
    by (auto simp: next_id_queue split: if_splits)
  have st: "started_nf i c (t\<lparr>incoming_msg_queue := q, cores := cs\<rparr>) = (started_nf i c (t\<lparr>cores := cs\<rparr>))\<lparr>incoming_msg_queue := q\<rparr>" for c cs
    by (simp add: started_nf_def)
  show ?thesis
    unfolding onvm_nf_start_def option.case it it' Let_def prod.case
    by (auto simp: st init_rings_queue split: option.splits sum.splits)
qed

lemma send_mgr_msg_ok:
  assumes ring: "rte_ring (me_msg_ring env) mitems mroom" and pool: "sh_pool w = m # pool" and room: "0 < mroom (incoming_msg_queue (sh_mgr w))"
  shows "\<exists>q. mitems q = mitems (incoming_msg_queue (sh_mgr w)) @ [m] \<and> Suc (mroom q) = mroom (incoming_msg_queue (sh_mgr w)) \<and> send_mgr_msg env msg w
    = (0, w\<lparr>sh_mgr := (sh_mgr w)\<lparr>incoming_msg_queue := q\<rparr>, sh_msgs := (sh_msgs w)(m := To_Mgr msg), sh_pool := pool\<rparr>)"
proof -
  obtain r q where e: "ring_enqueue (me_msg_ring env) (incoming_msg_queue (sh_mgr w)) m = (r, q)" by (metis surj_pair)
  then have "r = 0" "mitems q = mitems (incoming_msg_queue (sh_mgr w)) @ [m]" "Suc (mroom q) = mroom (incoming_msg_queue (sh_mgr w))"
    using rte_ring.enq_ok [OF ring room e] room by simp_all
  then show ?thesis using e pool by (auto simp: send_mgr_msg_def)
qed

text \<open>A turn of the manager with one message in its ring.\<close>

lemma manager_one:
  assumes ring: "rte_ring (me_msg_ring env) mitems mroom" and q: "mitems (incoming_msg_queue (sh_mgr w)) = [m]"
  shows "\<exists>q'. mitems q' = [] \<and> mroom q' = Suc (mroom (incoming_msg_queue (sh_mgr w))) \<and> (\<forall>s1. handle_mgr_msg (env\<lparr>me_msg_of := mgr_content \<circ> sh_msgs w\<rparr>) (mgr_content (sh_msgs w m))
            ((sh_mgr w)\<lparr>incoming_msg_queue := q'\<rparr>) = Inr s1 \<longrightarrow> freed_msgs s1 = freed_msgs (sh_mgr w) \<longrightarrow>
          manager env w = w\<lparr>sh_mgr := s1\<lparr>freed_msgs := freed_msgs s1 @ [m]\<rparr>, sh_pool := m # sh_pool w\<rparr>)
       \<and> (\<forall>e. handle_mgr_msg (env\<lparr>me_msg_of := mgr_content \<circ> sh_msgs w\<rparr>) (mgr_content (sh_msgs w m))
            ((sh_mgr w)\<lparr>incoming_msg_queue := q'\<rparr>) = Inl e \<longrightarrow> manager env w = w)"
proof -
  obtain ms q' where d: "ring_dequeue_bulk (me_msg_ring env) (incoming_msg_queue (sh_mgr w)) 1 = (ms, q')" by (metis surj_pair)
  then have "ms = [m]" "mitems q' = []" "mroom q' = Suc (mroom (incoming_msg_queue (sh_mgr w)))"
    using rte_ring.deq_bulk_ok [OF ring _ d] q by simp_all
  moreover have "ring_count (me_msg_ring env) (incoming_msg_queue (sh_mgr w)) = 1" using rte_ring.count_items [OF ring] q by simp
  ultimately show ?thesis using d
    by (intro exI [of _ q']) (auto simp: manager_def mgr_turn_def onvm_nf_check_status_def onvm_limits Let_def)
qed

text \<open>The parts of the manager's state that starting an NF leaves alone.\<close>

abbreviation start_keeps :: "('q, 'mq) mgr_state \<Rightarrow> ('q, 'mq) mgr_state \<Rightarrow> bool" where
  "start_keeps s t \<equiv> freed_msgs t = freed_msgs s \<and> init_cfgs t = init_cfgs s \<and> incoming_msg_queue t = incoming_msg_queue s
     \<and> nf_per_service_count t = nf_per_service_count s"

lemma nf_start_frame:
  assumes "onvm_nf_start env (Some ic) s = Inr (r, c, t)" "ic_status ic = NF_WAITING_FOR_ID"
  shows "start_keeps s t" "r = 0 \<longrightarrow> unat (nf_per_service_count s ! unat (ic_service_id ic)) < MAX_NFS_PER_SERVICE"
proof -
  have nid: "start_keeps s u" if "onvm_nf_next_instance_id s = (i, u)" for i u
    using that by (auto simp: onvm_nf_next_instance_id_def split: if_splits option.splits)
  have rings: "start_keeps u v" if "onvm_nf_init_rings env i u = Inr v" for i u v
    using that by (auto simp: onvm_nf_init_rings_def Let_def split: if_splits option.splits)
  obtain i u where it: "(if ic_instance_id ic = NF_NO_ID then onvm_nf_next_instance_id s
      else (unat (ic_instance_id ic), s)) = (i, u)" by (metis surj_pair)
  have u: "start_keeps s u" using it nid by (auto split: if_splits)
  have "start_keeps s t \<and> (r = 0 \<longrightarrow> unat (nf_per_service_count s ! unat (ic_service_id ic)) < MAX_NFS_PER_SERVICE)"
    using assms u unfolding onvm_nf_start_def option.case it Let_def prod.case
    by (auto simp: started_nf_def not_le split: if_splits option.splits sum.splits dest!: rings)
  then show "start_keeps s t" "r = 0 \<longrightarrow> unat (nf_per_service_count s ! unat (ic_service_id ic)) < MAX_NFS_PER_SERVICE"
    by simp_all
qed

text \<open>The library learns exactly what the manager decided.\<close>

lemma start_handshake:
  assumes ring: "rte_ring (me_msg_ring env) mitems mroom" and q: "mitems (incoming_msg_queue (sh_mgr w)) = []" "0 < mroom (incoming_msg_queue (sh_mgr w))"
    and pool: "sh_pool w = m # pool" and cfg: "init_cfgs (sh_mgr w) p = Some ic" "ic_status ic = NF_WAITING_FOR_ID"
    and ctx: "lc_keep_running ctx" and start: "onvm_nf_start env (Some ic) (sh_mgr w) = Inr (r, Some ic', s')"
  shows "\<exists>q' w2. mitems q' = [] \<and> 0 < mroom q' \<and> sh_pool w2 = sh_pool w \<and> sh_cfg_puts w2 = sh_cfg_puts w
    \<and> sh_mgr w2 = s'\<lparr>incoming_msg_queue := q', init_cfgs := (init_cfgs s')(p := Some ic'), freed_msgs := freed_msgs s' @ [m]\<rparr>
    \<and> handle_mgr_msg (env\<lparr>me_msg_of := mgr_content \<circ> sh_msgs w2\<rparr>) (Msg_NF_Starting (Some p)) ((sh_mgr w)\<lparr>incoming_msg_queue := q'\<rparr>)
        = Inr (s'\<lparr>incoming_msg_queue := q', init_cfgs := (init_cfgs s')(p := Some ic')\<rparr>)
    \<and> (ic_status ic' \<noteq> NF_WAITING_FOR_ID \<longrightarrow> (\<exists>w1. send_mgr_msg env (Msg_NF_Starting (Some p)) w = (0, w1)
        \<and> wait_for_id p [(False, manager env)] (ctx, w1) = Inr (True, ctx, w2)))"
proof -
  obtain q1 where s: "mitems q1 = [m]" "Suc (mroom q1) = mroom (incoming_msg_queue (sh_mgr w))"
    "send_mgr_msg env (Msg_NF_Starting (Some p)) w = (0, w\<lparr>sh_mgr := (sh_mgr w)\<lparr>incoming_msg_queue := q1\<rparr>,
       sh_msgs := (sh_msgs w)(m := To_Mgr (Msg_NF_Starting (Some p))), sh_pool := pool\<rparr>)"
    using send_mgr_msg_ok [OF ring pool q(2), of "Msg_NF_Starting (Some p)"] q(1) by auto
  let ?w1 = "w\<lparr>sh_mgr := (sh_mgr w)\<lparr>incoming_msg_queue := q1\<rparr>, sh_msgs := (sh_msgs w)(m := To_Mgr (Msg_NF_Starting (Some p))), sh_pool := pool\<rparr>"
  let ?env = "env\<lparr>me_msg_of := mgr_content \<circ> sh_msgs ?w1\<rparr>"
  have q1: "mitems (incoming_msg_queue (sh_mgr ?w1)) = [m]" using s(1) by simp
  obtain q' where q': "mitems q' = []" "mroom q' = Suc (mroom q1)"
    "\<And>s1. handle_mgr_msg ?env (Msg_NF_Starting (Some p)) ((sh_mgr w)\<lparr>incoming_msg_queue := q'\<rparr>) = Inr s1 \<Longrightarrow>
       freed_msgs s1 = freed_msgs (sh_mgr w) \<Longrightarrow> manager env ?w1 = ?w1\<lparr>sh_mgr := s1\<lparr>freed_msgs := freed_msgs s1 @ [m]\<rparr>, sh_pool := m # pool\<rparr>"
    using manager_one [OF ring q1] by (auto simp: mgr_content_def)
  note fr = nf_start_frame [OF start cfg(2)]
  let ?s1 = "s'\<lparr>incoming_msg_queue := q', init_cfgs := (init_cfgs s')(p := Some ic')\<rparr>"
  have h: "handle_mgr_msg ?env (Msg_NF_Starting (Some p)) ((sh_mgr w)\<lparr>incoming_msg_queue := q'\<rparr>) = Inr ?s1"
    using nf_start_queue [where env = env and f = "mgr_content \<circ> sh_msgs ?w1" and ic = ic and s = "sh_mgr w" and q = q'] start cfg(1) by (simp add: handle_mgr_msg_def)
  let ?w2 = "?w1\<lparr>sh_mgr := ?s1\<lparr>freed_msgs := freed_msgs ?s1 @ [m]\<rparr>, sh_pool := m # pool\<rparr>"
  have m2: "manager env ?w1 = ?w2" using q'(3) [OF h] fr(1) by simp
  have "wait_for_id p [(False, manager env)] (ctx, ?w1) = Inr (True, ctx, ?w2)" if "ic_status ic' \<noteq> NF_WAITING_FOR_ID"
    using m2 ctx cfg that by (simp add: cfg_status_def)
  then show ?thesis
    using h q'(1,2) s pool by (intro exI [of _ q'] exI [of _ ?w2]) auto
qed

lemma ready_handshake:
  assumes ring: "rte_ring (me_msg_ring env) mitems mroom" and q: "mitems (incoming_msg_queue (sh_mgr w)) = []" "0 < mroom (incoming_msg_queue (sh_mgr w))"
    and pool: "sh_pool w = m # pool" and inv: "mgr_inv (sh_mgr w)" and i: "i < MAX_NFS" "nf_status (nfs (sh_mgr w) ! i) = NF_STARTING"
    and cap: "unat (nf_per_service_count (sh_mgr w) ! unat (nf_service_id (nfs (sh_mgr w) ! i))) < MAX_NFS_PER_SERVICE"
  shows "\<exists>w'. onvm_nflib_nf_ready env [manager env] i w = Inr (0, w') \<and> mgr_inv (sh_mgr w')
    \<and> nf_status (nfs (sh_mgr w') ! i) = NF_RUNNING \<and> sh_pool w' = sh_pool w"
proof -
  obtain q1 where s: "mitems q1 = [m]" "send_mgr_msg env (Msg_NF_Ready i) w = (0, w\<lparr>sh_mgr := (sh_mgr w)\<lparr>incoming_msg_queue := q1\<rparr>,
       sh_msgs := (sh_msgs w)(m := To_Mgr (Msg_NF_Ready i)), sh_pool := pool\<rparr>)"
    using send_mgr_msg_ok [OF ring pool q(2), of "Msg_NF_Ready i"] q(1) by auto
  let ?w1 = "w\<lparr>sh_mgr := (sh_mgr w)\<lparr>incoming_msg_queue := q1\<rparr>, sh_msgs := (sh_msgs w)(m := To_Mgr (Msg_NF_Ready i)), sh_pool := pool\<rparr>"
  let ?env = "env\<lparr>me_msg_of := mgr_content \<circ> sh_msgs ?w1\<rparr>"
  have q1: "mitems (incoming_msg_queue (sh_mgr ?w1)) = [m]" using s(1) by simp
  obtain q' where q': "\<And>s1. handle_mgr_msg ?env (Msg_NF_Ready i) ((sh_mgr w)\<lparr>incoming_msg_queue := q'\<rparr>) = Inr s1 \<Longrightarrow>
       freed_msgs s1 = freed_msgs (sh_mgr w) \<Longrightarrow> manager env ?w1 = ?w1\<lparr>sh_mgr := s1\<lparr>freed_msgs := freed_msgs s1 @ [m]\<rparr>, sh_pool := m # pool\<rparr>"
    using manager_one [OF ring q1] by (auto simp: mgr_content_def)
  let ?s = "(sh_mgr w)\<lparr>incoming_msg_queue := q'\<rparr>"
  have inv': "mgr_inv ?s" using inv by (simp add: mgr_inv_def)
  obtain s2 where r: "onvm_nf_ready i ?s = Inr (0, s2)" "nf_status (nfs s2 ! i) = NF_RUNNING" "freed_msgs s2 = freed_msgs (sh_mgr w)"
    using ready_row [OF inv i] i cap by (simp add: onvm_nf_ready_def Let_def)
  then have "manager env ?w1 = ?w1\<lparr>sh_mgr := s2\<lparr>freed_msgs := freed_msgs s2 @ [m]\<rparr>, sh_pool := m # pool\<rparr>"
    using q' [of s2] by (simp add: handle_mgr_msg_def)
  then show ?thesis
    using s i(2) r pool inv_ready [OF inv' r(1)] by (simp add: onvm_nflib_nf_ready_def NF_STARTING_def NF_RUNNING_def mgr_inv_def)
qed

lemma manager_idle:
  assumes ring: "rte_ring (me_msg_ring env) mitems mroom" and q: "mitems (incoming_msg_queue (sh_mgr w)) = []"
  shows "manager env w = w"
  using rte_ring.count_items [OF ring] q by (simp add: manager_def mgr_turn_def onvm_nf_check_status_def)

lemma wait_idle:
  assumes ring: "rte_ring (me_msg_ring env) mitems mroom" and q: "mitems (incoming_msg_queue (sh_mgr w)) = []"
    and st: "request_status (sh_mgr w) r = code"
  shows "wait_answer code r (replicate n (manager env)) w = Inl Nl_Waiting"
  using st manager_idle [OF ring q] by (induction n) simp_all

text \<open>The manager answering a request for an LPM table.\<close>

lemma manager_lpm:
  assumes ring: "rte_ring (me_msg_ring env) mitems mroom" and q: "mitems (incoming_msg_queue (sh_mgr w)) = [m]"
    and msg: "sh_msgs w m = To_Mgr (Msg_Request_LPM r)"
  shows "\<exists>q'. mitems q' = [] \<and> manager env w = w\<lparr>sh_mgr := (sh_mgr w)\<lparr>incoming_msg_queue := q',
      request_status := (request_status (sh_mgr w))(r := if me_lpm_create env r then 0 else - 1), freed_msgs := freed_msgs (sh_mgr w) @ [m]\<rparr>,
      sh_pool := m # sh_pool w\<rparr>"
proof -
  obtain q' where q': "mitems q' = []"
    "\<And>s1. handle_mgr_msg (env\<lparr>me_msg_of := mgr_content \<circ> sh_msgs w\<rparr>) (Msg_Request_LPM r) ((sh_mgr w)\<lparr>incoming_msg_queue := q'\<rparr>) = Inr s1 \<Longrightarrow>
       freed_msgs s1 = freed_msgs (sh_mgr w) \<Longrightarrow> manager env w = w\<lparr>sh_mgr := s1\<lparr>freed_msgs := freed_msgs s1 @ [m]\<rparr>, sh_pool := m # sh_pool w\<rparr>"
    using manager_one [OF ring q] msg by (auto simp: mgr_content_def)
  then show ?thesis by (intro exI [of _ q']) (simp add: handle_mgr_msg_def onvm_nf_init_lpm_region_def)
qed

section \<open>Properties\<close>

text \<open>
  C9. The start-up handshake between the NF library and the manager: with an answering manager, \<^verbatim>\<open>onvm_nflib_start_nf\<close> returns 0 exactly
  when the manager accepts the NF and otherwise the negated code of its refusal, the message object and the start-up structure are back in
  their pools, and a refused NF leaves no trace in the NF table; an accepted NF that then reports ready is running, and the manager's
  tables are consistent.
\<close>

theorem nf_handshake:
  assumes ring: "rte_ring (me_msg_ring env) mitems mroom" and q: "mitems (incoming_msg_queue (sh_mgr w)) = []" "0 < mroom (incoming_msg_queue (sh_mgr w))"
    and pool: "sh_pool w = m # pool" and cfg: "init_cfgs (sh_mgr w) p = Some ic" "ic_status ic = NF_WAITING_FOR_ID"
    and ctx: "lc_keep_running ctx" "\<not> lc_nf_init_finished ctx"
    and inv: "mgr_inv (sh_mgr w)" "cfgs_ok (sh_mgr w)" "me_nf_info_pool env"
    and start: "onvm_nf_start env (Some ic) (sh_mgr w) = Inr (r, Some ic', s')"
  shows "\<exists>ctx' w'. onvm_nflib_start_nf env True None (True, True, True) [(False, manager env)] p (ctx, w)
        = Inr (if r = 0 then 0 else - int (unat (ic_status ic')), ctx', w')
    \<and> sh_pool w' = sh_pool w \<and> sh_cfg_puts w' = sh_cfg_puts w @ [p]
    \<and> (r \<noteq> 0 \<longrightarrow> ctx' = ctx \<and> nfs (sh_mgr w') = nfs (sh_mgr w))
    \<and> (r = 0 \<longrightarrow> lc_nf ctx' = Some (unat (ic_instance_id ic')) \<and> (\<exists>w''. onvm_nflib_nf_ready env [manager env] (unat (ic_instance_id ic')) w' = Inr (0, w'')
        \<and> nf_status (nfs (sh_mgr w'') ! unat (ic_instance_id ic')) = NF_RUNNING \<and> mgr_inv (sh_mgr w'') \<and> sh_pool w'' = sh_pool w))"
proof -
  note cases = nf_start_cases [OF start cfg(2)]
  have ans: "ic_status ic' \<noteq> NF_WAITING_FOR_ID" using cases by (auto simp: nf_states)
  obtain q' w1 w2 where h: "mitems q' = []" "0 < mroom q'" "sh_pool w2 = sh_pool w" "sh_cfg_puts w2 = sh_cfg_puts w"
    "sh_mgr w2 = s'\<lparr>incoming_msg_queue := q', init_cfgs := (init_cfgs s')(p := Some ic'), freed_msgs := freed_msgs s' @ [m]\<rparr>"
    "handle_mgr_msg (env\<lparr>me_msg_of := mgr_content \<circ> sh_msgs w2\<rparr>) (Msg_NF_Starting (Some p)) ((sh_mgr w)\<lparr>incoming_msg_queue := q'\<rparr>)
        = Inr (s'\<lparr>incoming_msg_queue := q', init_cfgs := (init_cfgs s')(p := Some ic')\<rparr>)"
    and w1: "send_mgr_msg env (Msg_NF_Starting (Some p)) w = (0, w1)" "wait_for_id p [(False, manager env)] (ctx, w1) = Inr (True, ctx, w2)"
    using start_handshake [OF ring q pool cfg ctx(1) start] ans by blast
  have inv2: "mgr_inv (sh_mgr w2)"
    using inv_handle [OF _ _ _ h(6)] inv h(5) by (simp add: mgr_inv_def cfgs_ok_def)
  show ?thesis
  proof (cases "r = 0")
    case False
    then have "start_error (ic_status ic') = Some (- int (unat (ic_status ic')))" "nfs s' = nfs (sh_mgr w)"
      using cases by (auto simp: start_error_def)
    then show ?thesis using False ctx w1 h by (simp add: onvm_nflib_start_nf_def Let_def)
  next
    case True
    obtain i where i: "ic_status ic' = NF_STARTING" "ic_instance_id ic' = of_nat i" "i < MAX_NFS" "length (nfs s') = length (nfs (sh_mgr w))"
      "i < length (nfs (sh_mgr w)) \<longrightarrow> nf_status (nfs s' ! i) = NF_STARTING \<and> nf_service_id (nfs s' ! i) = ic_service_id ic"
      using cases True by auto
    have len: "length (nfs (sh_mgr w)) = MAX_NFS" using inv(1) by (simp add: mgr_inv_def reg_ok_def)
    have ui: "unat (ic_instance_id ic') = i" using i(2,3) by (simp add: unat_of_nat_exact onvm_limits)
    have se: "start_error (ic_status ic') = None" using i(1) by (simp add: start_error_def nf_states)
    let ?w' = "(upd_mgr (update_nf i (\<lambda>n. n\<lparr>nf_parent := 0, nf_children_cnt := 0\<rparr>))
        (onvm_nflib_nf_tx_mgr_init (True, True, True) i (w2\<lparr>sh_cfg_puts := sh_cfg_puts w2 @ [p]\<rparr>)))"
    let ?w5 = "?w'\<lparr>sh_function_table := (sh_function_table ?w')(i := False)\<rparr>"
    have st: "onvm_nflib_start_nf env True None (True, True, True) [(False, manager env)] p (ctx, w)
      = Inr (0, ctx\<lparr>lc_nf := Some i, lc_nf_init_finished := True\<rparr>, ?w5)"
      using w1 h(5) ctx se ui i(3,4) len by (simp add: onvm_nflib_start_nf_def Let_def)
    have inv5: "mgr_inv (sh_mgr ?w5)" using inv2 by (simp add: mgr_inv_def onvm_nflib_nf_tx_mgr_init_def)
    have cnt: "unat (nf_per_service_count (sh_mgr ?w5) ! unat (nf_service_id (nfs (sh_mgr ?w5) ! i))) < MAX_NFS_PER_SERVICE"
      using nf_start_frame [OF start cfg(2)] True i(3,4,5) len h(5) by (simp add: onvm_nflib_nf_tx_mgr_init_def)
    have "sh_pool ?w5 = m # pool" "mitems (incoming_msg_queue (sh_mgr ?w5)) = []" "0 < mroom (incoming_msg_queue (sh_mgr ?w5))"
      "nf_status (nfs (sh_mgr ?w5) ! i) = NF_STARTING"
      using h i(3,4,5) len pool by (simp_all add: onvm_nflib_nf_tx_mgr_init_def)
    from ready_handshake [OF ring this(2,3,1) inv5 i(3) this(4) cnt] st True ui h(3,4) show ?thesis
      by (auto simp: onvm_nflib_nf_tx_mgr_init_def)
  qed
qed

text \<open>A request that the manager answers while the library waits.\<close>

lemma request_lpm_answered:
  assumes ring: "rte_ring (me_msg_ring env) mitems mroom" and q: "mitems (incoming_msg_queue (sh_mgr w)) = []" "0 < mroom (incoming_msg_queue (sh_mgr w))"
    and pool: "sh_pool w = m # pool"
  shows "\<exists>w'. onvm_nflib_request_lpm env r (\<lambda>v. v) [manager env] w = Inr (if me_lpm_create env r then 0 else - 1, w') \<and> sh_pool w' = m # m # pool"
proof -
  obtain q1 where s: "mitems q1 = [m]" "send_mgr_msg env (Msg_Request_LPM r) w = (0, w\<lparr>sh_mgr := (sh_mgr w)\<lparr>incoming_msg_queue := q1\<rparr>,
       sh_msgs := (sh_msgs w)(m := To_Mgr (Msg_Request_LPM r)), sh_pool := pool\<rparr>)"
    using send_mgr_msg_ok [OF ring pool q(2), of "Msg_Request_LPM r"] q(1) by auto
  let ?w1 = "w\<lparr>sh_mgr := (sh_mgr w)\<lparr>incoming_msg_queue := q1\<rparr>, sh_msgs := (sh_msgs w)(m := To_Mgr (Msg_Request_LPM r)), sh_pool := pool\<rparr>"
  let ?mark = "\<lambda>w. upd_mgr (\<lambda>s. s\<lparr>request_status := (request_status s)(r := NF_WAITING_FOR_LPM)\<rparr>) w"
  have "mitems (incoming_msg_queue (sh_mgr (?mark ?w1))) = [m]" "sh_msgs (?mark ?w1) m = To_Mgr (Msg_Request_LPM r)" using s(1) by simp_all
  from manager_lpm [OF ring this] obtain w2 where m2: "manager env (?mark ?w1) = w2"
    "request_status (sh_mgr w2) r = (if me_lpm_create env r then 0 else - 1)" "sh_pool w2 = m # pool" by auto
  have "onvm_nflib_request_lpm env r (\<lambda>v. v) [manager env] w
      = Inr (if me_lpm_create env r then 0 else - 1, w2\<lparr>sh_pool := m # sh_pool w2\<rparr>)"
    using s(2) m2 pool by (simp add: onvm_nflib_request_lpm_def mgr_request_def Let_def)
  then show ?thesis using m2(3) by simp
qed

text \<open>A request that the manager answers too early.\<close>

lemma request_lpm_overtaken:
  assumes ring: "rte_ring (me_msg_ring env) mitems mroom" and q: "mitems (incoming_msg_queue (sh_mgr w)) = []" "0 < mroom (incoming_msg_queue (sh_mgr w))"
    and pool: "sh_pool w = m # pool"
  shows "onvm_nflib_request_lpm env r (manager env) (replicate n (manager env)) w = Inl Nl_Waiting"
proof -
  obtain q1 where s: "mitems q1 = [m]" "send_mgr_msg env (Msg_Request_LPM r) w = (0, w\<lparr>sh_mgr := (sh_mgr w)\<lparr>incoming_msg_queue := q1\<rparr>,
       sh_msgs := (sh_msgs w)(m := To_Mgr (Msg_Request_LPM r)), sh_pool := pool\<rparr>)"
    using send_mgr_msg_ok [OF ring pool q(2), of "Msg_Request_LPM r"] q(1) by auto
  let ?w1 = "w\<lparr>sh_mgr := (sh_mgr w)\<lparr>incoming_msg_queue := q1\<rparr>, sh_msgs := (sh_msgs w)(m := To_Mgr (Msg_Request_LPM r)), sh_pool := pool\<rparr>"
  let ?mark = "\<lambda>w. upd_mgr (\<lambda>s. s\<lparr>request_status := (request_status s)(r := NF_WAITING_FOR_LPM)\<rparr>) w"
  have "mitems (incoming_msg_queue (sh_mgr ?w1)) = [m]" "sh_msgs ?w1 m = To_Mgr (Msg_Request_LPM r)" using s(1) by simp_all
  from manager_lpm [OF ring this] have e: "mitems (incoming_msg_queue (sh_mgr (manager env ?w1))) = []" by auto
  have "wait_answer NF_WAITING_FOR_LPM r (replicate n (manager env)) (?mark (manager env ?w1)) = Inl Nl_Waiting"
    by (rule wait_idle [OF ring]) (simp_all add: e)
  then show ?thesis using s(2) by (simp add: onvm_nflib_request_lpm_def mgr_request_def Let_def)
qed

text \<open>
  C36. A request for an LPM table. When the manager answers while the library waits, the answer is returned, but the message object, which the
  manager has already given back, is then in the pool twice. When the manager answers between the sending of the message and the marking of the
  request as waiting, the mark overwrites the answer and the library waits for ever, however often the manager looks at its ring.
\<close>

theorem lpm_request_flaws:
  assumes ring: "rte_ring (me_msg_ring env) mitems mroom" and q: "mitems (incoming_msg_queue (sh_mgr w)) = []" "0 < mroom (incoming_msg_queue (sh_mgr w))"
    and pool: "sh_pool w = m # pool"
  shows "(\<exists>w'. onvm_nflib_request_lpm env r (\<lambda>v. v) [manager env] w = Inr (if me_lpm_create env r then 0 else - 1, w') \<and> sh_pool w' = m # m # pool)
    \<and> (\<forall>n. onvm_nflib_request_lpm env r (manager env) (replicate n (manager env)) w = Inl Nl_Waiting)"
  using request_lpm_answered [OF assms] request_lpm_overtaken [OF assms] by blast


section \<open>A concrete start-up\<close>

definition demo_shared :: "(nat list_ring, nat list_ring) shared" where
  "demo_shared = \<lparr>sh_mgr = demo_mgr, sh_msgs = (\<lambda>_. To_Mgr Msg_Other), sh_pool = [5, 6], sh_cfg_puts = [], sh_tx_mgr = (\<lambda>_. Tx_Null),
     sh_data = (\<lambda>_. False), sh_function_table = (\<lambda>_. False), sh_sleeping = (\<lambda>_. False)\<rparr>"

lemma demo_shared_facts:
  "rte_ring (me_msg_ring demo_mgr_env) lr_items lr_room" "lr_items (incoming_msg_queue (sh_mgr demo_shared)) = []"
  "0 < lr_room (incoming_msg_queue (sh_mgr demo_shared))" "sh_pool demo_shared = 5 # [6]"
  by (simp_all add: demo_mgr_env_def list_ring.rte_ring_axioms demo_shared_def demo_mgr_def)

theorem nf_handshake_witness:
  "\<exists>r ctx' w'. onvm_nflib_start_nf demo_mgr_env True None (True, True, True) [(False, manager demo_mgr_env)] 0
       (onvm_nflib_init_nf_local_ctx, demo_shared) = Inr (r, ctx', w') \<and> sh_pool w' = [5, 6]"
proof -
  have "case onvm_nf_start demo_mgr_env (Some demo_ic) demo_mgr of Inr (r, Some ic', s') \<Rightarrow> True | _ \<Rightarrow> False" by code_simp
  then obtain r ic' s' where st: "onvm_nf_start demo_mgr_env (Some demo_ic) (sh_mgr demo_shared) = Inr (r, Some ic', s')"
    by (auto simp: demo_shared_def split: sum.splits prod.splits option.splits)
  have "init_cfgs (sh_mgr demo_shared) 0 = Some demo_ic" "ic_status demo_ic = NF_WAITING_FOR_ID" "lc_keep_running onvm_nflib_init_nf_local_ctx"
    "\<not> lc_nf_init_finished onvm_nflib_init_nf_local_ctx"
    by (simp_all add: demo_shared_def demo_mgr_def demo_ic_def onvm_nflib_init_nf_local_ctx_def)
  moreover have "mgr_inv (sh_mgr demo_shared)" "cfgs_ok (sh_mgr demo_shared)" "me_nf_info_pool demo_mgr_env"
    using inv_mgr_reachable [OF _ demo_mgr_reachable, of demo_mgr_env]
    by (simp_all add: demo_shared_def cfgs_ok_def demo_mgr_def demo_ic_def demo_mgr_env_def)
  ultimately show ?thesis
    using nf_handshake [OF demo_shared_facts _ _ _ _ _ _ _ st] by (fastforce simp: demo_shared_facts(4))
qed

theorem lpm_request_flaws_witness:
  "\<exists>w'. onvm_nflib_request_lpm demo_mgr_env 3 (\<lambda>v. v) [manager demo_mgr_env] demo_shared = Inr (0, w') \<and> sh_pool w' = [5, 5, 6]"
  using lpm_request_flaws [OF demo_shared_facts, of 3] by (auto simp: demo_mgr_env_def)


end
