(* ===== verification/Platform.thy ===== *)
theory Platform
  imports NfLoop
begin

text \<open>
  The packet paths of the whole platform: the RX threads, the TX threads and the main loops of the NFs on one shared
  state. A schedule is a list of passes, of any thread in any order; each thread keeps its own batches. The structural invariant
  (tables, rings and batches are well-formed) is kept by every pass; what a pass asks of the packets it finds (that received packets can be routed,
  that packets returned by NFs have an action that can be carried out, that no packet is in a ring twice) is asked when it is made.
\<close>

section \<open>Threads and schedules\<close>

record ('q, 'mq, 'h) platform =
  pf_rx :: "queue_mgr list"
  pf_tx :: "queue_mgr list"
  pf_nf :: "(nat \<times> queue_mgr) list"
  pf_state :: "('q, 'mq, 'h) pkt_state"

datatype pass = Rx nat rx_input | Tx nat | Nf nat pkt_handler

fun pf_pass :: "('q, 'h) pkt_env \<Rightarrow> pass \<Rightarrow> ('q, 'mq, 'h) platform \<Rightarrow> ('q, 'mq, 'h) platform option" where
  "pf_pass env (Rx i inp) pf =
     map_option (\<lambda>(qm, s). pf\<lparr>pf_rx := (pf_rx pf)[i := qm], pf_state := s\<rparr>) (rx_pass env inp (pf_rx pf ! i, pf_state pf))"
| "pf_pass env (Tx i) pf =
     map_option (\<lambda>(qm, s). pf\<lparr>pf_tx := (pf_tx pf)[i := qm], pf_state := s\<rparr>) (tx_pass env (pf_tx pf ! i, pf_state pf))"
| "pf_pass env (Nf i h) pf =
     (let (nf, qm) = pf_nf pf ! i in
      map_option (\<lambda>(qm', s). pf\<lparr>pf_nf := (pf_nf pf)[i := (nf, qm')], pf_state := s\<rparr>) (nf_pkt_pass env h nf (qm, pf_state pf)))"

primrec pf_run :: "('q, 'h) pkt_env \<Rightarrow> pass list \<Rightarrow> ('q, 'mq, 'h) platform \<Rightarrow> ('q, 'mq, 'h) platform option" where
  "pf_run env [] pf = Some pf"
| "pf_run env (l # ls) pf = Option.bind (pf_pass env l pf) (pf_run env ls)"

section \<open>Invariant and admissible passes\<close>

definition rx_ports_ok :: "('q, 'mq, 'h) pkt_state \<Rightarrow> bool" where
  "rx_ports_ok s \<longleftrightarrow> (\<forall>i < unat (num_ports (pk_ports s)). unat (port_id (pk_ports s) ! i) < length (port_rx (pk_ports s)))"

definition tx_thread_ok :: "('q, 'mq, 'h) pkt_cfg \<Rightarrow> bool" where
  "tx_thread_ok c \<longleftrightarrow> cfg_ok None c \<and> (\<exists>a b. thread_range (qm_side (fst c)) = Some (a, b) \<and> b \<le> MAX_NFS)"

definition pf_ok :: "('q, 'h) pkt_env \<Rightarrow> ('q \<Rightarrow> nat list) \<Rightarrow> ('q \<Rightarrow> nat) \<Rightarrow> ('q, 'mq, 'h) platform \<Rightarrow> bool" where
  "pf_ok env items room pf \<longleftrightarrow> rte_ring (pe_ring env) items room \<and> nic_ok env
     \<and> tables_ok (pf_state pf) \<and> ports_ok (pf_state pf) \<and> rx_ports_ok (pf_state pf)
     \<and> (\<forall>qm \<in> set (pf_rx pf). bufs_ok qm) \<and> (\<forall>qm \<in> set (pf_tx pf). tx_thread_ok (qm, pf_state pf))
     \<and> (\<forall>(nf, qm) \<in> set (pf_nf pf). nf_inv env items room nf (qm, pf_state pf))"

fun pass_ok :: "('q, 'h) pkt_env \<Rightarrow> ('q \<Rightarrow> nat list) \<Rightarrow> pass \<Rightarrow> ('q, 'mq, 'h) platform \<Rightarrow> bool" where
  "pass_ok env items (Rx i inp) pf \<longleftrightarrow> i < length (pf_rx pf)
     \<and> rx_adm {p. routable env (pf_state pf) p} inp (pf_rx pf ! i, pf_state pf)"
| "pass_ok env items (Tx i) pf \<longleftrightarrow> i < length (pf_tx pf) \<and> waiting_ok env items (pf_state pf)"
| "pass_ok env items (Nf i h) pf \<longleftrightarrow> i < length (pf_nf pf)
     \<and> nf_adm env items (fst (pf_nf pf ! i)) h (snd (pf_nf pf ! i), pf_state pf)"

primrec schedule_ok :: "('q, 'h) pkt_env \<Rightarrow> ('q \<Rightarrow> nat list) \<Rightarrow> pass list \<Rightarrow> ('q, 'mq, 'h) platform \<Rightarrow> bool" where
  "schedule_ok env items [] pf \<longleftrightarrow> True"
| "schedule_ok env items (l # ls) pf \<longleftrightarrow> pass_ok env items l pf
     \<and> (case pf_pass env l pf of None \<Rightarrow> True | Some pf' \<Rightarrow> schedule_ok env items ls pf')"

text \<open>Every packet of the platform: in a batch of some thread, in a ring, freed, or handed to a NIC; and what a pass receives.\<close>

definition qm_held :: "queue_mgr \<Rightarrow> nat multiset" where
  "qm_held qm = bufs_held (nf_rx_bufs qm) + side_held (qm_side qm)"

definition pf_held :: "('q \<Rightarrow> nat list) \<Rightarrow> ('q, 'mq, 'h) platform \<Rightarrow> nat multiset" where
  "pf_held items pf = (\<Sum>qm\<leftarrow>pf_rx pf. qm_held qm) + (\<Sum>qm\<leftarrow>pf_tx pf. qm_held qm) + (\<Sum>x\<leftarrow>pf_nf pf. qm_held (snd x))
     + state_held items (pf_state pf)"

fun pass_received :: "u8 \<Rightarrow> pass \<Rightarrow> nat multiset" where
  "pass_received ports (Rx i inp) = (\<Sum>j\<leftarrow>[0..<unat ports]. mset (ri_burst inp j))"
| "pass_received ports _ = {#}"

lemma held_split: "held items (qm, s) = qm_held qm + state_held items s"
  by (simp add: held_def qm_held_def)

text \<open>A change of the shared state that keeps its configuration keeps the invariants of all threads.\<close>

lemma ok_config:
  assumes "pf_ok env items room pf" "same_config (pf_state pf) t"
  shows "pf_ok env items room (pf\<lparr>pf_state := t\<rparr>)"
proof -
  have "tx_thread_ok (qm, t)" if "tx_thread_ok (qm, pf_state pf)" for qm
    using that cfg_ok_config [of None qm "pf_state pf" t] assms(2) by (simp add: tx_thread_ok_def)
  moreover have "rx_ports_ok t" using assms by (simp add: pf_ok_def rx_ports_ok_def same_config_def)
  ultimately show ?thesis
    using assms same_config_tables [OF assms(2)] ports_ok_config [OF _ assms(2)] nf_inv_config [OF _ assms(2)]
    by (auto simp: pf_ok_def)
qed

lemma update_set: "x \<in> set (xs[i := y]) \<Longrightarrow> x = y \<or> x \<in> set xs"
  using set_update_subset_insert [of xs i y] by blast

lemma sum_swap:
  fixes f :: "'a \<Rightarrow> 'b multiset"
  assumes "i < length xs" "f y + S' = f (xs ! i) + S + R"
  shows "(\<Sum>x\<leftarrow>xs[i := y]. f x) + S' = (\<Sum>x\<leftarrow>xs. f x) + S + R"
proof -
  have "((\<Sum>x\<leftarrow>xs[i := y]. f x) + S') + f (xs ! i) = ((\<Sum>x\<leftarrow>xs[i := y]. f x) + f (xs ! i)) + S'" by (simp add: ac_simps)
  also have "\<dots> = (\<Sum>x\<leftarrow>xs. f x) + (f y + S')" using sum_update [OF assms(1), of f y] by (simp add: ac_simps)
  also have "\<dots> = ((\<Sum>x\<leftarrow>xs. f x) + S + R) + f (xs ! i)" using assms(2) by (simp add: ac_simps)
  finally show ?thesis by simp
qed

lemma pass_spec:
  assumes ok: "pf_ok env items room pf" and p: "pass_ok env items l pf"
  shows "\<exists>pf'. pf_pass env l pf = Some pf' \<and> pf_ok env items room pf' \<and> same_config (pf_state pf) (pf_state pf')
    \<and> pf_held items pf' = pf_held items pf + pass_received (num_ports (pk_ports (pf_state pf))) l"
proof -
  let ?s = "pf_state pf"
  have ring: "rte_ring (pe_ring env) items room" "nic_ok env" using ok by (simp_all add: pf_ok_def)
  show ?thesis
  proof (cases l)
    case (Rx i inp)
    let ?qm = "pf_rx pf ! i" and ?P = "{p. routable env ?s p}"
    have i: "i < length (pf_rx pf)" and adm: "rx_adm ?P inp (?qm, ?s)" using p Rx by simp_all
    then have "bufs_ok ?qm" using ok by (simp add: pf_ok_def)
    then have "rx_inv env items room ?P (?qm, ?s)" using ok by (simp add: pf_ok_def rx_inv_def rx_world_def rx_ports_ok_def ports_ok_def)
    from rx_pass_spec [OF this adm] obtain qm' s' where
      r: "rx_pass env inp (?qm, ?s) = Some (qm', s')" "bufs_ok qm'" "same_config ?s s'"
        "held items (qm', s') = held items (?qm, ?s) + rx_received inp (?qm, ?s)" by (auto simp: rx_inv_def)
    let ?pf = "pf\<lparr>pf_state := s'\<rparr>\<lparr>pf_rx := (pf_rx pf)[i := qm']\<rparr>"
    have "pf_ok env items room ?pf" using ok_config [OF ok r(3)] r(2) by (auto simp: pf_ok_def dest: update_set)
    moreover have "pf_held items ?pf = pf_held items pf + pass_received (num_ports (pk_ports ?s)) l"
      using sum_swap [OF i, of qm_held qm' "state_held items s'" "state_held items ?s" "rx_received inp (?qm, ?s)"] r(4) Rx
      by (simp add: pf_held_def held_split rx_received_def ac_simps)
    ultimately show ?thesis using r(1,3) Rx by (intro exI [of _ ?pf]) simp
  next
    case (Tx i)
    let ?qm = "pf_tx pf ! i"
    have i: "i < length (pf_tx pf)" and w: "waiting_ok env items ?s" using p Tx by simp_all
    then have "tx_thread_ok (?qm, ?s)" using ok by (simp add: pf_ok_def)
    then have "tx_inv env items room (?qm, ?s)" using ring w ok by (simp add: tx_inv_def tx_thread_ok_def pf_ok_def)
    from tx_pass_spec [OF this] obtain qm' s' where
      r: "tx_pass env (?qm, ?s) = Some (qm', s')" "tx_inv env items room (qm', s')" "same_config ?s s'"
        "held items (qm', s') = held items (?qm, ?s)" by auto
    let ?pf = "pf\<lparr>pf_state := s'\<rparr>\<lparr>pf_tx := (pf_tx pf)[i := qm']\<rparr>"
    have "tx_thread_ok (qm', s')" using r(2) by (simp add: tx_inv_def tx_thread_ok_def)
    then have "pf_ok env items room ?pf" using ok_config [OF ok r(3)] by (auto simp: pf_ok_def dest: update_set)
    moreover have "pf_held items ?pf = pf_held items pf"
      using sum_swap [OF i, of qm_held qm' "state_held items s'" "state_held items ?s" "{#}"] r(4)
      by (simp add: pf_held_def held_split ac_simps)
    ultimately show ?thesis using r(1,3) Tx by (intro exI [of _ ?pf]) simp
  next
    case (Nf i h)
    obtain nf qm where e: "pf_nf pf ! i = (nf, qm)" by (metis surj_pair)
    have i: "i < length (pf_nf pf)" and adm: "nf_adm env items nf h (qm, ?s)" using p Nf e by simp_all
    then have "nf_inv env items room nf (qm, ?s)" using ok e nth_mem [OF i] by (auto simp: pf_ok_def)
    from nf_pass_spec [OF this adm] obtain qm' s' where
      r: "nf_pkt_pass env h nf (qm, ?s) = Some (qm', s')" "nf_inv env items room nf (qm', s')" "same_config ?s s'"
        "held items (qm', s') = held items (qm, ?s)" by blast
    let ?pf = "pf\<lparr>pf_state := s'\<rparr>\<lparr>pf_nf := (pf_nf pf)[i := (nf, qm')]\<rparr>"
    have "pf_ok env items room ?pf" using ok_config [OF ok r(3)] r(2) by (auto simp: pf_ok_def dest!: update_set)
    moreover have "pf_held items ?pf = pf_held items pf"
      using sum_swap [OF i, of "\<lambda>x. qm_held (snd x)" "(nf, qm')" "state_held items s'" "state_held items ?s" "{#}"] r(4) e
      by (simp add: pf_held_def held_split ac_simps)
    ultimately show ?thesis using r(1,3) Nf e by (intro exI [of _ ?pf]) simp
  qed
qed

section \<open>Properties\<close>


section \<open>A concrete schedule\<close>

text \<open>An RX thread, a TX thread and the NF 1, which has two packets to handle; two more are received.\<close>

definition demo_platform :: "(nat list_ring, nat list_ring, (onvm_ft_ipv4_5tuple \<times> nat) list) platform" where
  "demo_platform = \<lparr>pf_rx = [demo_qm], pf_tx = [demo_qm], pf_nf = [(1, demo_nf_qm)], pf_state = demo_nf_state\<rparr>"

definition demo_received :: rx_input where
  "demo_received = \<lparr>ri_nfs = (\<lambda>_. 2), ri_burst = (\<lambda>_. [3, 5])\<rparr>"

lemma routable_config:
  assumes "same_config s t" "pk_mbufs t p = pk_mbufs s p"
  shows "routable env t p = routable env s p"
proof -
  have "chain_of_pkt env t p = chain_of_pkt env s p" "meta_of t p = meta_of s p"
    using assms by (simp_all add: chain_of_pkt_def onvm_flow_dir_get_pkt_def meta_of_def same_config_def cong: if_cong)
  then show ?thesis using assms(1) by (simp add: routable_def same_config_def cong: option.case_cong)
qed

lemma demo_platform_ok: "pf_ok demo_pkt_env lr_items lr_room demo_platform"
proof -
  have c: "same_config demo_pkt_state demo_nf_state"
    by (auto simp: same_config_def demo_nf_state_def demo_pkt_state_def demo_nf_def nth_update_if nth_Cons')
  have "tx_thread_ok (demo_qm, demo_nf_state)"
    using cfg_ok_config [OF cfg_ok_none [OF demo_tx(2)] c] by (simp add: tx_thread_ok_def) (simp add: thread_range_def demo_qm_def onvm_limits)
  moreover have "ports_ok demo_nf_state" "rx_ports_ok demo_nf_state"
    by (simp_all add: ports_ok_def rx_ports_ok_def demo_nf_state_def demo_pkt_state_def)
  ultimately show ?thesis
    using demo_ring demo_tx(1) demo_cfg(1) same_config_tables [OF c demo_cfg(2)] demo_nf_inv
    by (simp add: pf_ok_def demo_platform_def)
qed

lemma demo_schedule_ok: "schedule_ok demo_pkt_env lr_items [Nf 0 demo_handler, Rx 0 demo_received] demo_platform"
proof -
  have burst: "next_burst lr_items 1 demo_nf_state = [7, 9]"
    by (simp add: next_burst_def demo_nf_state_def demo_pkt_state_def onvm_limits)
  obtain qm' s' where r: "nf_pkt_pass demo_pkt_env demo_handler 1 (demo_nf_qm, demo_nf_state) = Some (qm', s')"
    "same_config demo_nf_state s'" "\<forall>p. p \<notin> {7, 9} \<longrightarrow> pk_mbufs s' p = pk_mbufs demo_nf_state p"
    using nf_pass_spec [OF demo_nf_inv demo_nf_adm] unfolding burst by auto
  have "routable demo_pkt_env demo_nf_state 3" "routable demo_pkt_env demo_nf_state 5" by code_simp+
  then have rt: "routable demo_pkt_env s' 3" "routable demo_pkt_env s' 5"
    using routable_config [OF r(2)] r(3) by simp_all
  show ?thesis using r(1) rt demo_nf_adm
    by (simp add: demo_platform_def rx_adm_def demo_received_def onvm_limits split: option.split)
qed


end
