(* ===== verification/LoadBalancer.thy ===== *)
theory LoadBalancer
  imports FlowTable
begin

text \<open>
  The load balancer (\<^verbatim>\<open>src/examples/load_balancer/load_balancer.c\<close>): an NF that spreads the connections of clients over backend servers. Its
  flow table, over \<open>FlowTable\<close>, gives every connection a server; packets from the client port are rewritten towards that server and packets from the server port
  towards the client. \<open>None\<close> is an access outside an array or a packet, a division by zero, or a loop that does not end. Log output
  and the display every \<^verbatim>\<open>print_delay\<close> packets are not modelled.
\<close>

section \<open>State\<close>

record flow_info =
  fi_dest :: u8
  fi_s_addr_bytes :: "u8 list"
  fi_last_pkt_cycles :: u64
  fi_is_active :: int

record backend_server =
  d_addr_bytes :: "u8 list"
  d_ip :: u32

record 'h loadbalance =
  lb_ft :: "('h, flow_info) onvm_ft"
  server_count :: u8
  lb_server :: "backend_server list"
  num_stored :: u16
  elapsed_cycles :: u64
  last_cycles :: u64
  expire_time :: u32
  ip_lb_server :: u32
  ip_lb_client :: u32
  server_port :: u8
  client_port :: u8

abbreviation TABLE_SIZE :: int where "TABLE_SIZE \<equiv> 65536"

text \<open>The hash, the timer frequency and the addresses of the ports (\<^verbatim>\<open>onvm_get_macaddr\<close>, which fails for a port that does not exist) are parameters.\<close>

record 'h lb_env =
  le_hash :: "('h, onvm_ft_ipv4_5tuple) hash_api"
  le_softrss :: "u32 \<Rightarrow> u32 \<Rightarrow> u16 \<Rightarrow> u16 \<Rightarrow> u32"
  le_hz :: u64
  le_macaddr :: "u8 \<Rightarrow> u8 list option"
  le_helper :: helper_env

section \<open>The flow table\<close>

definition get_flow :: "'h loadbalance \<Rightarrow> nat \<Rightarrow> flow_info" where
  "get_flow lb p = ft_data (lb_ft lb) ! p"

definition set_flow :: "nat \<Rightarrow> flow_info \<Rightarrow> 'h loadbalance \<Rightarrow> 'h loadbalance" where
  "set_flow p f lb = lb\<lparr>lb_ft := (lb_ft lb)\<lparr>ft_data := (ft_data (lb_ft lb))[p := f]\<rparr>\<rparr>"

definition expired :: "u64 \<Rightarrow> 'h loadbalance \<Rightarrow> flow_info \<Rightarrow> bool" where
  "expired hz lb f \<longleftrightarrow> (elapsed_cycles lb - fi_last_pkt_cycles f) div hz \<ge> ucast (expire_time lb)"

definition update_status :: "u64 \<Rightarrow> 'h loadbalance \<Rightarrow> flow_info \<Rightarrow> flow_info" where
  "update_status hz lb f = f\<lparr>fi_is_active := if expired hz lb f then 0 else 1\<rparr>"

definition drop_flow :: "'h lb_env \<Rightarrow> onvm_ft_ipv4_5tuple \<Rightarrow> 'h loadbalance \<Rightarrow> 'h loadbalance" where
  "drop_flow env key lb =
     (let (ret, ft) = onvm_ft_remove_key (le_hash env) (le_softrss env) (lb_ft lb) key;
          lb1 = lb\<lparr>lb_ft := ft, num_stored := num_stored lb - 1\<rparr>
      in if ret < 0 then lb1\<lparr>num_stored := num_stored lb1 + 1\<rparr> else lb1)"

partial_function (option) clear_loop :: "'h lb_env \<Rightarrow> u32 \<Rightarrow> 'h loadbalance \<Rightarrow> 'h loadbalance option" where
  "clear_loop env next lb =
     (case onvm_ft_iterate (le_hash env) (lb_ft lb) next of ((tbl_index, data), key, next') \<Rightarrow>
        if tbl_index \<le> - 1 then Some lb
        else (case data of
          None \<Rightarrow> None
        | Some p \<Rightarrow> (case key of
            None \<Rightarrow> None
          | Some k \<Rightarrow>
              let f = update_status (le_hz env) lb (get_flow lb p); lb1 = set_flow p f lb
              in clear_loop env next' (if fi_is_active f = 0 then drop_flow env k lb1 else lb1))))"

text \<open>The only failure the code foresees is a null pointer to the data of a key, which the iteration never gives.\<close>

definition clear_entries :: "'h lb_env \<Rightarrow> 'h loadbalance \<Rightarrow> 'h loadbalance option" where
  "clear_entries env lb = (if le_hz env = 0 then None else clear_loop env 0 lb)"

text \<open>The result code with the pointer to the flow, and the new state.\<close>

definition table_add_entry :: "'h lb_env \<Rightarrow> onvm_ft_ipv4_5tuple \<Rightarrow> 'h loadbalance \<Rightarrow> (ft_result \<times> 'h loadbalance) option" where
  "table_add_entry env key lb = do {
     lb1 \<leftarrow> (if TABLE_SIZE - 1 - int (unat (num_stored lb)) = 0 then clear_entries env lb else Some lb);
     case onvm_ft_add_key (le_hash env) (le_softrss env) (lb_ft lb1) key of ((tbl_index, data), ft) \<Rightarrow>
       (let lb2 = lb1\<lparr>lb_ft := ft\<rparr> in
        if tbl_index < 0 then Some ((- 1, None), lb2)
        else (case data of
          None \<Rightarrow> None
        | Some p \<Rightarrow>
            let lb3 = lb2\<lparr>num_stored := num_stored lb2 + 1\<rparr> in
            if server_count lb3 = 0 then None
            else Some ((0, Some p), set_flow p ((get_flow lb3 p)\<lparr>fi_dest := ucast (num_stored lb3 mod ucast (server_count lb3)),
                    fi_last_pkt_cycles := elapsed_cycles lb3, fi_is_active := 0\<rparr>) lb3))) }"

definition table_lookup_entry :: "'h lb_env \<Rightarrow> mbuf \<Rightarrow> 'h loadbalance \<Rightarrow> (ft_result \<times> 'h loadbalance) option" where
  "table_lookup_entry env pkt lb = do {
     r \<leftarrow> onvm_ft_fill_key_symmetric pkt;
     case r of
       Inl e \<Rightarrow> Some ((- 1, None), lb)
     | Inr key \<Rightarrow>
         (case onvm_ft_lookup_key (le_hash env) (le_softrss env) (lb_ft lb) key of (tbl_index, data) \<Rightarrow>
            if tbl_index = - ENOENT then table_add_entry env key lb
            else if tbl_index < 0 then Some ((- 1, None), lb)
            else (case data of
              None \<Rightarrow> None
            | Some p \<Rightarrow> Some ((0, Some p), set_flow p ((get_flow lb p)\<lparr>fi_last_pkt_cycles := elapsed_cycles lb\<rparr>) lb))) }"

definition callback_handler :: "u64 \<Rightarrow> u64 \<Rightarrow> 'h loadbalance \<Rightarrow> 'h loadbalance" where
  "callback_handler hz now lb =
     (let lb1 = lb\<lparr>elapsed_cycles := now\<rparr> in
      if (now - last_cycles lb1) div hz > ucast (expire_time lb1) then lb1\<lparr>last_cycles := now\<rparr> else lb1)"

section \<open>Packets\<close>

definition le_bytes32 :: "u32 \<Rightarrow> u8 list" where
  "le_bytes32 w = [ucast w, ucast (drop_bit 8 w), ucast (drop_bit 16 w), ucast (drop_bit 24 w)]"

text \<open>\<open>Lb_Exit\<close>: the process gives up because a port has no address.\<close>

datatype 'h lb_result = Lb_Exit | Lb_Done mbuf "'h loadbalance"

definition lb_drop :: "mbuf \<Rightarrow> mbuf" where
  "lb_drop m = m\<lparr>mb_meta := (mb_meta m)\<lparr>action := ONVM_NF_ACTION_DROP, destination := 0\<rparr>\<rparr>"

text \<open>The address of the load balancer is removed from the packet, so that both directions have one key.\<close>

definition lb_clear_ip :: "'h loadbalance \<Rightarrow> nat \<Rightarrow> mbuf \<Rightarrow> mbuf option" where
  "lb_clear_ip lb ip m = on_bytes (\<lambda>bs. put_block bs (if mb_port m = ucast (client_port lb) then ip + 16 else ip + 12) [0, 0, 0, 0]) m"

definition save_client :: "nat \<Rightarrow> u8 list \<Rightarrow> 'h loadbalance \<Rightarrow> 'h loadbalance" where
  "save_client p s_addr lb =
     (if fi_is_active (get_flow lb p) = 0 then set_flow p ((get_flow lb p)\<lparr>fi_is_active := 1, fi_s_addr_bytes := s_addr\<rparr>) lb else lb)"

definition lb_rewrite :: "u8 list \<Rightarrow> u8 list \<Rightarrow> nat \<Rightarrow> u32 \<Rightarrow> u8 \<Rightarrow> mbuf \<Rightarrow> mbuf option" where
  "lb_rewrite s_addr d_addr off ip port m = do {
     m1 \<leftarrow> on_bytes (\<lambda>bs. put_block bs 6 s_addr) m;
     m2 \<leftarrow> on_bytes (\<lambda>bs. put_block bs 0 d_addr) m1;
     m3 \<leftarrow> on_bytes (\<lambda>bs. put_block bs off (le_bytes32 ip)) m2;
     Some (m3\<lparr>mb_meta := (mb_meta m3)\<lparr>destination := ucast port\<rparr>\<rparr>) }"

text \<open>Towards the client or towards the server of the flow; the inner \<open>None\<close> is the exit.\<close>

definition lb_redirect :: "'h lb_env \<Rightarrow> 'h loadbalance \<Rightarrow> flow_info \<Rightarrow> nat \<Rightarrow> mbuf \<Rightarrow> mbuf option option" where
  "lb_redirect env lb f ip m =
     (if mb_port m = ucast (server_port lb)
      then case le_macaddr env (client_port lb) of
          None \<Rightarrow> Some None
        | Some mac \<Rightarrow> map_option Some (lb_rewrite mac (fi_s_addr_bytes f) (ip + 12) (ip_lb_client lb) (client_port lb) m)
      else case le_macaddr env (server_port lb) of
          None \<Rightarrow> Some None
        | Some mac \<Rightarrow>
            if unat (fi_dest f) \<ge> length (lb_server lb) then None
            else let srv = lb_server lb ! unat (fi_dest f)
              in map_option Some (lb_rewrite mac (d_addr_bytes srv) (ip + 16) (bswap32 (d_ip srv)) (server_port lb) m))"

definition lb_packet_handler :: "'h lb_env \<Rightarrow> mbuf \<Rightarrow> 'h loadbalance \<Rightarrow> 'h lb_result option" where
  "lb_packet_handler env m lb = do {
     hdr \<leftarrow> onvm_pkt_ipv4_hdr m;
     case hdr of
       None \<Rightarrow> Some (Lb_Done (lb_drop m) lb)
     | Some ip \<Rightarrow> do {
         s \<leftarrow> word_at (mb_bytes m) (ip + 12);
         d \<leftarrow> word_at (mb_bytes m) (ip + 16);
         if s = 0 \<or> d = 0 then Some (Lb_Done (lb_drop m) lb)
         else do {
           m1 \<leftarrow> lb_clear_ip lb ip m;
           ((ret, data), lb1) \<leftarrow> table_lookup_entry env m1 lb;
           if ret = - 1 then Some (Lb_Done (lb_drop m1) lb1)
           else do {
             p \<leftarrow> data;
             s_addr \<leftarrow> block_at (mb_bytes m1) 6 6;
             let lb2 = save_client p s_addr lb1;
             r \<leftarrow> lb_redirect env lb2 (get_flow lb2 p) ip m1;
             case r of
               None \<Rightarrow> Some Lb_Exit
             | Some m2 \<Rightarrow> do {
                 m3 \<leftarrow> onvm_pkt_set_checksums (le_helper env) m2;
                 Some (Lb_Done (m3\<lparr>mb_meta := (mb_meta m3)\<lparr>action := ONVM_NF_ACTION_OUT\<rparr>\<rparr>) lb2) } } } } }"

section \<open>Set-up\<close>

text \<open>
  The configuration file: the number of servers (\<open>None\<close> when it could not be read, which leaves the variable unset) and the pairs of
  strings that follow. A string of 32 characters or more leaves its buffer.
\<close>

primrec read_servers :: "nat \<Rightarrow> (string \<times> string) list \<Rightarrow> (backend_server list option) option" where
  "read_servers 0 entries = Some (Some [])"
| "read_servers (Suc n) entries =
     (case entries of
        [] \<Rightarrow> Some None
      | (ip, mac) # rest \<Rightarrow>
          if length ip \<ge> 32 \<or> length mac \<ge> 32 then None
          else case onvm_pkt_parse_ip (Some ip) of (r, a) \<Rightarrow>
            if r < 0 then Some None
            else case onvm_pkt_parse_mac (Some mac) of (r2, b) \<Rightarrow>
              if r2 < 0 then Some None
              else do { i \<leftarrow> a; m \<leftarrow> b; servers \<leftarrow> read_servers n rest;
                        Some (map_option ((#) \<lparr>d_addr_bytes = m, d_ip = i\<rparr>) servers) })"

text \<open>The inner \<open>None\<close> is \<^verbatim>\<open>rte_exit\<close>; \<open>malloc_ok n\<close> says whether an array of \<open>n\<close> servers can be allocated.\<close>

definition parse_backend_config :: "(nat \<Rightarrow> bool) \<Rightarrow> int option \<Rightarrow> (string \<times> string) list \<Rightarrow> 'h loadbalance \<Rightarrow> 'h loadbalance option option" where
  "parse_backend_config malloc_ok temp entries lb = do {
     n \<leftarrow> temp;
     if n \<le> 0 then Some None
     else let cnt = word_of_int n in
       if \<not> malloc_ok (unat cnt) then Some None
       else do { servers \<leftarrow> read_servers (unat cnt) entries;
                 Some (map_option (\<lambda>sv. lb\<lparr>server_count := cnt, lb_server := sv\<rparr>) servers) } }"

text \<open>Which of the first two ports of the manager is the client's: \<open>macs\<close> is \<^verbatim>\<open>ports->mac\<close>, \<open>ids\<close> is \<^verbatim>\<open>ports->id\<close>.\<close>

definition assign_ports :: "u8 list \<Rightarrow> u8 list list \<Rightarrow> u8 list \<Rightarrow> 'h loadbalance \<Rightarrow> 'h loadbalance option" where
  "assign_ports client_mac macs ids lb =
     (if length macs = 0 \<or> length ids < 2 then None
      else Some (if client_mac = macs ! 0 then lb\<lparr>client_port := ids ! 0, server_port := ids ! 1\<rparr>
                 else lb\<lparr>client_port := ids ! 1, server_port := ids ! 0\<rparr>))"

section \<open>Runs\<close>

datatype lb_event = Lb_Callback u64 | Lb_Packet mbuf

definition lb_step :: "'h lb_env \<Rightarrow> lb_event \<Rightarrow> 'h loadbalance \<Rightarrow> 'h loadbalance option" where
  "lb_step env ev lb =
     (case ev of
        Lb_Callback now \<Rightarrow> Some (callback_handler (le_hz env) now lb)
      | Lb_Packet m \<Rightarrow> (case lb_packet_handler env m lb of Some (Lb_Done m' lb') \<Rightarrow> Some lb' | _ \<Rightarrow> None))"

primrec lb_run :: "'h lb_env \<Rightarrow> lb_event list \<Rightarrow> 'h loadbalance \<Rightarrow> 'h loadbalance option" where
  "lb_run env [] lb = Some lb"
| "lb_run env (ev # evs) lb = Option.bind (lb_step env ev lb) (lb_run env evs)"

text \<open>
  The run never sees the count of stored connections at 65535, the value at which a packet of a new
  connection makes the code clear the expired ones.
\<close>

primrec below_limit :: "'h lb_env \<Rightarrow> lb_event list \<Rightarrow> 'h loadbalance \<Rightarrow> bool" where
  "below_limit env [] lb \<longleftrightarrow> num_stored lb \<noteq> 0xffff"
| "below_limit env (ev # evs) lb \<longleftrightarrow> num_stored lb \<noteq> 0xffff
     \<and> (case lb_step env ev lb of None \<Rightarrow> True | Some lb' \<Rightarrow> below_limit env evs lb')"

section \<open>Bytes\<close>

lemma length_le_bytes32 [simp]: "length (le_bytes32 w) = 4"
  by (simp add: le_bytes32_def)

lemma le_bytes32_value:
  "ucast (le16 (ucast w) (ucast (drop_bit 8 w))) + 65536 * ucast (le16 (ucast (drop_bit 16 w)) (ucast (drop_bit 24 w))) = w" for w :: u32
proof -
  have u: "unat (ucast a :: u8) = unat a mod 256" for a :: u32 by (simp add: unsigned_ucast_eq take_bit_eq_mod)
  have h: "unat (le16 (ucast a) (ucast b)) = unat a mod 256 + 256 * (unat b mod 256)" for a b :: u32
  proof -
    have "unat (ucast (ucast a :: u8) :: u16) = unat a mod 256" "unat (ucast (ucast b :: u8) :: u16) = unat b mod 256"
      using u by (subst unat_ucast_up, simp_all)+
    moreover have "unat a mod 256 < 256" "unat b mod 256 < 256" by simp_all
    ultimately show ?thesis by (simp add: le16_def unat_word_ariths)
  qed
  have d: "unat (drop_bit 8 w) = unat w div 256" "unat (drop_bit 16 w) = unat w div 65536" "unat (drop_bit 24 w) = unat w div 16777216"
    unfolding unat_drop_bit_eq by (simp_all add: drop_bit_eq_div)
  define x where "x = unat w"
  have x: "x < 4294967296" using unat_less_2p [of w] by (simp add: x_def)
  have split: "y = y mod 256 + 256 * (y div 256)" for y :: nat by simp
  have q: "x div 65536 = x div 256 div 256" "x div 16777216 = x div 65536 div 256" by (simp_all flip: div_mult2_eq)
  have "x div 16777216 < 256" using x by (simp add: div_less_iff_less_mult)
  then have "x div 16777216 mod 256 = x div 16777216" by simp
  moreover have "y = a + 256 * c + 65536 * (e + 256 * g')" if "y = a + 256 * b" "b = c + 256 * d" "d = e + 256 * g" "g' = g"
    for y a b c d e g g' :: nat using that by simp
  ultimately have "x = x mod 256 + 256 * (x div 256 mod 256) + 65536 * (x div 65536 mod 256 + 256 * (x div 16777216 mod 256))"
    using split [of x] split [of "x div 256"] split [of "x div 65536"] unfolding q(1) [symmetric] q(2) [symmetric] by blast
  then have "unat (ucast (le16 (ucast w) (ucast (drop_bit 8 w))) + 65536 * ucast (le16 (ucast (drop_bit 16 w)) (ucast (drop_bit 24 w))) :: u32) = unat w"
    using x by (simp add: unat_word_ariths unat_ucast_up h d flip: x_def)
  then show ?thesis by (simp add: word_unat_eq_iff)
qed

lemma put_block_Some:
  "put_block bs i xs = Some bs' \<longleftrightarrow> i + length xs \<le> length bs \<and> bs' = take i bs @ xs @ drop (i + length xs) bs"
  by (auto simp: put_block_def)

text \<open>Reading a byte after a block was written.\<close>

lemma nth_put_block:
  assumes "put_block bs i xs = Some bs'"
  shows "length bs' = length bs" "bs' ! k = (if i \<le> k \<and> k < i + length xs then xs ! (k - i) else bs ! k)"
proof -
  have l: "i + length xs \<le> length bs" and bs': "bs' = take i bs @ xs @ drop (i + length xs) bs" using assms by (simp_all add: put_block_Some)
  show "length bs' = length bs" using l bs' by simp
  show "bs' ! k = (if i \<le> k \<and> k < i + length xs then xs ! (k - i) else bs ! k)"
  proof (cases "k < i + length xs")
    case True
    then show ?thesis using l by (auto simp: bs' nth_append min_def)
  next
    case False
    have "length (take i bs @ xs) = i + length xs" using l by simp
    then have "bs' ! k = drop (i + length xs) bs ! (k - (i + length xs))" using False by (simp add: bs' nth_append flip: append_assoc)
    then show ?thesis using False l by simp
  qed
qed

lemma word_at_bytes:
  "i + 4 \<le> length bs \<Longrightarrow> word_at bs i = Some (ucast (le16 (bs ! i) (bs ! (i + 1))) + 65536 * ucast (le16 (bs ! (i + 2)) (bs ! (i + 3))))"
  by (simp add: word_at_def half_at_def byte_at_def eval_nat_numeral)

lemma word_at_put:
  assumes "put_block bs i (le_bytes32 w) = Some bs'"
  shows "word_at bs' i = Some w"
proof -
  have "i + 4 \<le> length bs'" using assms nth_put_block(1) [OF assms] by (simp add: put_block_Some)
  then show ?thesis
    using nth_put_block(2) [OF assms] le_bytes32_value [of w] by (subst word_at_bytes) (simp_all add: le_bytes32_def)
qed

lemma word_at_same:
  assumes "length bs' = length bs" "\<forall>k. i \<le> k \<and> k < i + 4 \<longrightarrow> bs' ! k = bs ! k"
  shows "word_at bs' i = word_at bs i"
  using assms by (simp add: word_at_def half_at_def byte_at_def)

lemma block_same:
  assumes "length bs' = length bs" "\<forall>k. i \<le> k \<and> k < i + n \<longrightarrow> bs' ! k = bs ! k"
  shows "take n (drop i bs') = take n (drop i bs)"
  using assms by (intro nth_equalityI) auto

section \<open>Rewriting packets\<close>

lemma set_ip_cksum_touches:
  assumes "set_ip_cksum env hw 14 m = Some m'"
  shows "touches {24, 25} m m'" "mb_meta m' = mb_meta m"
  using assms by (auto simp: set_ip_cksum_def on_bytes_def put_half_def touches_def bind_eq_Some_conv split: if_splits)

lemma set_l4_meta: "set_l4_cksum env ofl flag p ip l4 off m = Some m' \<Longrightarrow> mb_meta m' = mb_meta m"
  by (auto simp: set_l4_cksum_def on_bytes_def bind_eq_Some_conv split: if_splits)

lemma set_tcp_udp_meta:
  "set_tcp_cksum env hw ip t m = Some m' \<Longrightarrow> mb_meta m' = mb_meta m" "set_udp_cksum env hw ip t m = Some m' \<Longrightarrow> mb_meta m' = mb_meta m"
  by (auto simp: set_tcp_cksum_def set_udp_cksum_def on_bytes_def bind_eq_Some_conv dest!: set_l4_meta split: option.splits)

text \<open>Whatever the port computes in hardware, only checksum fields change.\<close>

lemma set_checksums_keeps:
  assumes "plain_ipv4 m" "onvm_pkt_set_checksums env m = Some m'"
  shows "length (mb_bytes m') = length (mb_bytes m)" "k \<notin> {24, 25, 40, 41, 50, 51} \<Longrightarrow> mb_bytes m' ! k = mb_bytes m ! k"
    "mb_meta m' = mb_meta m"
proof -
  let ?hw = "onvm_pkt_get_checksum_offload_flags env (ucast (mb_port m))"
  obtain m3 m4 where s: "set_tcp_cksum env ?hw 14 (l4_at IP_PROTOCOL_TCP m) (cksum_start env m) = Some m3"
    "set_udp_cksum env ?hw 14 (l4_at IP_PROTOCOL_UDP m) m3 = Some m4" "set_ip_cksum env ?hw 14 m4 = Some m'"
    using assms(2) unfolding set_checksums_steps [OF assms(1)] by (auto simp: bind_eq_Some_conv)
  have len: "60 \<le> length (mb_bytes (cksum_start env m))" using assms(1) by (simp add: plain_ipv4_def cksum_start_def)
  have t3: "touches {50, 51} (cksum_start env m) m3" by (rule set_tcp_cksum_cases(2) [OF len _ s(1)]) simp
  have len3: "60 \<le> length (mb_bytes m3)" using t3 len by (simp add: touches_def)
  have t4: "touches {40, 41} m3 m4" by (rule set_udp_cksum_cases(2) [OF len3 _ s(2)]) simp
  have t: "touches ({50, 51} \<union> ({40, 41} \<union> {24, 25})) (cksum_start env m) m'"
    by (rule touches_trans [OF t3 touches_trans [OF t4 set_ip_cksum_touches(1) [OF s(3)]]])
  then show "length (mb_bytes m') = length (mb_bytes m)" by (simp add: touches_def cksum_start_def)
  show "k \<notin> {24, 25, 40, 41, 50, 51} \<Longrightarrow> mb_bytes m' ! k = mb_bytes m ! k"
    using t by (auto simp: touches_def cksum_start_def)
  show "mb_meta m' = mb_meta m"
    using set_tcp_udp_meta(1) [OF s(1)] set_tcp_udp_meta(2) [OF s(2)] set_ip_cksum_touches(2) [OF s(3)] by (simp add: cksum_start_def)
qed

abbreviation word_of :: "u8 list \<Rightarrow> nat \<Rightarrow> u32" where
  "word_of bs i \<equiv> ucast (le16 (bs ! i) (bs ! (i + 1))) + 65536 * ucast (le16 (bs ! (i + 2)) (bs ! (i + 3)))"

lemma fill_key_bytes:
  fixes m :: mbuf
  assumes "38 \<le> length (mb_bytes m)"
  defines "b \<equiv> mb_bytes m"
  shows "onvm_ft_fill_key m = Some (if drop_bit 4 (b ! 14) AND 15 \<noteq> 4 then Inl (- EPROTONOSUPPORT)
      else Inr \<lparr>src_addr = word_of b 26, dst_addr = word_of b 30,
        src_port = (if b ! 23 = IP_PROTOCOL_TCP \<or> b ! 23 = IP_PROTOCOL_UDP then le16 (b ! 34) (b ! 35) else 0),
        dst_port = (if b ! 23 = IP_PROTOCOL_TCP \<or> b ! 23 = IP_PROTOCOL_UDP then le16 (b ! 36) (b ! 37) else 0), proto = b ! 23\<rparr>)"
  using assms by (simp add: onvm_ft_fill_key_def onvm_pkt_is_ipv4_def onvm_pkt_ipv4_hdr_def onvm_pkt_tcp_hdr_def
        onvm_pkt_udp_hdr_def l4_hdr_def ports_at_def word_at_def half_at_def byte_at_def Let_def)

text \<open>The key of a packet without the address of the load balancer: it depends on the direction only up to order.\<close>

definition lb_key :: "'h loadbalance \<Rightarrow> mbuf \<Rightarrow> onvm_ft_ipv4_5tuple \<Rightarrow> onvm_ft_ipv4_5tuple" where
  "lb_key lb m k = order_key (if mb_port m = ucast (client_port lb) then k\<lparr>dst_addr := 0\<rparr> else k\<lparr>src_addr := 0\<rparr>)"

lemma clear_ip_bytes:
  assumes "plain_ipv4 m"
  shows "\<exists>m1. lb_clear_ip lb 14 m = Some m1 \<and> length (mb_bytes m1) = length (mb_bytes m) \<and> plain_ipv4 m1 \<and> mb_port m1 = mb_port m \<and> mb_meta m1 = mb_meta m
    \<and> (\<forall>i. mb_bytes m1 ! i = (if (if mb_port m = ucast (client_port lb) then 30 \<le> i \<and> i < 34 else 26 \<le> i \<and> i < 30) then 0 else mb_bytes m ! i))"
proof -
  let ?o = "if mb_port m = ucast (client_port lb) then 14 + 16 else 14 + 12 :: nat"
  have len: "74 \<le> length (mb_bytes m)" using assms by (simp add: plain_ipv4_def)
  then have room: "?o + length [0, 0, 0, 0 :: u8] \<le> length (mb_bytes m)" by simp
  then obtain bs where bs: "put_block (mb_bytes m) ?o [0, 0, 0, 0] = Some bs" unfolding put_block_def by (simp only: if_True)
  have z: "[0, 0, 0, 0 :: u8] ! j = 0" if "j < 4" for j using that by (auto simp: less_Suc_eq numeral_eq_Suc)
  note n = nth_put_block [OF bs]
  have b: "bs ! i = (if (if mb_port m = ucast (client_port lb) then 30 \<le> i \<and> i < 34 else 26 \<le> i \<and> i < 30) then 0 else mb_bytes m ! i)" for i
    using n(2) [of i] z by auto
  have "plain_ipv4 (m\<lparr>mb_bytes := bs\<rparr>)"
    using assms b [of 14] n(1) len by (simp add: plain_ipv4_def onvm_pkt_is_ipv4_def onvm_pkt_ipv4_hdr_def byte_at_def Let_def)
  then show ?thesis using b n(1) bs by (intro exI [of _ "m\<lparr>mb_bytes := bs\<rparr>"]) (simp add: lb_clear_ip_def on_bytes_def)
qed

lemma cleared_key:
  assumes "plain_ipv4 m" "onvm_ft_fill_key m = Some (Inr ck)" "lb_clear_ip lb 14 m = Some m1"
  shows "onvm_ft_fill_key_symmetric m1 = Some (Inr (lb_key lb m ck))"
proof -
  have len: "74 \<le> length (mb_bytes m)" using assms(1) by (simp add: plain_ipv4_def)
  have b: "length (mb_bytes m1) = length (mb_bytes m)" "\<And>i. mb_bytes m1 ! i =
      (if (if mb_port m = ucast (client_port lb) then 30 \<le> i \<and> i < 34 else 26 \<le> i \<and> i < 30) then 0 else mb_bytes m ! i)"
    using clear_ip_bytes [OF assms(1), of lb] assms(3) by auto
  have z: "le16 0 0 = 0" by (simp add: le16_def)
  have "onvm_ft_fill_key m1 = Some (Inr (if mb_port m = ucast (client_port lb) then ck\<lparr>dst_addr := 0\<rparr> else ck\<lparr>src_addr := 0\<rparr>))"
    using fill_key_bytes [of m1] fill_key_bytes [of m] assms(2) len b z by (auto split: if_splits)
  then show ?thesis by (simp add: onvm_ft_fill_key_symmetric_def lb_key_def)
qed

text \<open>What the rewriting leaves in the packet.\<close>

lemma rewrite_bytes:
  assumes "lb_rewrite s_addr d_addr off ip port m = Some m'" "length s_addr = 6" "length d_addr = 6" "26 \<le> off" "off + 4 \<le> 34" "plain_ipv4 m"
  shows "length (mb_bytes m') = length (mb_bytes m)" "take 6 (mb_bytes m') = d_addr" "take 6 (drop 6 (mb_bytes m')) = s_addr"
    "word_at (mb_bytes m') off = Some ip" "plain_ipv4 m'" "mb_meta m' = (mb_meta m)\<lparr>destination := ucast port\<rparr>"
proof -
  obtain b1 b2 b3 where b: "put_block (mb_bytes m) 6 s_addr = Some b1" "put_block b1 0 d_addr = Some b2" "put_block b2 off (le_bytes32 ip) = Some b3"
    and m': "m' = m\<lparr>mb_bytes := b3, mb_meta := (mb_meta m)\<lparr>destination := ucast port\<rparr>\<rparr>"
    using assms(1) by (auto simp: lb_rewrite_def on_bytes_def bind_eq_Some_conv)
  note n = nth_put_block [OF b(1)] nth_put_block [OF b(2)] nth_put_block [OF b(3)]
  have len: "74 \<le> length (mb_bytes m)" using assms(6) by (simp add: plain_ipv4_def)
  show l: "length (mb_bytes m') = length (mb_bytes m)" using n by (simp add: m')
  show "take 6 (mb_bytes m') = d_addr" using n assms(2-4) len by (intro nth_equalityI) (simp_all add: m')
  show "take 6 (drop 6 (mb_bytes m')) = s_addr" using n assms(2-4) len by (intro nth_equalityI) (simp_all add: m')
  show "word_at (mb_bytes m') off = Some ip" unfolding m' using word_at_put [OF b(3)] by simp
  have "mb_bytes m' ! 14 = mb_bytes m ! 14" using n assms(2-4) by (simp add: m')
  then show "plain_ipv4 m'"
    using assms(6) l len by (simp add: plain_ipv4_def onvm_pkt_is_ipv4_def onvm_pkt_ipv4_hdr_def byte_at_def Let_def)
  show "mb_meta m' = (mb_meta m)\<lparr>destination := ucast port\<rparr>" by (simp add: m')
qed

lemma ipv4_hdr_at: "onvm_pkt_ipv4_hdr m = Some (Some ip) \<Longrightarrow> ip = 14"
  by (auto simp: onvm_pkt_ipv4_hdr_def bind_eq_Some_conv Let_def split: if_splits)

text \<open>The ways through the handler.\<close>

lemma handler_cases:
  assumes "lb_packet_handler env m lb = Some (Lb_Done m' lb')"
  obtains (early) "action (mb_meta m') = ONVM_NF_ACTION_DROP" "lb' = lb"
    | (refused) m1 d where "action (mb_meta m') = ONVM_NF_ACTION_DROP" "lb_clear_ip lb 14 m = Some m1" "table_lookup_entry env m1 lb = Some ((- 1, d), lb')"
    | (forwarded) m1 p r lb1 s_addr m2 m3 where "lb_clear_ip lb 14 m = Some m1" "table_lookup_entry env m1 lb = Some ((r, Some p), lb1)" "r \<noteq> - 1"
      "block_at (mb_bytes m1) 6 6 = Some s_addr" "lb' = save_client p s_addr lb1" "lb_redirect env lb' (get_flow lb' p) 14 m1 = Some (Some m2)"
      "onvm_pkt_set_checksums (le_helper env) m2 = Some m3" "m' = m3\<lparr>mb_meta := (mb_meta m3)\<lparr>action := ONVM_NF_ACTION_OUT\<rparr>\<rparr>"
proof -
  obtain hdr where hdr: "onvm_pkt_ipv4_hdr m = Some hdr" using assms by (auto simp: lb_packet_handler_def bind_eq_Some_conv)
  show thesis
  proof (cases hdr)
    case None
    then show ?thesis using assms hdr early by (auto simp: lb_packet_handler_def lb_drop_def)
  next
    case (Some ip)
    then have ip: "hdr = Some 14" using hdr ipv4_hdr_at by blast
    obtain s d where sd: "word_at (mb_bytes m) 26 = Some s" "word_at (mb_bytes m) 30 = Some d"
      using assms hdr ip by (auto simp: lb_packet_handler_def bind_eq_Some_conv)
    show ?thesis
    proof (cases "s = 0 \<or> d = 0")
      case True
      then show ?thesis using assms hdr ip sd early by (auto simp: lb_packet_handler_def lb_drop_def)
    next
      case False
      then obtain m1 r d' lb1 where m1: "lb_clear_ip lb 14 m = Some m1" and l: "table_lookup_entry env m1 lb = Some ((r, d'), lb1)"
        using assms hdr ip sd by (auto simp: lb_packet_handler_def bind_eq_Some_conv)
      show ?thesis
      proof (cases "r = - 1")
        case True
        then show ?thesis using assms hdr ip sd False m1 l refused by (auto simp: lb_packet_handler_def lb_drop_def)
      next
        case r: False
        show ?thesis
          using assms hdr ip sd False m1 l r forwarded
          by (auto simp: lb_packet_handler_def bind_eq_Some_conv Let_def split: option.splits)
      qed
    qed
  qed
qed

section \<open>The flow table of the load balancer\<close>

definition flow_of :: "('h \<Rightarrow> onvm_ft_ipv4_5tuple \<Rightarrow> nat option) \<Rightarrow> 'h loadbalance \<Rightarrow> onvm_ft_ipv4_5tuple \<Rightarrow> flow_info option" where
  "flow_of slots lb = ft_map slots (lb_ft lb)"

text \<open>Everything but the table, its count and the clock.\<close>

definition same_setup :: "'h loadbalance \<Rightarrow> 'h loadbalance \<Rightarrow> bool" where
  "same_setup lb lb' \<longleftrightarrow> server_count lb' = server_count lb \<and> lb_server lb' = lb_server lb \<and> expire_time lb' = expire_time lb
     \<and> ip_lb_client lb' = ip_lb_client lb \<and> ip_lb_server lb' = ip_lb_server lb \<and> server_port lb' = server_port lb \<and> client_port lb' = client_port lb"

lemma same_setup_refl [simp]: "same_setup lb lb"
  by (simp add: same_setup_def)

lemma same_setup_trans [trans]: "same_setup a b \<Longrightarrow> same_setup b c \<Longrightarrow> same_setup a c"
  by (simp add: same_setup_def)

lemma set_flow_simps [simp]:
  "same_setup lb (set_flow p f lb)" "num_stored (set_flow p f lb) = num_stored lb" "elapsed_cycles (set_flow p f lb) = elapsed_cycles lb"
  "ft_hash (lb_ft (set_flow p f lb)) = ft_hash (lb_ft lb)" "set_flow p g (set_flow p f lb) = set_flow p g lb"
  by (simp_all add: set_flow_def same_setup_def)

text \<open>The client of a hash: the keys come with their software hash value.\<close>

locale lb_table = rte_hash "le_hash env" slots "onvm_softrss (le_softrss env)" cap hinv
  for env :: "'h lb_env" and slots :: "'h \<Rightarrow> onvm_ft_ipv4_5tuple \<Rightarrow> nat option" and cap :: nat and hinv :: "'h \<Rightarrow> bool"
begin

lemma set_flow_map:
  assumes "ft_ok hinv cap (lb_ft lb)" "slots (ft_hash (lb_ft lb)) k = Some p"
  shows "flow_of slots (set_flow p f lb) = (flow_of slots lb)(k \<mapsto> f)" "ft_ok hinv cap (lb_ft (set_flow p f lb))"
    "get_flow (set_flow p f lb) p = f" "flow_of slots lb k = Some (get_flow lb p)"
proof -
  have h: "hinv (ft_hash (lb_ft lb))" "length (ft_data (lb_ft lb)) = cap" using assms(1) by (simp_all add: ft_ok_def)
  have p: "p < cap" using slots_bound [OF h(1) assms(2)] .
  show "flow_of slots (set_flow p f lb) = (flow_of slots lb)(k \<mapsto> f)"
  proof
    fix k'
    show "flow_of slots (set_flow p f lb) k' = ((flow_of slots lb)(k \<mapsto> f)) k'"
    proof (cases "slots (ft_hash (lb_ft lb)) k'")
      case None
      then show ?thesis using assms(2) by (auto simp: flow_of_def ft_map_def)
    next
      case (Some i)
      then have "i = p \<longleftrightarrow> k' = k" using slots_inj [OF h(1)] assms(2) by auto
      then show ?thesis using Some p h(2) by (auto simp: flow_of_def ft_map_def set_flow_def nth_update_if)
    qed
  qed
  show "ft_ok hinv cap (lb_ft (set_flow p f lb))" "get_flow (set_flow p f lb) p = f" "flow_of slots lb k = Some (get_flow lb p)"
    using h p assms(2) by (simp_all add: set_flow_def ft_ok_def get_flow_def flow_of_def ft_map_def)
qed

lemma drop_flow_spec:
  assumes "ft_ok hinv cap (lb_ft lb)" "slots (ft_hash (lb_ft lb)) k \<noteq> None"
  shows "ft_ok hinv cap (lb_ft (drop_flow env k lb))" "flow_of slots (drop_flow env k lb) = (flow_of slots lb)(k := None)"
    "num_stored (drop_flow env k lb) = num_stored lb - 1" "same_setup lb (drop_flow env k lb)"
    "elapsed_cycles (drop_flow env k lb) = elapsed_cycles lb"
    "ft_hash (lb_ft (drop_flow env k lb)) = snd (hash_del_key (le_hash env) (ft_hash (lb_ft lb)) k (onvm_softrss (le_softrss env) k))"
proof -
  obtain r h where d: "hash_del_key (le_hash env) (ft_hash (lb_ft lb)) k (onvm_softrss (le_softrss env) k) = (r, h)" by (metis surj_pair)
  note m = del_map [OF assms(1) d]
  have "0 \<le> r" using m(3) assms(2) by (auto split: option.splits)
  then have e: "drop_flow env k lb = lb\<lparr>lb_ft := (lb_ft lb)\<lparr>ft_hash := h\<rparr>, num_stored := num_stored lb - 1\<rparr>"
    using d by (simp add: drop_flow_def onvm_ft_remove_key_def)
  show "ft_ok hinv cap (lb_ft (drop_flow env k lb))" "flow_of slots (drop_flow env k lb) = (flow_of slots lb)(k := None)"
    "num_stored (drop_flow env k lb) = num_stored lb - 1" "same_setup lb (drop_flow env k lb)"
    "elapsed_cycles (drop_flow env k lb) = elapsed_cycles lb"
    "ft_hash (lb_ft (drop_flow env k lb)) = snd (hash_del_key (le_hash env) (ft_hash (lb_ft lb)) k (onvm_softrss (le_softrss env) k))"
    using m(1,2) d by (simp_all add: e flow_of_def same_setup_def)
qed

text \<open>Adding: a new key gets a place of its own, or the table is full and nothing changes.\<close>

lemma add_key_spec:
  assumes ok: "ft_ok hinv cap (lb_ft lb)" and new: "slots (ft_hash (lb_ft lb)) k = None"
  shows "\<exists>r d ft. onvm_ft_add_key (le_hash env) (le_softrss env) (lb_ft lb) k = ((r, d), ft) \<and> ft_ok hinv cap ft \<and> ft_data ft = ft_data (lb_ft lb)
    \<and> (r = - ENOSPC \<and> slots (ft_hash ft) = slots (ft_hash (lb_ft lb))
       \<or> (\<exists>p. r = int p \<and> d = Some p \<and> slots (ft_hash ft) = (slots (ft_hash (lb_ft lb)))(k \<mapsto> p)))"
proof -
  obtain r h where a: "hash_add_key (le_hash env) (ft_hash (lb_ft lb)) k (onvm_softrss (le_softrss env) k) = (r, h)" by (metis surj_pair)
  have h: "hinv (ft_hash (lb_ft lb))" "length (ft_data (lb_ft lb)) = cap" using ok by (simp_all add: ft_ok_def)
  have s: "hinv h" "r = - ENOSPC \<and> slots h = slots (ft_hash (lb_ft lb)) \<or> (\<exists>i. r = int i \<and> slots h = (slots (ft_hash (lb_ft lb)))(k \<mapsto> i))"
    using add_absent [OF h(1) new a] by simp_all
  have e: "onvm_ft_add_key (le_hash env) (le_softrss env) (lb_ft lb) k = (index_result (lb_ft lb) r, (lb_ft lb)\<lparr>ft_hash := h\<rparr>)"
    using a by (simp add: onvm_ft_add_key_def)
  have "i < cap" if "slots h = (slots (ft_hash (lb_ft lb)))(k \<mapsto> i)" for i using slots_bound [OF s(1), of k i] that by simp
  then show ?thesis using s h e by (auto simp: index_result_def onvm_ft_get_data_def ft_ok_def)
qed

text \<open>What a lookup does to the flow of its key, as long as the table is not being cleared.\<close>

definition new_flow :: "'h loadbalance \<Rightarrow> flow_info \<Rightarrow> bool" where
  "new_flow lb f \<longleftrightarrow> fi_is_active f = 0 \<and> fi_last_pkt_cycles f = elapsed_cycles lb
     \<and> fi_dest f = ucast ((num_stored lb + 1) mod ucast (server_count lb))"

definition found :: "'h loadbalance \<Rightarrow> nat \<Rightarrow> onvm_ft_ipv4_5tuple \<Rightarrow> 'h loadbalance \<Rightarrow> bool" where
  "found lb p k lb1 \<longleftrightarrow> slots (ft_hash (lb_ft lb1)) k = Some p \<and> flow_of slots lb1 = (flow_of slots lb)(k \<mapsto> get_flow lb1 p)
     \<and> (case flow_of slots lb k of
          None \<Rightarrow> num_stored lb1 = num_stored lb + 1 \<and> new_flow lb (get_flow lb1 p)
        | Some g \<Rightarrow> num_stored lb1 = num_stored lb \<and> get_flow lb1 p = g\<lparr>fi_last_pkt_cycles := elapsed_cycles lb\<rparr>)"

lemma table_add_spec:
  assumes "ft_ok hinv cap (lb_ft lb)" "slots (ft_hash (lb_ft lb)) k = None" "num_stored lb \<noteq> 0xffff" "server_count lb \<noteq> 0"
  shows "\<exists>r lb1. table_add_entry env k lb = Some (r, lb1) \<and> ft_ok hinv cap (lb_ft lb1) \<and> same_setup lb lb1 \<and> elapsed_cycles lb1 = elapsed_cycles lb
    \<and> (r = (- 1, None) \<and> flow_of slots lb1 = flow_of slots lb \<and> slots (ft_hash (lb_ft lb1)) = slots (ft_hash (lb_ft lb)) \<and> num_stored lb1 = num_stored lb
       \<or> (\<exists>p. r = (0, Some p) \<and> found lb p k lb1))"
proof -
  obtain r d ft where a: "onvm_ft_add_key (le_hash env) (le_softrss env) (lb_ft lb) k = ((r, d), ft)" "ft_ok hinv cap ft" "ft_data ft = ft_data (lb_ft lb)"
    and cases: "r = - ENOSPC \<and> slots (ft_hash ft) = slots (ft_hash (lb_ft lb))
       \<or> (\<exists>p. r = int p \<and> d = Some p \<and> slots (ft_hash ft) = (slots (ft_hash (lb_ft lb)))(k \<mapsto> p))"
    using add_key_spec [OF assms(1,2)] by blast
  have room: "TABLE_SIZE - 1 - int (unat (num_stored lb)) \<noteq> 0" 
  proof -
    have "unat (num_stored lb) \<noteq> 65535" using assms(3) by (simp add: word_unat_eq_iff)
    then show ?thesis by linarith
  qed
  from cases show ?thesis
  proof (elim disjE exE)
    assume full: "r = - ENOSPC \<and> slots (ft_hash ft) = slots (ft_hash (lb_ft lb))"
    then have "table_add_entry env k lb = Some ((- 1, None), lb\<lparr>lb_ft := ft\<rparr>)" using room a(1) by (simp add: table_add_entry_def)
    then show ?thesis using full a(2,3) by (auto simp: flow_of_def ft_map_def same_setup_def fun_eq_iff)
  next
    fix p
    assume p: "r = int p \<and> d = Some p \<and> slots (ft_hash ft) = (slots (ft_hash (lb_ft lb)))(k \<mapsto> p)"
    let ?lb3 = "lb\<lparr>lb_ft := ft, num_stored := num_stored lb + 1\<rparr>"
    let ?f = "(get_flow ?lb3 p)\<lparr>fi_dest := ucast ((num_stored lb + 1) mod ucast (server_count lb)), fi_last_pkt_cycles := elapsed_cycles lb, fi_is_active := 0\<rparr>"
    have ok3: "ft_ok hinv cap (lb_ft ?lb3)" and s3: "slots (ft_hash (lb_ft ?lb3)) k = Some p" using a(2) p by simp_all
    note w = set_flow_map(1-3) [OF ok3 s3, of ?f]
    have "(flow_of slots ?lb3)(k \<mapsto> ?f) = (flow_of slots lb)(k \<mapsto> ?f)" using p a(3) by (auto simp: flow_of_def ft_map_def fun_eq_iff)
    moreover have "flow_of slots lb k = None" using assms(2) by (simp add: flow_of_def ft_map_def)
    ultimately have "found lb p k (set_flow p ?f ?lb3)" using w s3 by (simp add: found_def new_flow_def)
    moreover have "table_add_entry env k lb = Some ((0, Some p), set_flow p ?f ?lb3)"
      using room a(1) p assms(4) by (simp add: table_add_entry_def Let_def)
    moreover have "same_setup lb (set_flow p ?f ?lb3)" by (simp add: same_setup_def set_flow_def)
    ultimately show ?thesis using w(2) by auto
  qed
qed

lemma table_lookup_spec:
  assumes "ft_ok hinv cap (lb_ft lb)" "num_stored lb \<noteq> 0xffff" "server_count lb \<noteq> 0" "table_lookup_entry env m lb = Some (r, lb1)"
  shows "ft_ok hinv cap (lb_ft lb1)" "same_setup lb lb1" "elapsed_cycles lb1 = elapsed_cycles lb"
    "r = (- 1, None) \<and> flow_of slots lb1 = flow_of slots lb \<and> slots (ft_hash (lb_ft lb1)) = slots (ft_hash (lb_ft lb)) \<and> num_stored lb1 = num_stored lb
     \<or> (\<exists>p k. onvm_ft_fill_key_symmetric m = Some (Inr k) \<and> r = (0, Some p) \<and> found lb p k lb1)"
proof -
  have "ft_ok hinv cap (lb_ft lb1) \<and> same_setup lb lb1 \<and> elapsed_cycles lb1 = elapsed_cycles lb
    \<and> (r = (- 1, None) \<and> flow_of slots lb1 = flow_of slots lb \<and> slots (ft_hash (lb_ft lb1)) = slots (ft_hash (lb_ft lb)) \<and> num_stored lb1 = num_stored lb
       \<or> (\<exists>p k. onvm_ft_fill_key_symmetric m = Some (Inr k) \<and> r = (0, Some p) \<and> found lb p k lb1))"
  proof (cases "onvm_ft_fill_key_symmetric m")
    case None
    then show ?thesis using assms(4) by (simp add: table_lookup_entry_def)
  next
    case key: (Some x)
    show ?thesis
    proof (cases x)
      case (Inl e)
      then show ?thesis using assms(1,4) key by (auto simp: table_lookup_entry_def)
    next
      case (Inr k)
      have l: "onvm_ft_lookup_key (le_hash env) (le_softrss env) (lb_ft lb) k =
          (case slots (ft_hash (lb_ft lb)) k of None \<Rightarrow> (- ENOENT, None) | Some p \<Rightarrow> (int p, Some p))"
        unfolding onvm_ft_lookup_key_def by (rule lookup_map [OF assms(1)])
      show ?thesis
      proof (cases "slots (ft_hash (lb_ft lb)) k")
        case None
        then have "table_add_entry env k lb = Some (r, lb1)" using assms(4) key Inr l by (simp add: table_lookup_entry_def)
        then show ?thesis using table_add_spec [OF assms(1) None assms(2,3)] key Inr by auto
      next
        case (Some p)
        have e: "r = (0, Some p)" "lb1 = set_flow p ((get_flow lb p)\<lparr>fi_last_pkt_cycles := elapsed_cycles lb\<rparr>) lb"
          using assms(4) key Inr l Some by (auto simp: table_lookup_entry_def)
        note w = set_flow_map(1-3) [OF assms(1) Some, of "(get_flow lb p)\<lparr>fi_last_pkt_cycles := elapsed_cycles lb\<rparr>"]
        have "found lb p k lb1" using w set_flow_map(4) [OF assms(1) Some] Some by (simp add: found_def e)
        then show ?thesis using w(2) key Inr by (simp add: e)
      qed
    qed
  qed
  then show "ft_ok hinv cap (lb_ft lb1)" "same_setup lb lb1" "elapsed_cycles lb1 = elapsed_cycles lb"
    "r = (- 1, None) \<and> flow_of slots lb1 = flow_of slots lb \<and> slots (ft_hash (lb_ft lb1)) = slots (ft_hash (lb_ft lb)) \<and> num_stored lb1 = num_stored lb
     \<or> (\<exists>p k. onvm_ft_fill_key_symmetric m = Some (Inr k) \<and> r = (0, Some p) \<and> found lb p k lb1)"
    by blast+
qed

lemma save_client_spec:
  assumes "ft_ok hinv cap (lb_ft lb)" "slots (ft_hash (lb_ft lb)) k = Some p"
  shows "ft_ok hinv cap (lb_ft (save_client p a lb))" "same_setup lb (save_client p a lb)" "num_stored (save_client p a lb) = num_stored lb"
    "slots (ft_hash (lb_ft (save_client p a lb))) = slots (ft_hash (lb_ft lb))"
    "flow_of slots (save_client p a lb) = (flow_of slots lb)(k \<mapsto> get_flow (save_client p a lb) p)"
    "get_flow (save_client p a lb) p = (if fi_is_active (get_flow lb p) = 0 then (get_flow lb p)\<lparr>fi_is_active := 1, fi_s_addr_bytes := a\<rparr> else get_flow lb p)"
  using assms set_flow_map(1-3) [OF assms] set_flow_map(4) [OF assms] by (auto simp: save_client_def fun_upd_idem)

text \<open>The flow of a packet that was handled, from the flow before.\<close>

definition next_flow :: "'h loadbalance \<Rightarrow> u8 list \<Rightarrow> flow_info option \<Rightarrow> flow_info \<Rightarrow> bool" where
  "next_flow lb a old f \<longleftrightarrow> fi_is_active f \<noteq> 0 \<and> fi_last_pkt_cycles f = elapsed_cycles lb
     \<and> (case old of
          None \<Rightarrow> fi_s_addr_bytes f = a \<and> fi_dest f = ucast ((num_stored lb + 1) mod ucast (server_count lb))
        | Some g \<Rightarrow> fi_dest f = fi_dest g \<and> fi_s_addr_bytes f = (if fi_is_active g = 0 then a else fi_s_addr_bytes g))"

lemma handled_flow:
  fixes a :: "u8 list"
  assumes ok: "ft_ok hinv cap (lb_ft lb)" "num_stored lb \<noteq> 0xffff" "server_count lb \<noteq> 0"
    and l: "table_lookup_entry env m1 lb = Some ((r, Some p), lb1)" "r \<noteq> - 1"
  defines "lb' \<equiv> save_client p a lb1"
  shows "\<exists>k. onvm_ft_fill_key_symmetric m1 = Some (Inr k) \<and> ft_ok hinv cap (lb_ft lb') \<and> same_setup lb lb'
    \<and> slots (ft_hash (lb_ft lb')) k = Some p
    \<and> flow_of slots lb' = (flow_of slots lb)(k \<mapsto> get_flow lb' p) \<and> next_flow lb a (flow_of slots lb k) (get_flow lb' p)
    \<and> num_stored lb' = (if flow_of slots lb k = None then num_stored lb + 1 else num_stored lb)"
proof -
  note t = table_lookup_spec [OF ok l(1)]
  obtain k where k: "onvm_ft_fill_key_symmetric m1 = Some (Inr k)" and f: "found lb p k lb1" using t(4) l(2) by auto
  have s: "slots (ft_hash (lb_ft lb1)) k = Some p" using f by (simp add: found_def)
  note c = save_client_spec [OF t(1) s, of a, folded lb'_def]
  have "flow_of slots lb' = (flow_of slots lb)(k \<mapsto> get_flow lb' p)" using c(5) f by (simp add: found_def)
  moreover have "next_flow lb a (flow_of slots lb k) (get_flow lb' p)
      \<and> num_stored lb' = (if flow_of slots lb k = None then num_stored lb + 1 else num_stored lb)"
    using f c(3,6) by (auto simp: found_def new_flow_def next_flow_def split: option.splits)
  ultimately show ?thesis using k c(1,4) s same_setup_trans [OF t(2) c(2)] by simp
qed

text \<open>What a handled packet does to the table: nothing, or the flow of one key.\<close>

lemma handler_state:
  assumes "ft_ok hinv cap (lb_ft lb)" "num_stored lb \<noteq> 0xffff" "server_count lb \<noteq> 0" "lb_packet_handler env m lb = Some (Lb_Done m' lb')"
  shows "ft_ok hinv cap (lb_ft lb')" "same_setup lb lb'"
    "flow_of slots lb' = flow_of slots lb \<and> num_stored lb' = num_stored lb
     \<or> (\<exists>k a f. flow_of slots lb' = (flow_of slots lb)(k \<mapsto> f) \<and> next_flow lb a (flow_of slots lb k) f
          \<and> num_stored lb' = (if flow_of slots lb k = None then num_stored lb + 1 else num_stored lb))"
proof -
  have "ft_ok hinv cap (lb_ft lb') \<and> same_setup lb lb' \<and> (flow_of slots lb' = flow_of slots lb \<and> num_stored lb' = num_stored lb
     \<or> (\<exists>k a f. flow_of slots lb' = (flow_of slots lb)(k \<mapsto> f) \<and> next_flow lb a (flow_of slots lb k) f
          \<and> num_stored lb' = (if flow_of slots lb k = None then num_stored lb + 1 else num_stored lb)))"
    using assms(4)
  proof (cases rule: handler_cases)
    case early
    then show ?thesis using assms(1) by simp
  next
    case (refused m1 d)
    then show ?thesis using table_lookup_spec [OF assms(1-3) refused(3)] by auto
  next
    case (forwarded m1 p r lb1 a m2 m3)
    then show ?thesis using handled_flow [OF assms(1-3) forwarded(2,3), of a] by blast
  qed
  then show "ft_ok hinv cap (lb_ft lb')" "same_setup lb lb'"
    "flow_of slots lb' = flow_of slots lb \<and> num_stored lb' = num_stored lb
     \<or> (\<exists>k a f. flow_of slots lb' = (flow_of slots lb)(k \<mapsto> f) \<and> next_flow lb a (flow_of slots lb k) f
          \<and> num_stored lb' = (if flow_of slots lb k = None then num_stored lb + 1 else num_stored lb))"
    by blast+
qed

text \<open>Where a forwarded packet goes.\<close>

lemma lb_forward_spec:
  assumes ok: "ft_ok hinv cap (lb_ft lb)" "num_stored lb \<noteq> 0xffff" "server_count lb \<noteq> 0" and macs: "\<forall>q b. le_macaddr env q = Some b \<longrightarrow> length b = 6"
    and m: "plain_ipv4 m" "onvm_ft_fill_key m = Some (Inr ck)"
    and h: "lb_packet_handler env m lb = Some (Lb_Done m' lb')" "action (mb_meta m') = ONVM_NF_ACTION_OUT"
  shows "\<exists>f. ft_ok hinv cap (lb_ft lb') \<and> same_setup lb lb' \<and> flow_of slots lb' (lb_key lb m ck) = Some f
    \<and> next_flow lb (take 6 (drop 6 (mb_bytes m))) (flow_of slots lb (lb_key lb m ck)) f
    \<and> unat (num_stored lb') \<le> unat (num_stored lb) + 1
    \<and> (mb_port m = ucast (server_port lb) \<and> length (fi_s_addr_bytes f) = 6 \<longrightarrow>
         take 6 (mb_bytes m') = fi_s_addr_bytes f \<and> word_at (mb_bytes m') 26 = Some (ip_lb_client lb) \<and> destination (mb_meta m') = ucast (client_port lb))
    \<and> (mb_port m \<noteq> ucast (server_port lb) \<and> (\<forall>v \<in> set (lb_server lb). length (d_addr_bytes v) = 6) \<longrightarrow>
         take 6 (mb_bytes m') = d_addr_bytes (lb_server lb ! unat (fi_dest f)) \<and> word_at (mb_bytes m') 30 = Some (bswap32 (d_ip (lb_server lb ! unat (fi_dest f))))
         \<and> destination (mb_meta m') = ucast (server_port lb))"
  using h(1)
proof (cases rule: handler_cases)
  case (forwarded m1 p r lb1 a m2 m3)
  let ?k = "lb_key lb m ck" and ?f = "get_flow lb' p"
  have b1: "length (mb_bytes m1) = length (mb_bytes m)" "plain_ipv4 m1" "mb_port m1 = mb_port m"
    "\<And>i. i < 26 \<Longrightarrow> mb_bytes m1 ! i = mb_bytes m ! i"
    using clear_ip_bytes [OF m(1), of lb] forwarded(1) by auto
  have len: "74 \<le> length (mb_bytes m)" using m(1) by (simp add: plain_ipv4_def)
  have "a = take 6 (drop 6 (mb_bytes m1))" using forwarded(4) by (simp add: block_at_def split: if_splits)
  then have a: "a = take 6 (drop 6 (mb_bytes m))" using block_same [of "mb_bytes m1" "mb_bytes m" 6 6] b1(1,4) by simp
  have key: "onvm_ft_fill_key_symmetric m1 = Some (Inr ?k)" by (rule cleared_key [OF m forwarded(1)])
  have f: "ft_ok hinv cap (lb_ft lb')" "same_setup lb lb'" "flow_of slots lb' = (flow_of slots lb)(?k \<mapsto> ?f)" "next_flow lb a (flow_of slots lb ?k) ?f"
      "num_stored lb' = (if flow_of slots lb ?k = None then num_stored lb + 1 else num_stored lb)"
    using handled_flow [OF ok forwarded(2,3), of a] key unfolding forwarded(5) by auto
  have num: "unat (num_stored lb') \<le> unat (num_stored lb) + 1" using f(5) by (simp add: unat_word_ariths)
  have cfg: "server_port lb' = server_port lb" "client_port lb' = client_port lb" "ip_lb_client lb' = ip_lb_client lb" "lb_server lb' = lb_server lb"
    using f(2) by (simp_all add: same_setup_def)
  have out: "take 6 (mb_bytes m') = take 6 (mb_bytes m2)" "word_at (mb_bytes m') 26 = word_at (mb_bytes m2) 26" "word_at (mb_bytes m') 30 = word_at (mb_bytes m2) 30"
    "destination (mb_meta m') = destination (mb_meta m2)" if "plain_ipv4 m2"
  proof -
    note c = set_checksums_keeps [OF that forwarded(7)]
    show "take 6 (mb_bytes m') = take 6 (mb_bytes m2)" unfolding forwarded(8) using c by (simp add: nth_take_lemma list_eq_iff_nth_eq)
    show "word_at (mb_bytes m') 26 = word_at (mb_bytes m2) 26" "word_at (mb_bytes m') 30 = word_at (mb_bytes m2) 30"
      unfolding forwarded(8) using c by (auto intro!: word_at_same)
    show "destination (mb_meta m') = destination (mb_meta m2)" unfolding forwarded(8) using c(3) by simp
  qed
  have to_client: "take 6 (mb_bytes m') = fi_s_addr_bytes ?f \<and> word_at (mb_bytes m') 26 = Some (ip_lb_client lb) \<and> destination (mb_meta m') = ucast (client_port lb)"
    if sp: "mb_port m = ucast (server_port lb)" and l6: "length (fi_s_addr_bytes ?f) = 6"
  proof -
    obtain mac where mac: "le_macaddr env (client_port lb) = Some mac" "lb_rewrite mac (fi_s_addr_bytes ?f) 26 (ip_lb_client lb) (client_port lb) m1 = Some m2"
      using forwarded(6) sp cfg b1(3) by (auto simp: lb_redirect_def split: option.splits)
    note rw = rewrite_bytes [OF mac(2) macs [rule_format, OF mac(1)] l6 _ _ b1(2)]
    show ?thesis using out rw by simp
  qed
  have to_server: "take 6 (mb_bytes m') = d_addr_bytes (lb_server lb ! unat (fi_dest ?f)) \<and> word_at (mb_bytes m') 30 = Some (bswap32 (d_ip (lb_server lb ! unat (fi_dest ?f))))
      \<and> destination (mb_meta m') = ucast (server_port lb)"
    if p: "mb_port m \<noteq> ucast (server_port lb)" and v: "\<forall>v \<in> set (lb_server lb). length (d_addr_bytes v) = 6"
  proof -
    let ?v = "lb_server lb ! unat (fi_dest ?f)"
    obtain mac where mac: "le_macaddr env (server_port lb) = Some mac" "lb_rewrite mac (d_addr_bytes ?v) 30 (bswap32 (d_ip ?v)) (server_port lb) m1 = Some m2"
      and i: "unat (fi_dest ?f) < length (lb_server lb)"
      using forwarded(6) p cfg b1(3) by (auto simp: lb_redirect_def Let_def split: option.splits if_splits)
    have "length (d_addr_bytes ?v) = 6" using v i by simp
    note rw = rewrite_bytes [OF mac(2) macs [rule_format, OF mac(1)] this _ _ b1(2)]
    show ?thesis using out rw by simp
  qed
  show ?thesis using f num a to_client to_server by (intro exI [of _ ?f]) simp
qed (use h(2) in auto)

text \<open>A flow keeps its server and its client through any other events, until the count reaches its limit.\<close>

definition kept :: "flow_info \<Rightarrow> flow_info \<Rightarrow> bool" where
  "kept f g \<longleftrightarrow> fi_dest g = fi_dest f \<and> fi_s_addr_bytes g = fi_s_addr_bytes f \<and> fi_is_active g \<noteq> 0"

lemma next_flow_kept: "next_flow lb a (Some f) g \<Longrightarrow> fi_is_active f \<noteq> 0 \<Longrightarrow> kept f g"
  by (simp add: next_flow_def kept_def)

lemma step_keeps:
  assumes "ft_ok hinv cap (lb_ft lb)" "num_stored lb \<noteq> 0xffff" "server_count lb \<noteq> 0" "lb_step env ev lb = Some lb'"
    and f: "flow_of slots lb k = Some f" "fi_is_active f \<noteq> 0"
  shows "ft_ok hinv cap (lb_ft lb') \<and> same_setup lb lb'
    \<and> (\<exists>g. flow_of slots lb' k = Some g \<and> kept f g)"
proof (cases ev)
  case (Lb_Callback now)
  then have "lb_ft lb' = lb_ft lb \<and> same_setup lb lb' \<and> num_stored lb' = num_stored lb"
    using assms(4) by (auto simp: lb_step_def callback_handler_def Let_def same_setup_def split: if_splits)
  then show ?thesis using assms(1) f by (simp add: flow_of_def kept_def)
next
  case (Lb_Packet m)
  then obtain m' where h: "lb_packet_handler env m lb = Some (Lb_Done m' lb')"
    using assms(4) by (auto simp: lb_step_def split: option.splits lb_result.splits)
  note st = handler_state [OF assms(1-3) h]
  from st(3) show ?thesis
  proof (elim disjE exE)
    assume "flow_of slots lb' = flow_of slots lb \<and> num_stored lb' = num_stored lb"
    then show ?thesis using st(1,2) f by (simp add: kept_def)
  next
    fix k' a g
    assume c: "flow_of slots lb' = (flow_of slots lb)(k' \<mapsto> g) \<and> next_flow lb a (flow_of slots lb k') g
      \<and> num_stored lb' = (if flow_of slots lb k' = None then num_stored lb + 1 else num_stored lb)"
    then have "\<exists>g'. flow_of slots lb' k = Some g' \<and> kept f g'" using f next_flow_kept by (cases "k' = k") (auto simp: kept_def)
    then show ?thesis using st(1,2) by auto
  qed
qed

lemma run_keeps:
  assumes "ft_ok hinv cap (lb_ft lb)" "below_limit env evs lb" "server_count lb \<noteq> 0" "lb_run env evs lb = Some lb'"
    and "flow_of slots lb k = Some f" "fi_is_active f \<noteq> 0"
  shows "ft_ok hinv cap (lb_ft lb') \<and> same_setup lb lb' \<and> num_stored lb' \<noteq> 0xffff
    \<and> (\<exists>g. flow_of slots lb' k = Some g \<and> kept f g)"
  using assms
proof (induction evs arbitrary: lb f)
  case Nil
  then show ?case by (simp add: kept_def)
next
  case (Cons ev evs)
  then obtain lb1 where s: "lb_step env ev lb = Some lb1" and r: "lb_run env evs lb1 = Some lb'" by (auto simp: bind_eq_Some_conv)
  have lim: "num_stored lb \<noteq> 0xffff" "below_limit env evs lb1" using Cons.prems(2) s by simp_all
  obtain g where st: "ft_ok hinv cap (lb_ft lb1)" "same_setup lb lb1" and g: "flow_of slots lb1 k = Some g" "kept f g"
    using step_keeps [OF Cons.prems(1) lim(1) Cons.prems(3) s Cons.prems(5,6)] by blast
  have "server_count lb1 \<noteq> 0" "fi_is_active g \<noteq> 0" using st(2) Cons.prems(3) g(2) by (simp_all add: same_setup_def kept_def)
  then obtain g' where "ft_ok hinv cap (lb_ft lb')" "same_setup lb1 lb'" "num_stored lb' \<noteq> 0xffff"
      "flow_of slots lb' k = Some g'" "kept g g'"
    using Cons.IH [OF st(1) lim(2) _ r g(1)] by auto
  then show ?case using st(2) g(2) same_setup_trans by (fastforce simp: kept_def)
qed

text \<open>Indices are distinct and below the capacity, so a full table has no room for another key.\<close>

lemma slots_card:
  assumes "hinv h"
  shows "finite (dom (slots h))" "card (dom (slots h)) \<le> cap"
proof -
  have "inj_on (\<lambda>k. the (slots h k)) (dom (slots h))" using slots_inj [OF assms] by (auto intro!: inj_onI)
  moreover have "(\<lambda>k. the (slots h k)) ` dom (slots h) \<subseteq> {..<cap}" using slots_bound [OF assms] by auto
  ultimately show "finite (dom (slots h))" "card (dom (slots h)) \<le> cap"
    using inj_on_finite [of _ "dom (slots h)" "{..<cap}"] card_inj_on_le [of _ "dom (slots h)" "{..<cap}"] by auto
qed

lemma dom_flow_of: "dom (flow_of slots lb) = dom (slots (ft_hash (lb_ft lb)))"
  by (auto simp: flow_of_def ft_map_def)

lemma full_not_found:
  assumes "ft_ok hinv cap (lb_ft lb1)" "card (dom (flow_of slots lb)) = cap" "finite (dom (flow_of slots lb))" "flow_of slots lb k = None"
    and "flow_of slots lb1 = (flow_of slots lb)(k \<mapsto> f)"
  shows False
proof -
  have "card (dom (flow_of slots lb1)) = Suc cap" using assms(2-5) by (simp add: domIff)
  moreover have "card (dom (flow_of slots lb1)) \<le> cap" unfolding dom_flow_of using slots_card(2) assms(1) by (simp add: ft_ok_def)
  ultimately show False by simp
qed

lemma step_full:
  assumes "ft_ok hinv cap (lb_ft lb)" "num_stored lb \<noteq> 0xffff" "server_count lb \<noteq> 0" "card (dom (flow_of slots lb)) = cap" "lb_step env ev lb = Some lb'"
  shows "ft_ok hinv cap (lb_ft lb') \<and> same_setup lb lb' \<and> num_stored lb' = num_stored lb \<and> dom (flow_of slots lb') = dom (flow_of slots lb)"
proof (cases ev)
  case (Lb_Callback now)
  then have "lb_ft lb' = lb_ft lb \<and> same_setup lb lb' \<and> num_stored lb' = num_stored lb"
    using assms(5) by (auto simp: lb_step_def callback_handler_def Let_def same_setup_def split: if_splits)
  then show ?thesis using assms(1) by (simp add: flow_of_def)
next
  case (Lb_Packet m)
  then obtain m' where h: "lb_packet_handler env m lb = Some (Lb_Done m' lb')"
    using assms(5) by (auto simp: lb_step_def split: option.splits lb_result.splits)
  note st = handler_state [OF assms(1-3) h]
  have fin: "finite (dom (flow_of slots lb))" unfolding dom_flow_of using slots_card(1) assms(1) by (simp add: ft_ok_def)
  from st(3) show ?thesis
  proof (elim disjE exE)
    fix k a f
    assume c: "flow_of slots lb' = (flow_of slots lb)(k \<mapsto> f) \<and> next_flow lb a (flow_of slots lb k) f
      \<and> num_stored lb' = (if flow_of slots lb k = None then num_stored lb + 1 else num_stored lb)"
    then have "flow_of slots lb k \<noteq> None" using full_not_found [OF st(1) assms(4) fin] by blast
    then show ?thesis using c st(1,2) by (auto simp: domIff)
  qed (use st(1,2) in simp)
qed

lemma run_full:
  assumes "ft_ok hinv cap (lb_ft lb)" "num_stored lb \<noteq> 0xffff" "server_count lb \<noteq> 0" "card (dom (flow_of slots lb)) = cap" "lb_run env evs lb = Some lb'"
  shows "ft_ok hinv cap (lb_ft lb') \<and> same_setup lb lb' \<and> num_stored lb' = num_stored lb \<and> dom (flow_of slots lb') = dom (flow_of slots lb)"
  using assms
proof (induction evs arbitrary: lb)
  case (Cons ev evs)
  then obtain lb1 where s: "lb_step env ev lb = Some lb1" and r: "lb_run env evs lb1 = Some lb'" by (auto simp: bind_eq_Some_conv)
  note st = step_full [OF Cons.prems(1-4) s]
  then have "server_count lb1 \<noteq> 0" using Cons.prems(3) by (simp add: same_setup_def)
  then show ?case using Cons.IH [of lb1] st r Cons.prems(2,4) same_setup_trans by auto
qed simp

end

section \<open>Properties\<close>

definition chosen_server :: "'h loadbalance \<Rightarrow> backend_server" where
  "chosen_server lb = lb_server lb ! unat (ucast ((num_stored lb + 1) mod ucast (server_count lb)) :: u8)"

definition sent_to_server :: "'h loadbalance \<Rightarrow> backend_server \<Rightarrow> mbuf \<Rightarrow> bool" where
  "sent_to_server lb v m \<longleftrightarrow> take 6 (mb_bytes m) = d_addr_bytes v \<and> word_at (mb_bytes m) 30 = Some (bswap32 (d_ip v))
     \<and> action (mb_meta m) = ONVM_NF_ACTION_OUT \<and> destination (mb_meta m) = ucast (server_port lb)"

definition sent_to_client :: "'h loadbalance \<Rightarrow> u8 list \<Rightarrow> mbuf \<Rightarrow> bool" where
  "sent_to_client lb mac m \<longleftrightarrow> take 6 (mb_bytes m) = mac \<and> word_at (mb_bytes m) 26 = Some (ip_lb_client lb)
     \<and> action (mb_meta m) = ONVM_NF_ACTION_OUT \<and> destination (mb_meta m) = ucast (client_port lb)"

text \<open>Both directions of a connection have one key.\<close>

lemma lb_key_reply:
  assumes "mb_port m = ucast (client_port lb)" "mb_port r \<noteq> ucast (client_port lb)"
    and "dst_addr rk = src_addr ck" "src_port rk = dst_port ck" "dst_port rk = src_port ck" "proto rk = proto ck"
  shows "lb_key lb r rk = lb_key lb m ck"
proof -
  have "rk\<lparr>src_addr := 0\<rparr> = reverse_key (ck\<lparr>dst_addr := 0\<rparr>)" using assms(3-6) by (simp add: reverse_key_def)
  then show ?thesis using assms(1,2) by (simp add: lb_key_def order_key_reverse)
qed

lemma lb_key_setup: "same_setup lb lb' \<Longrightarrow> lb_key lb' = lb_key lb"
  by (simp add: lb_key_def same_setup_def fun_eq_iff)

text \<open>A flow that is known is forwarded, never dropped.\<close>

lemma known_forwarded:
  assumes "lb_table env slots cap hinv" "ft_ok hinv cap (lb_ft lb)" "plain_ipv4 m" "onvm_ft_fill_key m = Some (Inr ck)" "src_addr ck \<noteq> 0" "dst_addr ck \<noteq> 0"
    and "flow_of slots lb (lb_key lb m ck) \<noteq> None" "lb_packet_handler env m lb = Some (Lb_Done m' lb')"
  shows "action (mb_meta m') = ONVM_NF_ACTION_OUT"
proof -
  have len: "74 \<le> length (mb_bytes m)" using assms(3) by (simp add: plain_ipv4_def)
  obtain m1 where m1: "lb_clear_ip lb 14 m = Some m1" using clear_ip_bytes [OF assms(3)] by blast
  have key: "onvm_ft_fill_key_symmetric m1 = Some (Inr (lb_key lb m ck))" by (rule cleared_key [OF assms(3,4) m1])
  obtain p where p: "slots (ft_hash (lb_ft lb)) (lb_key lb m ck) = Some p" using assms(7) by (auto simp: flow_of_def ft_map_def)
  have "onvm_ft_lookup_key (le_hash env) (le_softrss env) (lb_ft lb) (lb_key lb m ck) = (int p, Some p)"
    using rte_hash.lookup_map [OF lb_table.axioms [OF assms(1)] assms(2), of "lb_key lb m ck"] p by (simp add: onvm_ft_lookup_key_def)
  then have l: "table_lookup_entry env m1 lb = Some ((0, Some p), set_flow p ((get_flow lb p)\<lparr>fi_last_pkt_cycles := elapsed_cycles lb\<rparr>) lb)"
    using key by (simp add: table_lookup_entry_def)
  have "word_at (mb_bytes m) 26 = Some (src_addr ck)" "word_at (mb_bytes m) 30 = Some (dst_addr ck)"
    using fill_key_bytes [of m] assms(4) len by (auto simp: word_at_bytes split: if_splits)
  then show ?thesis
    using assms(5,6,8) plain_ipv4_headers(1) [OF assms(3)] m1 l
    by (auto simp: lb_packet_handler_def bind_eq_Some_conv Let_def split: option.splits)
qed

lemma known_flow_sent:
  assumes T: "lb_table env slots cap hinv" and ok: "ft_ok hinv cap (lb_ft lb)" "num_stored lb \<noteq> 0xffff" "server_count lb \<noteq> 0"
    and len: "\<forall>v \<in> set (lb_server lb). length (d_addr_bytes v) = 6" "\<forall>q b. le_macaddr env q = Some b \<longrightarrow> length b = 6"
    and m: "plain_ipv4 m" "onvm_ft_fill_key m = Some (Inr ck)" "src_addr ck \<noteq> 0" "dst_addr ck \<noteq> 0"
    and h: "lb_packet_handler env m lb = Some (Lb_Done m' lb')"
    and g: "flow_of slots lb (lb_key lb m ck) = Some g" "fi_is_active g \<noteq> 0" "length (fi_s_addr_bytes g) = 6"
  shows "mb_port m = ucast (server_port lb) \<Longrightarrow> sent_to_client lb (fi_s_addr_bytes g) m'"
    "mb_port m \<noteq> ucast (server_port lb) \<Longrightarrow> sent_to_server lb (lb_server lb ! unat (fi_dest g)) m'"
proof -
  have out: "action (mb_meta m') = ONVM_NF_ACTION_OUT" using known_forwarded [OF T ok(1) m _ h] g(1) by simp
  obtain f where f: "lb_table.next_flow lb (take 6 (drop 6 (mb_bytes m))) (Some g) f"
    and to_c: "mb_port m = ucast (server_port lb) \<and> length (fi_s_addr_bytes f) = 6 \<longrightarrow> take 6 (mb_bytes m') = fi_s_addr_bytes f
         \<and> word_at (mb_bytes m') 26 = Some (ip_lb_client lb) \<and> destination (mb_meta m') = ucast (client_port lb)"
    and to_s: "mb_port m \<noteq> ucast (server_port lb) \<and> (\<forall>v \<in> set (lb_server lb). length (d_addr_bytes v) = 6) \<longrightarrow>
       take 6 (mb_bytes m') = d_addr_bytes (lb_server lb ! unat (fi_dest f)) \<and> word_at (mb_bytes m') 30 = Some (bswap32 (d_ip (lb_server lb ! unat (fi_dest f))))
       \<and> destination (mb_meta m') = ucast (server_port lb)"
    using lb_table.lb_forward_spec [OF T ok len(2) m(1,2) h out] g(1) by auto
  have e: "fi_dest f = fi_dest g" "fi_s_addr_bytes f = fi_s_addr_bytes g" using f g(2) by (simp_all add: lb_table.next_flow_def [OF T])
  show "mb_port m = ucast (server_port lb) \<Longrightarrow> sent_to_client lb (fi_s_addr_bytes g) m'"
    "mb_port m \<noteq> ucast (server_port lb) \<Longrightarrow> sent_to_server lb (lb_server lb ! unat (fi_dest g)) m'"
    using to_c to_s out len(1) g(3) unfolding e by (simp_all add: sent_to_client_def sent_to_server_def)
qed

lemma sent_setup: "same_setup lb lb' \<Longrightarrow> sent_to_client lb' = sent_to_client lb \<and> sent_to_server lb' = sent_to_server lb"
  by (simp add: same_setup_def sent_to_client_def sent_to_server_def fun_eq_iff)


text \<open>
  C37. A full table stays full. The count has 16 bits, so with a table of 65536 entries it is 0 again when the table is full, and the entries that have expired
  are removed only when it is 65535: once the table is full, whatever happens and however much time passes, a packet of a connection
  that is not in the table is dropped, and the table and the count stay as they are.
\<close>

theorem lb_full_table_stuck:
  assumes "rte_hash (le_hash env) slots (onvm_softrss (le_softrss env)) cap hinv" and "ft_ok hinv cap (lb_ft lb)" and "server_count lb \<noteq> 0"
    and "card (dom (flow_of slots lb)) = cap" and "num_stored lb \<noteq> 0xffff" and "lb_run env evs lb = Some lb1"
    and "plain_ipv4 m" and "onvm_ft_fill_key m = Some (Inr ck)" and "flow_of slots lb (lb_key lb m ck) = None"
  shows "\<exists>m' lb2. lb_packet_handler env m lb1 = Some (Lb_Done m' lb2) \<and> action (mb_meta m') = ONVM_NF_ACTION_DROP
    \<and> dom (flow_of slots lb2) = dom (flow_of slots lb) \<and> num_stored lb2 = num_stored lb"
proof -
  have T: "lb_table env slots cap hinv" using assms(1) by (simp add: lb_table_def)
  note r = lb_table.run_full [OF T assms(2,5,3,4,6)]
  let ?k = "lb_key lb m ck"
  have sc1: "server_count lb1 \<noteq> 0" and k: "lb_key lb1 m ck = ?k" using r assms(3) lb_key_setup [of lb lb1] by (simp_all add: same_setup_def)
  have "flow_of slots lb1 ?k = None" using r assms(9) by (auto simp: domIff)
  then have none: "slots (ft_hash (lb_ft lb1)) ?k = None" by (simp add: flow_of_def ft_map_def)
  have lim: "num_stored lb1 \<noteq> 0xffff" using r assms(5) by simp
  obtain res lb2 where a: "table_add_entry env ?k lb1 = Some (res, lb2)" "ft_ok hinv cap (lb_ft lb2)"
    and c: "res = (- 1, None) \<and> flow_of slots lb2 = flow_of slots lb1 \<and> num_stored lb2 = num_stored lb1 \<or> (\<exists>p. lb_table.found slots lb1 p ?k lb2)"
    using lb_table.table_add_spec [OF T conjunct1 [OF r] none lim sc1] by blast
  have fin: "finite (dom (flow_of slots lb1))" unfolding lb_table.dom_flow_of [OF T] using lb_table.slots_card(1) [OF T] r by (simp add: ft_ok_def)
  have "\<not> lb_table.found slots lb1 p ?k lb2" for p
    using lb_table.full_not_found [OF T a(2) _ fin \<open>flow_of slots lb1 ?k = None\<close>] r assms(4) by (auto simp: lb_table.found_def [OF T])
  then have res: "res = (- 1, None)" "flow_of slots lb2 = flow_of slots lb1" "num_stored lb2 = num_stored lb1" using c by auto
  obtain m1 where m1: "lb_clear_ip lb1 14 m = Some m1" using clear_ip_bytes [OF assms(7)] by blast
  have l: "table_lookup_entry env m1 lb1 = Some ((- 1, None), lb2)"
    using cleared_key [OF assms(7,8) m1] rte_hash.lookup_map [OF assms(1) conjunct1 [OF r], of ?k] none a(1) res(1) k
    by (simp add: table_lookup_entry_def onvm_ft_lookup_key_def)
  have len: "74 \<le> length (mb_bytes m)" using assms(7) by (simp add: plain_ipv4_def)
  obtain s d where "word_at (mb_bytes m) 26 = Some s" "word_at (mb_bytes m) 30 = Some d" using len by (simp add: word_at_bytes)
  then show ?thesis
    using plain_ipv4_headers(1) [OF assms(7)] m1 l res r by (cases "s = 0 \<or> d = 0") (auto simp: lb_packet_handler_def lb_drop_def)
qed

lemma full_count_wraps: "num_stored lb = of_nat (card (dom (flow_of slots lb))) \<Longrightarrow> card (dom (flow_of slots lb)) = nat TABLE_SIZE \<Longrightarrow> num_stored lb = 0"
  by simp

section \<open>A concrete load balancer\<close>

definition demo_lb_env :: "nat \<Rightarrow> (onvm_ft_ipv4_5tuple \<times> nat) list lb_env" where
  "demo_lb_env cap = \<lparr>le_hash = list_hash_api cap, le_softrss = (\<lambda>_ _ _ _. 0), le_hz = 1000, le_macaddr = (\<lambda>q. Some [2, 0, 0, 0, 0, q]),
     le_helper = \<lparr>he_raw_cksum = (\<lambda>_. 0), he_phdr_cksum = (\<lambda>_ _. 0),
       he_ipv4_offload = (\<lambda>_. True), he_tcp_offload = (\<lambda>_. True), he_udp_offload = (\<lambda>_. True),
       he_PKT_TX_IPV4 = 1, he_PKT_TX_IP_CKSUM = 2, he_PKT_TX_TCP_CKSUM = 4, he_PKT_TX_UDP_CKSUM = 8, he_alloc = None, he_prepend = (\<lambda>_ _. None)\<rparr>\<rparr>"

definition demo_lb :: "nat \<Rightarrow> (onvm_ft_ipv4_5tuple \<times> nat) list loadbalance" where
  "demo_lb cap = \<lparr>lb_ft = \<lparr>ft_hash = [], ft_data = replicate cap \<lparr>fi_dest = 0, fi_s_addr_bytes = replicate 6 0, fi_last_pkt_cycles = 0, fi_is_active = 0\<rparr>,
       ft_cnt = cap, ft_entry_size = 32\<rparr>,
     server_count = 2, lb_server = [\<lparr>d_addr_bytes = [4, 0, 0, 0, 0, 1], d_ip = 0x0a000101\<rparr>, \<lparr>d_addr_bytes = [4, 0, 0, 0, 0, 2], d_ip = 0x0a000102\<rparr>],
     num_stored = 0, elapsed_cycles = 0, last_cycles = 0, expire_time = 32, ip_lb_server = 0x0101000a, ip_lb_client = 0x0200000a, server_port = 1, client_port = 0\<rparr>"

definition demo_reply :: mbuf where
  "demo_reply = demo_pkt\<lparr>mb_port := 1,
     mb_bytes := replicate 14 9 @ [0x45, 0, 0, 40, 1, 2, 64, 0, 64, 6, 9, 9, 10, 0, 1, 2, 10, 0, 0, 1] @ [0, 80, 4, 210] @ replicate 60 3\<rparr>"

lemma demo_lb_hash: "rte_hash (le_hash (demo_lb_env cap)) map_of (onvm_softrss (le_softrss (demo_lb_env cap))) cap (list_hash_ok cap)"
  unfolding demo_lb_env_def lb_env.simps by (rule list_hash.rte_hash_axioms)

interpretation demo_lb_table: lb_table "demo_lb_env cap" map_of cap "list_hash_ok cap" for cap
  unfolding lb_table_def by (rule demo_lb_hash)

lemma demo_lb_ok: "ft_ok (list_hash_ok cap) cap (lb_ft (demo_lb cap))"
  by (simp add: ft_ok_def demo_lb_def list_hash_ok_def)

lemma handled_case: "(case x of Some (Lb_Done m l) \<Rightarrow> P m l | _ \<Rightarrow> False) \<Longrightarrow> \<exists>m l. x = Some (Lb_Done m l) \<and> P m l"
  by (auto split: option.splits lb_result.splits)

lemma demo_lb_first:
  "case lb_packet_handler (demo_lb_env 4) demo_pkt (demo_lb 4) of
     Some (Lb_Done m' lb1) \<Rightarrow> action (mb_meta m') = ONVM_NF_ACTION_OUT
       \<and> (case lb_run (demo_lb_env 4) [Lb_Callback 5000] lb1 of
            Some lb2 \<Rightarrow> (case lb_packet_handler (demo_lb_env 4) demo_reply lb2 of Some (Lb_Done r' lb3) \<Rightarrow> True | _ \<Rightarrow> False)
          | None \<Rightarrow> False)
   | _ \<Rightarrow> False"
  by code_simp

lemma demo_lb_below:
  "case lb_packet_handler (demo_lb_env 4) demo_pkt (demo_lb 4) of
     Some (Lb_Done m' lb1) \<Rightarrow> below_limit (demo_lb_env 4) [Lb_Callback 5000] lb1
   | _ \<Rightarrow> False"
  by code_simp

lemma demo_reply_key: "plain_ipv4 demo_reply" "onvm_ft_fill_key demo_reply =
    Some (Inr \<lparr>src_addr = 0x0201000a, dst_addr = 0x0100000a, src_port = 0x5000, dst_port = 0xd204, proto = 6\<rparr>)"
  unfolding plain_ipv4_def by code_simp+

lemma demo_pkt_plain: "plain_ipv4 demo_pkt"
  unfolding plain_ipv4_def by code_simp


text \<open>A table of one entry, taken by another connection.\<close>

definition demo_full_lb :: "(onvm_ft_ipv4_5tuple \<times> nat) list loadbalance" where
  "demo_full_lb = (demo_lb 1)\<lparr>lb_ft := (lb_ft (demo_lb 1))\<lparr>ft_hash := [(demo_key, 0)]\<rparr>, num_stored := 1\<rparr>"

theorem lb_full_table_stuck_witness:
  "\<exists>lb1 m' lb2. lb_run (demo_lb_env 1) [Lb_Callback 90000] demo_full_lb = Some lb1
     \<and> lb_packet_handler (demo_lb_env 1) demo_pkt lb1 = Some (Lb_Done m' lb2) \<and> action (mb_meta m') = ONVM_NF_ACTION_DROP \<and> num_stored lb2 = 1"
proof -
  have ok: "ft_ok (list_hash_ok 1) 1 (lb_ft demo_full_lb)" "server_count demo_full_lb \<noteq> 0" "num_stored demo_full_lb \<noteq> 0xffff"
    by (simp_all add: ft_ok_def demo_full_lb_def demo_lb_def list_hash_ok_def)
  have "dom (flow_of map_of demo_full_lb) = {demo_key}" by (auto simp: demo_full_lb_def flow_of_def ft_map_def split: if_splits)
  then have full: "card (dom (flow_of map_of demo_full_lb)) = 1" by simp
  have "lb_key demo_full_lb demo_pkt demo_key \<noteq> demo_key" by code_simp
  then have none: "flow_of map_of demo_full_lb (lb_key demo_full_lb demo_pkt demo_key) = None" by (simp add: demo_full_lb_def flow_of_def ft_map_def)
  obtain lb1 where run: "lb_run (demo_lb_env 1) [Lb_Callback 90000] demo_full_lb = Some lb1" by (simp add: lb_step_def)
  show ?thesis
    using lb_full_table_stuck [OF demo_lb_hash ok(1,2) full ok(3) run demo_pkt_plain demo_fill_key none] run by (auto simp: demo_full_lb_def)
qed

end
