(* ===== verification/LbExpiry.thy ===== *)
theory LbExpiry
  imports LoadBalancer
begin

text \<open>
  The removal of expired connections by the load balancer (\<^verbatim>\<open>clear_entries\<close>): the loop runs through the hash while it deletes from it. The locale \<open>rte_hash_iter\<close> adds to
  the hash interface what is documented of \<^verbatim>\<open>rte_hash_iterate\<close>: the iterator is a position that only moves forward, and deleting a key empties its position. The
  hash \<open>slot_hash\<close>, an array of places, is an instance.
\<close>

section \<open>Iterating over a hash\<close>

locale rte_hash_iter = rte_hash api slots sig cap hinv
  for api :: "('h, 'k) hash_api" and slots :: "'h \<Rightarrow> 'k \<Rightarrow> nat option" and sig :: "'k \<Rightarrow> u32" and cap :: nat and hinv :: "'h \<Rightarrow> bool" +
  fixes pos :: "'h \<Rightarrow> nat \<Rightarrow> 'k option" and span :: nat
  assumes span_small: "span < 2 ^ 32"
    and pos_slot: "hinv h \<Longrightarrow> i < span \<Longrightarrow> pos h i = Some k \<Longrightarrow> slots h k \<noteq> None"
    and slot_pos: "hinv h \<Longrightarrow> slots h k \<noteq> None \<Longrightarrow> \<exists>i < span. pos h i = Some k"
    and pos_inj: "hinv h \<Longrightarrow> pos h i = Some k \<Longrightarrow> pos h j = Some k \<Longrightarrow> i = j"
    and iterate_end: "hinv h \<Longrightarrow> \<forall>i. unat n \<le> i \<and> i < span \<longrightarrow> pos h i = None \<Longrightarrow> fst (hash_iterate api h n) = - ENOENT"
    and iterate_next: "hinv h \<Longrightarrow> unat n \<le> i \<Longrightarrow> i < span \<Longrightarrow> pos h i = Some k \<Longrightarrow> \<forall>j. unat n \<le> j \<and> j < i \<longrightarrow> pos h j = None \<Longrightarrow>
          slots h k = Some p \<Longrightarrow> hash_iterate api h n = (int p, Some k, of_nat (Suc i))"
    and del_pos: "hinv h \<Longrightarrow> slots h k \<noteq> None \<Longrightarrow> hash_del_key api h k (sig k) = (r, h') \<Longrightarrow> pos h' i = (if pos h i = Some k then None else pos h i)"

section \<open>A hash of places\<close>

text \<open>A key is at the place it was put; a new key takes the first free place.\<close>

definition find_place :: "('k option \<Rightarrow> bool) \<Rightarrow> nat \<Rightarrow> 'k option list \<Rightarrow> nat option" where
  "find_place P n h = find (\<lambda>i. P (h ! i)) [n..<length h]"

definition slot_hash_api :: "('k option list, 'k) hash_api" where
  "slot_hash_api = \<lparr>
     hash_add_key = (\<lambda>h k s. case find_place (\<lambda>x. x = Some k) 0 h of
        Some i \<Rightarrow> (int i, h)
      | None \<Rightarrow> (case find_place (\<lambda>x. x = None) 0 h of None \<Rightarrow> (- ENOSPC, h) | Some i \<Rightarrow> (int i, h[i := Some k]))),
     hash_lookup = (\<lambda>h k s. case find_place (\<lambda>x. x = Some k) 0 h of None \<Rightarrow> - ENOENT | Some i \<Rightarrow> int i),
     hash_del_key = (\<lambda>h k s. case find_place (\<lambda>x. x = Some k) 0 h of None \<Rightarrow> (- ENOENT, h) | Some i \<Rightarrow> (int i, h[i := None])),
     hash_iterate = (\<lambda>h n. case find_place (\<lambda>x. x \<noteq> None) (unat n) h of None \<Rightarrow> (- ENOENT, None, n) | Some i \<Rightarrow> (int i, h ! i, of_nat (Suc i)))\<rparr>"

definition slot_of :: "'k option list \<Rightarrow> 'k \<Rightarrow> nat option" where
  "slot_of h k = find_place (\<lambda>x. x = Some k) 0 h"

definition place :: "'k option list \<Rightarrow> nat \<Rightarrow> 'k option" where
  "place h i = (if i < length h then h ! i else None)"

definition slot_hash_ok :: "nat \<Rightarrow> 'k option list \<Rightarrow> bool" where
  "slot_hash_ok cap h \<longleftrightarrow> length h = cap \<and> (\<forall>i j k. i < cap \<and> j < cap \<and> h ! i = Some k \<and> h ! j = Some k \<longrightarrow> i = j)"

lemma find_place_Some: "find_place P n h = Some i \<longleftrightarrow> n \<le> i \<and> i < length h \<and> P (h ! i) \<and> (\<forall>j. n \<le> j \<and> j < i \<longrightarrow> \<not> P (h ! j))"
  unfolding find_place_def
proof (induction "length h - n" arbitrary: n)
  case 0
  then show ?case by auto
next
  case (Suc d)
  then have l: "[n..<length h] = n # [Suc n..<length h]" by (simp add: upt_conv_Cons)
  have IH: "find (\<lambda>i. P (h ! i)) [Suc n..<length h] = Some i
      \<longleftrightarrow> Suc n \<le> i \<and> i < length h \<and> P (h ! i) \<and> (\<forall>j. Suc n \<le> j \<and> j < i \<longrightarrow> \<not> P (h ! j))"
    using Suc by (intro Suc.hyps(1)) simp
  show ?case unfolding l using Suc.hyps(2) IH by (auto simp: Suc_le_eq) (metis le_neq_implies_less)+
qed

lemma find_place_None: "find_place P n h = None \<longleftrightarrow> (\<forall>i. n \<le> i \<and> i < length h \<longrightarrow> \<not> P (h ! i))"
  by (auto simp: find_place_def find_None_iff)

lemma slot_of_iff: "slot_hash_ok cap h \<Longrightarrow> slot_of h k = Some i \<longleftrightarrow> i < cap \<and> h ! i = Some k"
  unfolding slot_of_def find_place_Some slot_hash_ok_def by (metis le0 less_irrefl order_less_trans)

lemma slot_of_None: "slot_hash_ok cap h \<Longrightarrow> slot_of h k = None \<longleftrightarrow> (\<forall>i < cap. h ! i \<noteq> Some k)"
  by (auto simp: slot_of_def find_place_None slot_hash_ok_def)

text \<open>Two maps to places are equal when they have the same pairs.\<close>

lemma slots_eqI: "(\<And>k i. f k = Some i \<longleftrightarrow> g k = Some i) \<Longrightarrow> f = g"
  by (rule ext) (metis option.exhaust)

lemma slot_hash_update:
  assumes "slot_hash_ok cap h" "i < cap" "\<forall>k. x = Some k \<longrightarrow> slot_of h k = None"
  shows "slot_hash_ok cap (h[i := x])"
  using assms slot_of_None [OF assms(1)] unfolding slot_hash_ok_def by (auto simp: nth_list_update split: if_splits)

lemma place_facts:
  assumes "slot_hash_ok cap h"
  shows "place h i = Some k \<longleftrightarrow> slot_of h k = Some i" "slot_of h k = Some i \<Longrightarrow> i < cap"
  using slot_of_iff [OF assms, of k i] assms by (auto simp: place_def slot_hash_ok_def)

interpretation slot_hash: rte_hash slot_hash_api slot_of sig cap "slot_hash_ok cap" for sig :: "'k \<Rightarrow> u32" and cap
proof (unfold_locales, goal_cases)
  case (1 h k i)
  show ?case by (rule place_facts(2) [OF 1])
next
  case (2 h k i k')
  have "h ! i = Some k" "h ! i = Some k'" using slot_of_iff [OF 2(1), THEN iffD1] 2(2,3) by blast+
  then show ?case by simp
next
  case (5 h k r h')
  show ?case
  proof (cases "find_place (\<lambda>x. x = None) 0 h")
    case None
    then show ?thesis using 5 by (simp add: slot_hash_api_def slot_of_def)
  next
    case (Some i)
    then have i: "i < cap" "h ! i = None" using 5(1) by (auto simp: find_place_Some slot_hash_ok_def)
    have h': "h' = h[i := Some k]" "r = int i" using 5 Some by (auto simp: slot_hash_api_def slot_of_def)
    have ok: "slot_hash_ok cap h'" unfolding h' using 5(1,2) i(1) by (intro slot_hash_update) simp_all
    have "slot_of h' k' = Some j \<longleftrightarrow> ((slot_of h)(k \<mapsto> i)) k' = Some j" for k' j
      using slot_of_iff [OF ok] slot_of_iff [OF 5(1)] slot_of_None [OF 5(1), of k] 5(1,2) i
      by (auto simp: h' slot_hash_ok_def nth_list_update)
    then show ?thesis using ok h'(2) slots_eqI by blast
  qed
next
  case (6 h k r h')
  show ?case
  proof (cases "slot_of h k")
    case None
    then show ?thesis using 6 by (auto simp: slot_hash_api_def slot_of_def fun_upd_idem)
  next
    case (Some i)
    then have h': "h' = h[i := None]" "r = int i" using 6 by (auto simp: slot_hash_api_def slot_of_def)
    have i: "i < cap" "h ! i = Some k" using slot_of_iff [OF 6(1)] Some by auto
    have ok: "slot_hash_ok cap h'" unfolding h' using 6(1) i(1) by (intro slot_hash_update) simp_all
    have "slot_of h' k' = Some j \<longleftrightarrow> ((slot_of h)(k := None)) k' = Some j" for k' j
      using slot_of_iff [OF ok] slot_of_iff [OF 6(1)] 6(1) i by (auto simp: h' slot_hash_ok_def nth_list_update)
    then have "slot_of h' = (slot_of h)(k := None)" by (rule slots_eqI)
    then show ?thesis using ok h'(2) Some by simp
  qed
qed (auto simp: slot_hash_api_def slot_of_def)

interpretation slot_iter: rte_hash_iter slot_hash_api slot_of sig "unat n" "slot_hash_ok (unat n)" place "unat n"
  for sig :: "'k \<Rightarrow> u32" and n :: u32
proof (unfold_locales, goal_cases)
  case 1
  then show ?case using unat_less_2p [of n] by simp
next
  case (2 h i k)
  have "slot_of h k = Some i" using place_facts(1) [OF 2(1), THEN iffD1] 2(3) by blast
  then show ?case by simp
next
  case (3 h k)
  then obtain i where "slot_of h k = Some i" by blast
  then show ?case using place_facts(1) [OF 3(1), THEN iffD2] place_facts(2) [OF 3(1)] by blast
next
  case (4 h i k j)
  have "slot_of h k = Some i" "slot_of h k = Some j" using place_facts(1) [OF 4(1), THEN iffD1] 4(2,3) by blast+
  then show ?case by simp
next
  case (5 h m)
  then have "find_place (\<lambda>x. x \<noteq> None) (unat m) h = None" by (auto simp: find_place_None place_def slot_hash_ok_def)
  then show ?case by (simp add: slot_hash_api_def)
next
  case (6 h m i k p)
  have l: "length h = unat n" using 6(1) by (simp add: slot_hash_ok_def)
  have "h ! i = Some k" using 6(3,4) l by (simp add: place_def)
  then have "find_place (\<lambda>x. x \<noteq> None) (unat m) h = Some i" using 6(2,3,5) l by (auto simp: find_place_Some place_def)
  moreover have "p = i" using place_facts(1) [OF 6(1)] 6(4,6) by simp
  ultimately show ?case using \<open>h ! i = Some k\<close> by (simp add: slot_hash_api_def)
next
  case (7 h k r h' i)
  then obtain p where p: "slot_of h k = Some p" "h' = h[p := None]" by (auto simp: slot_hash_api_def slot_of_def split: option.splits)
  have "p < unat n" "h ! p = Some k" using slot_of_iff [OF 7(1)] p(1) by auto
  then show ?case using 7(1) slot_of_iff [OF 7(1)] p by (auto simp: place_def slot_hash_ok_def nth_list_update)
qed

section \<open>Clearing\<close>

text \<open>The connections at positions from \<open>n\<close> on that have expired, and what is left of the table.\<close>

definition expired_from :: "('h \<Rightarrow> nat \<Rightarrow> onvm_ft_ipv4_5tuple option) \<Rightarrow> nat \<Rightarrow> ('h \<Rightarrow> onvm_ft_ipv4_5tuple \<Rightarrow> nat option) \<Rightarrow> u64 \<Rightarrow> nat
    \<Rightarrow> 'h loadbalance \<Rightarrow> onvm_ft_ipv4_5tuple set" where
  "expired_from pos span slots hz n lb =
     {k. (\<exists>i. n \<le> i \<and> i < span \<and> pos (ft_hash (lb_ft lb)) i = Some k) \<and> (\<exists>f. flow_of slots lb k = Some f \<and> expired hz lb f)}"

definition cleared :: "('h \<Rightarrow> nat \<Rightarrow> onvm_ft_ipv4_5tuple option) \<Rightarrow> nat \<Rightarrow> ('h \<Rightarrow> onvm_ft_ipv4_5tuple \<Rightarrow> nat option) \<Rightarrow> u64 \<Rightarrow> nat
    \<Rightarrow> 'h loadbalance \<Rightarrow> onvm_ft_ipv4_5tuple \<Rightarrow> flow_info option" where
  "cleared pos span slots hz n lb k =
     (case flow_of slots lb k of
        None \<Rightarrow> None
      | Some f \<Rightarrow> if \<exists>i. n \<le> i \<and> i < span \<and> pos (ft_hash (lb_ft lb)) i = Some k
                  then (if expired hz lb f then None else Some (f\<lparr>fi_is_active := 1\<rparr>)) else Some f)"

lemma expired_same:
  "same_setup lb lb' \<Longrightarrow> elapsed_cycles lb' = elapsed_cycles lb \<Longrightarrow> expired hz lb' = expired hz lb"
  by (simp add: expired_def same_setup_def fun_eq_iff)

locale lb_expiry = rte_hash_iter "le_hash env" slots "onvm_softrss (le_softrss env)" cap hinv pos span
  for env :: "'h lb_env" and slots :: "'h \<Rightarrow> onvm_ft_ipv4_5tuple \<Rightarrow> nat option" and cap :: nat and hinv :: "'h \<Rightarrow> bool"
    and pos :: "'h \<Rightarrow> nat \<Rightarrow> onvm_ft_ipv4_5tuple option" and span :: nat

sublocale lb_expiry \<subseteq> lb_table
  by unfold_locales

context lb_expiry
begin

text \<open>One round at position \<open>i\<close>: the key there is updated or deleted, and everything behind it stays.\<close>

definition visit :: "onvm_ft_ipv4_5tuple \<Rightarrow> nat \<Rightarrow> 'h loadbalance \<Rightarrow> 'h loadbalance" where
  "visit k p lb =
     (let f = update_status (le_hz env) lb (get_flow lb p); lb1 = set_flow p f lb in if fi_is_active f = 0 then drop_flow env k lb1 else lb1)"

lemma visit_spec:
  assumes ok: "ft_ok hinv cap (lb_ft lb)" and p: "slots (ft_hash (lb_ft lb)) k = Some p"
  shows "ft_ok hinv cap (lb_ft (visit k p lb))" "same_setup lb (visit k p lb)" "elapsed_cycles (visit k p lb) = elapsed_cycles lb"
    "flow_of slots (visit k p lb) = (flow_of slots lb)(k := if expired (le_hz env) lb (get_flow lb p) then None else Some ((get_flow lb p)\<lparr>fi_is_active := 1\<rparr>))"
    "num_stored (visit k p lb) = num_stored lb - (if expired (le_hz env) lb (get_flow lb p) then 1 else 0)"
    "k' \<noteq> k \<Longrightarrow> pos (ft_hash (lb_ft (visit k p lb))) i = Some k' \<longleftrightarrow> pos (ft_hash (lb_ft lb)) i = Some k'"
proof -
  let ?f = "update_status (le_hz env) lb (get_flow lb p)" let ?lb1 = "set_flow p ?f lb"
  note w = set_flow_map(1,2) [OF ok p, of ?f]
  have p1: "slots (ft_hash (lb_ft ?lb1)) k \<noteq> None" using p by simp
  note d = drop_flow_spec [OF w(2) p1]
  have h: "hinv (ft_hash (lb_ft lb))" using ok by (simp add: ft_ok_def)
  have "pos (ft_hash (lb_ft (drop_flow env k ?lb1))) i = (if pos (ft_hash (lb_ft lb)) i = Some k then None else pos (ft_hash (lb_ft lb)) i)"
    unfolding d(6) set_flow_simps using del_pos [OF h, of k] p by (metis option.distinct(1) prod.collapse)
  then show "k' \<noteq> k \<Longrightarrow> pos (ft_hash (lb_ft (visit k p lb))) i = Some k' \<longleftrightarrow> pos (ft_hash (lb_ft lb)) i = Some k'"
    by (auto simp: visit_def Let_def)
  show "ft_ok hinv cap (lb_ft (visit k p lb))" "same_setup lb (visit k p lb)" "elapsed_cycles (visit k p lb) = elapsed_cycles lb"
    using w(2) d(1,4,5) same_setup_trans [of lb ?lb1] by (simp_all add: visit_def Let_def)
  show "flow_of slots (visit k p lb) = (flow_of slots lb)(k := if expired (le_hz env) lb (get_flow lb p) then None else Some ((get_flow lb p)\<lparr>fi_is_active := 1\<rparr>))"
    "num_stored (visit k p lb) = num_stored lb - (if expired (le_hz env) lb (get_flow lb p) then 1 else 0)"
    using w(1) d(2,3) by (auto simp: visit_def Let_def update_status_def)
qed

lemma finite_expired: "finite (expired_from pos span slots hz n lb)"
proof -
  have "expired_from pos span slots hz n lb \<subseteq> (\<lambda>i. the (pos (ft_hash (lb_ft lb)) i)) ` {..<span}"
    by (force simp: expired_from_def)
  then show ?thesis using finite_surj [OF finite_lessThan] by blast
qed

text \<open>The first key at a position from \<open>n\<close> on: what is behind it is what the rest of the loop sees.\<close>

lemma visit_rest:
  assumes ok: "ft_ok hinv cap (lb_ft lb)" and i: "n \<le> i" "i < span" "pos (ft_hash (lb_ft lb)) i = Some k" "\<forall>j. n \<le> j \<and> j < i \<longrightarrow> pos (ft_hash (lb_ft lb)) j = None"
    and p: "slots (ft_hash (lb_ft lb)) k = Some p"
  shows "cleared pos span slots (le_hz env) (Suc i) (visit k p lb) = cleared pos span slots (le_hz env) n lb"
    "expired_from pos span slots (le_hz env) n lb = expired_from pos span slots (le_hz env) (Suc i) (visit k p lb)
       \<union> (if expired (le_hz env) lb (get_flow lb p) then {k} else {})"
    "k \<notin> expired_from pos span slots (le_hz env) (Suc i) (visit k p lb)"
proof -
  note v = visit_spec [OF ok p]
  have h: "hinv (ft_hash (lb_ft lb))" "hinv (ft_hash (lb_ft (visit k p lb)))" using ok v(1) by (simp_all add: ft_ok_def)
  have f: "flow_of slots lb k = Some (get_flow lb p)" by (rule set_flow_map(4) [OF ok p])
  have e: "expired hz (visit k p lb) = expired hz lb" for hz by (rule expired_same [OF v(2,3)])
  have at: "(\<exists>j. n \<le> j \<and> j < span \<and> pos (ft_hash (lb_ft lb)) j = Some k')
      \<longleftrightarrow> (\<exists>j. Suc i \<le> j \<and> j < span \<and> pos (ft_hash (lb_ft (visit k p lb))) j = Some k')" if "k' \<noteq> k" for k'
  proof -
    have "n \<le> j \<longleftrightarrow> Suc i \<le> j" if j: "pos (ft_hash (lb_ft lb)) j = Some k'" for j
      using i j \<open>k' \<noteq> k\<close> by (cases j i rule: linorder_cases) auto
    then show ?thesis using v(6) [OF that] by auto
  qed
  have gone: "pos (ft_hash (lb_ft (visit k p lb))) j \<noteq> Some k" if "Suc i \<le> j" "j < span" "flow_of slots (visit k p lb) k \<noteq> None" for j
  proof
    assume j: "pos (ft_hash (lb_ft (visit k p lb))) j = Some k"
    have "visit k p lb = set_flow p (update_status (le_hz env) lb (get_flow lb p)) lb"
      using that(3) v(4) by (auto simp: visit_def Let_def update_status_def split: if_splits)
    then show False using j pos_inj [OF h(1) _ i(3), of j] that(1) by simp
  qed
  have at_k: "\<exists>j. n \<le> j \<and> j < span \<and> pos (ft_hash (lb_ft lb)) j = Some k" using i by blast
  show "cleared pos span slots (le_hz env) (Suc i) (visit k p lb) = cleared pos span slots (le_hz env) n lb"
  proof
    fix k'
    show "cleared pos span slots (le_hz env) (Suc i) (visit k p lb) k' = cleared pos span slots (le_hz env) n lb k'"
    proof (cases "k' = k")
      case True
      then show ?thesis using gone at_k f v(4) by (auto simp: cleared_def split: option.splits if_splits)
    next
      case False
      then show ?thesis unfolding cleared_def at [OF False] e using v(4) by simp
    qed
  qed
  show k: "k \<notin> expired_from pos span slots (le_hz env) (Suc i) (visit k p lb)" using gone by (auto simp: expired_from_def)
  show "expired_from pos span slots (le_hz env) n lb = expired_from pos span slots (le_hz env) (Suc i) (visit k p lb)
       \<union> (if expired (le_hz env) lb (get_flow lb p) then {k} else {})"
  proof (rule set_eqI)
    fix k'
    show "k' \<in> expired_from pos span slots (le_hz env) n lb \<longleftrightarrow> k' \<in> expired_from pos span slots (le_hz env) (Suc i) (visit k p lb)
        \<union> (if expired (le_hz env) lb (get_flow lb p) then {k} else {})"
    proof (cases "k' = k")
      case True
      then show ?thesis using k at_k f by (auto simp: expired_from_def)
    next
      case False
      then show ?thesis using at [OF False] v(4) e by (simp add: expired_from_def)
    qed
  qed
qed

lemma clear_loop_end:
  assumes "ft_ok hinv cap (lb_ft lb)" "n \<le> span" "\<forall>i. n \<le> i \<and> i < span \<longrightarrow> pos (ft_hash (lb_ft lb)) i = None"
  shows "clear_loop env (of_nat n) lb = Some lb" "cleared pos span slots hz n lb = flow_of slots lb" "expired_from pos span slots hz n lb = {}"
proof -
  have "unat (of_nat n :: u32) = n" using assms(2) span_small by (intro unat_of_nat_exact) simp
  then have "fst (hash_iterate (le_hash env) (ft_hash (lb_ft lb)) (of_nat n)) = - ENOENT"
    using assms(1,3) by (intro iterate_end) (simp_all add: ft_ok_def)
  then show "clear_loop env (of_nat n) lb = Some lb"
    by (subst clear_loop.simps) (auto simp: onvm_ft_iterate_def index_result_def split: prod.splits)
  show "cleared pos span slots hz n lb = flow_of slots lb" "expired_from pos span slots hz n lb = {}"
    using assms(3) by (auto simp: cleared_def expired_from_def fun_eq_iff split: option.splits)
qed

lemma clear_loop_next:
  assumes "ft_ok hinv cap (lb_ft lb)" "n \<le> i" "i < span" "pos (ft_hash (lb_ft lb)) i = Some k" "\<forall>j. n \<le> j \<and> j < i \<longrightarrow> pos (ft_hash (lb_ft lb)) j = None"
    and "slots (ft_hash (lb_ft lb)) k = Some p"
  shows "clear_loop env (of_nat n) lb = clear_loop env (of_nat (Suc i)) (visit k p lb)"
proof -
  have "unat (of_nat n :: u32) = n" using assms(2,3) span_small by (intro unat_of_nat_exact) simp
  then have "hash_iterate (le_hash env) (ft_hash (lb_ft lb)) (of_nat n) = (int p, Some k, of_nat (Suc i))"
    using assms by (intro iterate_next) (simp_all add: ft_ok_def)
  then have "onvm_ft_iterate (le_hash env) (lb_ft lb) (of_nat n) = ((int p, Some p), Some k, of_nat (Suc i))"
    using index_in_range [OF assms(1,6)] by (simp add: onvm_ft_iterate_def)
  then show ?thesis by (subst clear_loop.simps) (simp add: visit_def Let_def)
qed

lemma clear_loop_spec:
  assumes "ft_ok hinv cap (lb_ft lb)" "n \<le> span"
  shows "\<exists>lb'. clear_loop env (of_nat n) lb = Some lb' \<and> ft_ok hinv cap (lb_ft lb') \<and> same_setup lb lb' \<and> flow_of slots lb' = cleared pos span slots (le_hz env) n lb
    \<and> num_stored lb' = num_stored lb - of_nat (card (expired_from pos span slots (le_hz env) n lb))"
  using assms
proof (induction "span - n" arbitrary: n lb rule: less_induct)
  case less
  let ?P = "\<lambda>i. n \<le> i \<and> i < span \<and> pos (ft_hash (lb_ft lb)) i \<noteq> None"
  show ?case
  proof (cases "\<exists>i. ?P i")
    case False
    then show ?thesis using clear_loop_end [OF less.prems] less.prems(1) by auto
  next
    case True
    define i where "i = (LEAST i. ?P i)"
    have i: "?P i" "\<forall>j. n \<le> j \<and> j < i \<longrightarrow> pos (ft_hash (lb_ft lb)) j = None"
    proof -
      show P: "?P i" unfolding i_def by (rule LeastI_ex [OF True])
      show "\<forall>j. n \<le> j \<and> j < i \<longrightarrow> pos (ft_hash (lb_ft lb)) j = None"
        using not_less_Least [of _ ?P] P unfolding i_def [symmetric] by force
    qed
    then obtain k where k: "pos (ft_hash (lb_ft lb)) i = Some k" by blast
    have hi: "hinv (ft_hash (lb_ft lb))" using less.prems(1) by (simp add: ft_ok_def)
    obtain p where p: "slots (ft_hash (lb_ft lb)) k = Some p" using pos_slot [OF hi _ k] i(1) by blast
    have b: "n \<le> i" "i < span" using i(1) by simp_all
    note v = visit_spec [OF less.prems(1) p] and r = visit_rest [OF less.prems(1) b k i(2) p]
    have IH: "\<exists>lb'. clear_loop env (of_nat (Suc i)) (visit k p lb) = Some lb' \<and> ft_ok hinv cap (lb_ft lb') \<and> same_setup (visit k p lb) lb'
      \<and> flow_of slots lb' = cleared pos span slots (le_hz env) (Suc i) (visit k p lb)
      \<and> num_stored lb' = num_stored (visit k p lb) - of_nat (card (expired_from pos span slots (le_hz env) (Suc i) (visit k p lb)))"
      using b v(1) by (intro less.hyps) simp_all
    have "num_stored (visit k p lb) - of_nat (card (expired_from pos span slots (le_hz env) (Suc i) (visit k p lb)))
        = num_stored lb - of_nat (card (expired_from pos span slots (le_hz env) n lb))"
      using r(3) finite_expired unfolding v(5) r(2) by simp
    then show ?thesis
      using IH v(2) same_setup_trans unfolding clear_loop_next [OF less.prems(1) b k i(2) p] r(1) by metis
  qed
qed

lemma clear_entries_spec:
  assumes ok: "ft_ok hinv cap (lb_ft lb)" and hz: "le_hz env \<noteq> 0"
  shows "\<exists>lb'. clear_entries env lb = Some lb' \<and> ft_ok hinv cap (lb_ft lb') \<and> same_setup lb lb'
    \<and> flow_of slots lb' = (\<lambda>k. case flow_of slots lb k of None \<Rightarrow> None
         | Some f \<Rightarrow> if expired (le_hz env) lb f then None else Some (f\<lparr>fi_is_active := 1\<rparr>))
    \<and> num_stored lb' = num_stored lb - of_nat (card {k. \<exists>f. flow_of slots lb k = Some f \<and> expired (le_hz env) lb f})"
proof -
  have hi: "hinv (ft_hash (lb_ft lb))" using ok by (simp add: ft_ok_def)
  have all: "\<exists>i. 0 \<le> i \<and> i < span \<and> pos (ft_hash (lb_ft lb)) i = Some k" if "flow_of slots lb k = Some f" for k f
    using slot_pos [OF hi, of k] that by (auto simp: flow_of_def ft_map_def)
  have "cleared pos span slots (le_hz env) 0 lb = (\<lambda>k. case flow_of slots lb k of None \<Rightarrow> None
         | Some f \<Rightarrow> if expired (le_hz env) lb f then None else Some (f\<lparr>fi_is_active := 1\<rparr>))"
    using all by (auto simp: cleared_def fun_eq_iff split: option.splits)
  moreover have "expired_from pos span slots (le_hz env) 0 lb = {k. \<exists>f. flow_of slots lb k = Some f \<and> expired (le_hz env) lb f}"
    using all by (auto simp: expired_from_def)
  ultimately show ?thesis using clear_loop_spec [OF ok, of 0] hz by (simp add: clear_entries_def)
qed

end

text \<open>
  C19. \<^verbatim>\<open>clear_entries\<close>: the loop ends although it deletes while it iterates; afterwards exactly the connections whose last packet is at least the expiry time ago are gone,
  all others are still there (and marked active), and the count is lower by the number of those removed.
\<close>

theorem clear_entries_removes_expired:
  assumes "rte_hash_iter (le_hash env) slots (onvm_softrss (le_softrss env)) cap hinv pos span" and "ft_ok hinv cap (lb_ft lb)" and "le_hz env \<noteq> 0"
  shows "\<exists>lb'. clear_entries env lb = Some lb' \<and> ft_ok hinv cap (lb_ft lb') \<and> same_setup lb lb'
    \<and> flow_of slots lb' = (\<lambda>k. case flow_of slots lb k of None \<Rightarrow> None
         | Some f \<Rightarrow> if (elapsed_cycles lb - fi_last_pkt_cycles f) div le_hz env \<ge> ucast (expire_time lb) then None else Some (f\<lparr>fi_is_active := 1\<rparr>))
    \<and> num_stored lb' = num_stored lb - of_nat (card {k. \<exists>f. flow_of slots lb k = Some f
         \<and> (elapsed_cycles lb - fi_last_pkt_cycles f) div le_hz env \<ge> ucast (expire_time lb)})"
  by (rule lb_expiry.clear_entries_spec [OF _ assms(2,3), unfolded lb_expiry_def expired_def, OF assms(1)])

definition demo_slot_env :: "onvm_ft_ipv4_5tuple option list lb_env" where
  "demo_slot_env = \<lparr>le_hash = slot_hash_api, le_softrss = (\<lambda>_ _ _ _. 0), le_hz = 10, le_macaddr = (\<lambda>q. Some [2, 0, 0, 0, 0, q]),
     le_helper = le_helper (demo_lb_env 4)\<rparr>"

text \<open>Two connections, the first with its last packet at time 0, the second at time 300; now it is 330.\<close>

definition demo_slot_lb :: "onvm_ft_ipv4_5tuple option list loadbalance" where
  "demo_slot_lb = \<lparr>lb_ft = \<lparr>ft_hash = [None, Some demo_key, Some (reverse_key demo_key)],
       ft_data = map (\<lambda>t. \<lparr>fi_dest = 0, fi_s_addr_bytes = replicate 6 0, fi_last_pkt_cycles = t, fi_is_active = 1\<rparr>) [0, 0, 300], ft_cnt = 3, ft_entry_size = 32\<rparr>,
     server_count = 2, lb_server = [], num_stored = 2, elapsed_cycles = 330, last_cycles = 0, expire_time = 32, ip_lb_server = 0, ip_lb_client = 0,
     server_port = 1, client_port = 0\<rparr>"

interpretation demo_expiry: lb_expiry demo_slot_env slot_of 3 "slot_hash_ok 3" place 3
  using slot_iter.rte_hash_iter_axioms [of "onvm_softrss (le_softrss demo_slot_env)" 3] by (simp add: lb_expiry_def demo_slot_env_def)

theorem clear_entries_removes_expired_witness:
  "\<exists>lb'. clear_entries demo_slot_env demo_slot_lb = Some lb' \<and> flow_of slot_of lb' demo_key = None \<and> flow_of slot_of lb' (reverse_key demo_key) \<noteq> None"
proof -
  have ne: "demo_key \<noteq> reverse_key demo_key" by code_simp
  have three: "i < 3 \<longleftrightarrow> i = 0 \<or> i = 1 \<or> i = 2" for i :: nat by auto
  have ok: "ft_ok (slot_hash_ok 3) 3 (lb_ft demo_slot_lb)"
    using ne by (auto simp: ft_ok_def demo_slot_lb_def slot_hash_ok_def three)
  have flows: "flow_of slot_of demo_slot_lb demo_key = Some \<lparr>fi_dest = 0, fi_s_addr_bytes = replicate 6 0, fi_last_pkt_cycles = 0, fi_is_active = 1\<rparr>"
    "flow_of slot_of demo_slot_lb (reverse_key demo_key) = Some \<lparr>fi_dest = 0, fi_s_addr_bytes = replicate 6 0, fi_last_pkt_cycles = 300, fi_is_active = 1\<rparr>"
    by code_simp+
  have "le_hz demo_slot_env \<noteq> 0" "le_hz demo_slot_env = 10" "elapsed_cycles demo_slot_lb = 330" "expire_time demo_slot_lb = 32"
    by (simp_all add: demo_slot_env_def demo_slot_lb_def)
  with clear_entries_removes_expired [OF demo_expiry.rte_hash_iter_axioms ok] flows show ?thesis by auto
qed

end
