(* ===== verification/TokenBucket.thy ===== *)
theory TokenBucket
  imports CLib OnvmTypes "HOL-Library.Monad_Syntax"
begin

text \<open>
  The token bucket of \<^verbatim>\<open>src/examples/simple_fwd_tb/forward_tb.c\<close>: an NF that forwards packets at a limited rate. The handler waits in a loop for tokens; the successive
  readings of the cycle counter are a list, and running out of readings (\<open>None\<close>) means that it still waits. Log output and the periodic
  display are not modelled.
\<close>

section \<open>Configuration\<close>

record tb_config =
  tb_rate :: u64
  tb_depth :: u64
  tb_tokens :: u64
  last_cycle :: u64
  cur_cycles :: u64

record tb_globals =
  tbg_destination :: u32
  tbg_print_delay :: u32
  tbg_tb :: tb_config
  tbg_dst_flag :: bool

text \<open>\<open>cur\<close> is what the allocated memory held: \<^verbatim>\<open>cur_cycles\<close> is not initialised.\<close>

definition tb_defaults :: "u64 \<Rightarrow> u64 \<Rightarrow> tb_globals" where
  "tb_defaults now cur = \<lparr>tbg_destination = 0, tbg_print_delay = 1000000,
     tbg_tb = \<lparr>tb_rate = 1000, tb_depth = 10000, tb_tokens = 10000, last_cycle = now, cur_cycles = cur\<rparr>, tbg_dst_flag = False\<rparr>"

definition tb_apply_opt :: "opt_result \<Rightarrow> tb_globals \<Rightarrow> tb_globals option" where
  "tb_apply_opt opt g =
     (case opt of
        (c, Some s) \<Rightarrow>
          let n = fst (strtoul_c 10 s); tb = tbg_tb g in
          if c = CHR ''d'' then Some (g\<lparr>tbg_destination := ucast n, tbg_dst_flag := True\<rparr>)
          else if c = CHR ''p'' then Some (g\<lparr>tbg_print_delay := ucast n\<rparr>)
          else if c = CHR ''D'' then Some (g\<lparr>tbg_tb := tb\<lparr>tb_depth := n, tb_tokens := n\<rparr>\<rparr>)
          else if c = CHR ''R'' then Some (g\<lparr>tbg_tb := tb\<lparr>tb_rate := n\<rparr>\<rparr>)
          else None
      | (c, None) \<Rightarrow> None)"

primrec tb_apply_opts :: "opt_result list \<Rightarrow> tb_globals \<Rightarrow> tb_globals option" where
  "tb_apply_opts [] g = Some g"
| "tb_apply_opts (opt # opts) g = Option.bind (tb_apply_opt opt g) (tb_apply_opts opts)"

text \<open>\<open>None\<close> is the result \<open>-1\<close>.\<close>

definition tb_parse_app_args :: "opt_result list \<Rightarrow> u64 \<Rightarrow> u64 \<Rightarrow> tb_globals option" where
  "tb_parse_app_args opts now cur =
     Option.bind (tb_apply_opts opts (tb_defaults now cur)) (\<lambda>g. if tbg_dst_flag g then Some g else None)"

section \<open>The handler\<close>

text \<open>The tokens that were produced since the last update, in 64-bit arithmetic.\<close>

definition tokens_at :: "u64 \<Rightarrow> tb_config \<Rightarrow> u64 \<Rightarrow> u64" where
  "tokens_at hz tb cur = (cur - last_cycle tb) * tb_rate tb * 1000000 div hz"

primrec tb_wait :: "u64 \<Rightarrow> tb_config \<Rightarrow> u64 \<Rightarrow> u64 list \<Rightarrow> (u64 \<times> u64 list) option" where
  "tb_wait hz tb len [] = None"
| "tb_wait hz tb len (c # clock) = (if tokens_at hz tb c + tb_tokens tb < len then tb_wait hz tb len clock else Some (c, clock))"

definition tb_refill :: "u64 \<Rightarrow> u64 \<Rightarrow> tb_config \<Rightarrow> tb_config" where
  "tb_refill hz cur tb =
     (let tokens_produced = tokens_at hz tb cur in
      tb\<lparr>tb_tokens := if tokens_produced + tb_tokens tb > tb_depth tb then tb_depth tb else tb_tokens tb + tokens_produced,
         last_cycle := cur, cur_cycles := cur\<rparr>)"

definition packet_handler_tb ::
  "u64 \<Rightarrow> u32 \<Rightarrow> u32 \<Rightarrow> onvm_pkt_meta \<Rightarrow> tb_config \<Rightarrow> u64 list \<Rightarrow> (onvm_pkt_meta \<times> tb_config \<times> u64 list) option" where
  "packet_handler_tb hz dest pkt_len meta tb clock =
     (if ucast pkt_len > tb_depth tb then Some (meta\<lparr>action := ONVM_NF_ACTION_DROP\<rparr>, tb, clock)
      else do {
        (tb1, clock1) \<leftarrow> (if tb_tokens tb < ucast pkt_len
           then do { (cur, rest) \<leftarrow> tb_wait hz tb (ucast pkt_len) clock; Some (tb_refill hz cur tb, rest) }
           else Some (tb, clock));
        Some (meta\<lparr>action := ONVM_NF_ACTION_TONF, destination := ucast dest\<rparr>, tb1\<lparr>tb_tokens := tb_tokens tb1 - ucast pkt_len\<rparr>, clock1) })"

text \<open>A sequence of packets: the bytes that were forwarded.\<close>

primrec tb_run :: "u64 \<Rightarrow> u32 \<Rightarrow> (u32 \<times> onvm_pkt_meta) list \<Rightarrow> tb_config \<Rightarrow> u64 list \<Rightarrow> (nat \<times> tb_config \<times> u64 list) option" where
  "tb_run hz dest [] tb clock = Some (0, tb, clock)"
| "tb_run hz dest (p # ps) tb clock = do {
     (meta, tb1, clock1) \<leftarrow> packet_handler_tb hz dest (fst p) (snd p) tb clock;
     (n, tb2, clock2) \<leftarrow> tb_run hz dest ps tb1 clock1;
     Some ((if action meta = ONVM_NF_ACTION_TONF then unat (fst p) else 0) + n, tb2, clock2) }"

section \<open>The rate\<close>

text \<open>The product wraps around when the NF was idle for long; it then only loses tokens.\<close>

lemma tokens_at_le:
  assumes "last_cycle tb \<le> cur"
  shows "unat (tokens_at hz tb cur) * unat hz \<le> (unat cur - unat (last_cycle tb)) * unat (tb_rate tb) * 1000000"
proof -
  have "unat (tokens_at hz tb cur) * unat hz \<le> unat ((cur - last_cycle tb) * tb_rate tb * 1000000)"
    by (simp add: tokens_at_def unat_div_distrib)
  also have "\<dots> \<le> unat (cur - last_cycle tb) * unat (tb_rate tb) * 1000000"
    by (simp add: unat_word_ariths)
  also have "unat (cur - last_cycle tb) = unat cur - unat (last_cycle tb)" using assms by (rule unat_minus_exact)
  finally show ?thesis .
qed

lemma tb_wait_in: "tb_wait hz tb len clock = Some (c, rest) \<Longrightarrow> \<exists>pre. clock = pre @ c # rest \<and> \<not> tokens_at hz tb c + tb_tokens tb < len"
proof (induction clock)
  case (Cons a clock)
  show ?case
  proof (cases "tokens_at hz tb a + tb_tokens tb < len")
    case True
    then obtain pre where "clock = pre @ c # rest" "\<not> tokens_at hz tb c + tb_tokens tb < len" using Cons by auto
    then show ?thesis by (intro exI [of _ "a # pre"]) simp
  next
    case False
    then show ?thesis using Cons.prems by (intro exI [of _ "[]"]) simp
  qed
qed simp

text \<open>A bucket that is not overfull, and readings of the counter that do not go back.\<close>

definition tb_ok :: "u64 \<Rightarrow> tb_config \<Rightarrow> u64 list \<Rightarrow> bool" where
  "tb_ok hz tb clock \<longleftrightarrow> 2 \<le> hz \<and> tb_tokens tb \<le> tb_depth tb \<and> unat (tb_depth tb) \<le> 2 ^ 63 \<and> sorted (last_cycle tb # clock)"

lemma tokens_no_carry:
  assumes "tb_ok hz tb clock"
  shows "unat (tokens_at hz tb cur + tb_tokens tb) = unat (tokens_at hz tb cur) + unat (tb_tokens tb)"
proof -
  let ?x = "(cur - last_cycle tb) * tb_rate tb * 1000000"
  have "unat (tokens_at hz tb cur) \<le> unat ?x div 2"
    using assms unfolding tokens_at_def unat_div_distrib by (intro div_le_mono2) (simp_all add: tb_ok_def word_le_nat_alt)
  moreover have "unat ?x < 2 ^ 64" using unat_less_2p [of ?x] by simp
  moreover have "unat (tb_tokens tb) \<le> 2 ^ 63" using assms by (auto simp: tb_ok_def word_le_nat_alt)
  ultimately show ?thesis by (intro unat_plus_exact) (simp add: less_mult_imp_div_less)
qed

text \<open>Refilling takes what was produced, up to the depth.\<close>

lemma refill_spec:
  assumes ok: "tb_ok hz tb (cur # rest)" and t: "tb1 = tb_refill hz cur tb"
  shows "tb_ok hz tb1 rest" "tb_rate tb1 = tb_rate tb" "tb_depth tb1 = tb_depth tb" "last_cycle tb1 = cur"
    "unat (tb_tokens tb1) \<le> unat (tb_tokens tb) + unat (tokens_at hz tb cur)"
    "len \<le> tb_depth tb \<Longrightarrow> \<not> tokens_at hz tb cur + tb_tokens tb < len \<Longrightarrow> len \<le> tb_tokens tb1"
proof -
  note s = tokens_no_carry [OF ok, of cur]
  show "tb_ok hz tb1 rest" using ok by (auto simp: t tb_ok_def tb_refill_def Let_def add.commute not_less)
  show "tb_rate tb1 = tb_rate tb" "tb_depth tb1 = tb_depth tb" "last_cycle tb1 = cur" by (simp_all add: t tb_refill_def Let_def)
  show "unat (tb_tokens tb1) \<le> unat (tb_tokens tb) + unat (tokens_at hz tb cur)"
    using s by (auto simp: t tb_refill_def Let_def word_less_nat_alt add.commute)
  show "len \<le> tb_depth tb \<Longrightarrow> \<not> tokens_at hz tb cur + tb_tokens tb < len \<Longrightarrow> len \<le> tb_tokens tb1"
    by (auto simp: t tb_refill_def Let_def add.commute not_less)
qed

definition tb_account :: "u64 \<Rightarrow> nat \<Rightarrow> tb_config \<Rightarrow> tb_config \<Rightarrow> bool" where
  "tb_account hz n tb tb' \<longleftrightarrow> tb_rate tb' = tb_rate tb \<and> tb_depth tb' = tb_depth tb \<and> last_cycle tb \<le> last_cycle tb'
     \<and> n * unat hz + unat (tb_tokens tb') * unat hz
        \<le> unat (tb_tokens tb) * unat hz + (unat (last_cycle tb') - unat (last_cycle tb)) * unat (tb_rate tb) * 1000000"

lemma tb_account_trans:
  assumes "tb_account hz m a b" "tb_account hz n b c"
  shows "tb_account hz (m + n) a c"
proof -
  have l: "unat (last_cycle a) \<le> unat (last_cycle b)" "unat (last_cycle b) \<le> unat (last_cycle c)"
    using assms by (simp_all add: tb_account_def word_le_nat_alt)
  then have d: "unat (last_cycle c) - unat (last_cycle a) = (unat (last_cycle c) - unat (last_cycle b)) + (unat (last_cycle b) - unat (last_cycle a))"
    by simp
  have "last_cycle a \<le> last_cycle c" using assms by (auto simp: tb_account_def)
  then show ?thesis using assms unfolding tb_account_def d by (simp add: algebra_simps)
qed

lemma handler_account:
  assumes ok: "tb_ok hz tb clock" and h: "packet_handler_tb hz dest len meta tb clock = Some (meta', tb', clock')"
  shows "tb_ok hz tb' clock' \<and> tb_account hz (if action meta' = ONVM_NF_ACTION_TONF then unat len else 0) tb tb'"
proof (cases "ucast len > tb_depth tb")
  case True
  then show ?thesis using assms by (auto simp: packet_handler_tb_def tb_account_def)
next
  case fits: False
  have pay: "tb_ok hz (t\<lparr>tb_tokens := tb_tokens t - ucast len\<rparr>) clock' \<and> unat (tb_tokens t - ucast len) + unat len = unat (tb_tokens t)"
    if "tb_ok hz t clock'" "ucast len \<le> tb_tokens t" for t
  proof -
    have e: "unat (tb_tokens t - ucast len) = unat (tb_tokens t) - unat len" using that(2) by (simp add: unat_minus_exact)
    have "unat len \<le> unat (tb_tokens t)" using that(2) by (simp add: word_le_nat_alt)
    then show ?thesis using that(1) e by (auto simp: tb_ok_def word_le_nat_alt)
  qed
  show ?thesis
  proof (cases "tb_tokens tb < ucast len")
    case False
    then have t: "tb' = tb\<lparr>tb_tokens := tb_tokens tb - ucast len\<rparr>" "clock' = clock" "action meta' = ONVM_NF_ACTION_TONF"
      using h fits by (auto simp: packet_handler_tb_def)
    have "unat (tb_tokens tb') + unat len = unat (tb_tokens tb)" "tb_ok hz tb' clock'" using pay [of tb] ok False by (auto simp: t)
    then show ?thesis using t by (simp add: tb_account_def add_mult_distrib [symmetric] add.commute)
  next
    case True
    then obtain cur where w: "tb_wait hz tb (ucast len) clock = Some (cur, clock')" and a: "action meta' = ONVM_NF_ACTION_TONF"
      and tb': "tb' = (tb_refill hz cur tb)\<lparr>tb_tokens := tb_tokens (tb_refill hz cur tb) - ucast len\<rparr>"
      using h fits by (auto simp: packet_handler_tb_def bind_eq_Some_conv)
    obtain pre where pre: "clock = pre @ cur # clock'" "\<not> tokens_at hz tb cur + tb_tokens tb < ucast len" using tb_wait_in [OF w] by blast
    have ok1: "tb_ok hz tb (cur # clock')" using ok pre(1) by (auto simp: tb_ok_def sorted_append)
    note r = refill_spec [OF ok1 refl]
    have le: "ucast len \<le> tb_tokens (tb_refill hz cur tb)" using r(6) fits pre(2) by (simp add: not_less)
    note p = pay [OF r(1) le]
    have lc: "last_cycle tb \<le> cur" using ok1 by (simp add: tb_ok_def)
    have "unat len + unat (tb_tokens tb') \<le> unat (tb_tokens tb) + unat (tokens_at hz tb cur)" using p r(5) by (simp add: tb')
    then have "(unat len + unat (tb_tokens tb')) * unat hz \<le> (unat (tb_tokens tb) + unat (tokens_at hz tb cur)) * unat hz" by (rule mult_le_mono1)
    then have "tb_account hz (unat len) tb tb'"
      using tokens_at_le [OF lc, of hz] lc r(2-4) by (simp add: tb_account_def tb' add_mult_distrib)
    then show ?thesis using p a by (simp add: tb')
  qed
qed

text \<open>
  C20. The token bucket limits the rate: over any run of packets the bytes that are forwarded are at most the tokens at the start plus the rate times the time
  that passed (also when the 64-bit product wraps around), the bucket never holds more than its depth, and what is left is accounted for.
\<close>

theorem token_bucket_limits_rate:
  assumes "2 \<le> hz" and "tb_tokens tb \<le> tb_depth tb" and "unat (tb_depth tb) \<le> 2 ^ 63" and "sorted (last_cycle tb # clock)"
    and "tb_run hz dest ps tb clock = Some (sent, tb', clock')"
  shows "tb_tokens tb' \<le> tb_depth tb
    \<and> sent * unat hz + unat (tb_tokens tb') * unat hz
       \<le> unat (tb_tokens tb) * unat hz + (unat (last_cycle tb') - unat (last_cycle tb)) * unat (tb_rate tb) * 1000000"
proof -
  have "tb_ok hz tb clock \<Longrightarrow> tb_run hz dest ps tb clock = Some (sent, tb', clock') \<Longrightarrow> tb_ok hz tb' clock' \<and> tb_account hz sent tb tb'"
    for ps clock sent tb
  proof (induction ps arbitrary: tb clock sent)
    case Nil
    then show ?case by (simp add: tb_account_def)
  next
    case (Cons p ps)
    then obtain meta tb1 clock1 n where h: "packet_handler_tb hz dest (fst p) (snd p) tb clock = Some (meta, tb1, clock1)"
      and r: "tb_run hz dest ps tb1 clock1 = Some (n, tb', clock')" and s: "sent = (if action meta = ONVM_NF_ACTION_TONF then unat (fst p) else 0) + n"
      by (auto simp: bind_eq_Some_conv)
    note a = handler_account [OF Cons.prems(1) h]
    show ?case using Cons.IH [OF conjunct1 [OF a] r] a tb_account_trans unfolding s by blast
  qed
  from this [of tb clock ps sent] have "tb_ok hz tb' clock'" "tb_account hz sent tb tb'" using assms by (simp_all add: tb_ok_def)
  then show ?thesis by (auto simp: tb_ok_def tb_account_def)
qed

text \<open>The wait ends at the first reading with enough tokens; with a rate of 0, which the command line accepts, it never ends.\<close>

lemma tb_wait_ends: "c \<in> set clock \<Longrightarrow> len \<le> tokens_at hz tb c + tb_tokens tb \<Longrightarrow> tb_wait hz tb len clock \<noteq> None"
  by (induction clock) auto

lemma zero_rate_waits: "tb_rate tb = 0 \<Longrightarrow> tb_tokens tb < len \<Longrightarrow> tb_wait hz tb len clock = None"
  by (induction clock) (simp_all add: tokens_at_def)

definition demo_tb :: tb_config where
  "demo_tb = \<lparr>tb_rate = 1, tb_depth = 1500, tb_tokens = 1500, last_cycle = 0, cur_cycles = 0\<rparr>"

definition demo_tb_meta :: onvm_pkt_meta where
  "demo_tb_meta = \<lparr>action = 0, destination = 0, src = 0, chain_index = 0, meta_flags = 0\<rparr>"

theorem token_bucket_limits_rate_witness:
  "\<exists>tb' clock'. tb_run 1000000 3 [(1000, demo_tb_meta), (1000, demo_tb_meta), (2000, demo_tb_meta)] demo_tb [100, 600, 700] = Some (2000, tb', clock')
     \<and> 2000 * 1000000 + unat (tb_tokens tb') * 1000000 \<le> 1500 * 1000000 + unat (last_cycle tb') * 1000000"
proof -
  have "case tb_run 1000000 3 [(1000, demo_tb_meta), (1000, demo_tb_meta), (2000, demo_tb_meta)] demo_tb [100, 600, 700] of
      Some (n, _) \<Rightarrow> n = 2000 | None \<Rightarrow> False" by code_simp
  then obtain tb' clock' where r: "tb_run 1000000 3 [(1000, demo_tb_meta), (1000, demo_tb_meta), (2000, demo_tb_meta)] demo_tb [100, 600, 700] = Some (2000, tb', clock')"
    by (auto split: option.splits)
  have h: "(2 :: u64) \<le> 1000000" "tb_tokens demo_tb \<le> tb_depth demo_tb" "unat (tb_depth demo_tb) \<le> 2 ^ 63" "sorted (last_cycle demo_tb # [100, 600, 700])"
    by (simp_all add: demo_tb_def)
  show ?thesis using r token_bucket_limits_rate [OF h r] by (auto simp: demo_tb_def)
qed

end
