(* ===== verification/FairQueue.thy ===== *)
theory FairQueue
  imports FlowTable
begin

text \<open>
  The fair queue of \<^verbatim>\<open>src/examples/fair_queue/fair_queue_helper.h\<close>: packets are put into one of several rings by a hash of their connection, and taken out
  of the rings in turn. A ring is an array with a head and a tail in which an empty place holds a null pointer; \<open>ring_queue\<close> states it as a bounded
  queue. The two threads of the NF take the lock of a ring around each access, so an operation is one step; waiting for a lock that is never released is
  \<open>Fq_Deadlock\<close>. Counters that only the display uses are left out.
\<close>

section \<open>State\<close>

datatype fq_fail = Fq_Deadlock | Fq_Undefined

record fairqueue_queue =
  fq_head :: u32
  fq_tail :: u32
  fq_pkts :: "nat option list"
  fq_lock :: bool
  fq_rx :: u64
  fq_tx :: u64
  fq_rx_drop :: u64

record fairqueue_t =
  fq_queues :: "fairqueue_queue list"
  num_queues :: u16

abbreviation QUEUE_SIZE :: nat where "QUEUE_SIZE \<equiv> NF_QUEUE_RINGSIZE"

text \<open>\<^verbatim>\<open>setup_fairqueue\<close> does not clear the array of a ring: \<open>mem\<close> is what the memory held. An allocation that fails ends the process (\<open>None\<close>).\<close>

definition setup_queue :: "nat option list \<Rightarrow> fairqueue_queue" where
  "setup_queue mem = \<lparr>fq_head = 0, fq_tail = 0, fq_pkts = mem, fq_lock = False, fq_rx = 0, fq_tx = 0, fq_rx_drop = 0\<rparr>"

definition setup_fairqueue :: "bool \<Rightarrow> (nat \<Rightarrow> nat option list option) \<Rightarrow> u16 \<Rightarrow> fairqueue_t option" where
  "setup_fairqueue malloc_ok mems n =
     (if \<not> malloc_ok then None
      else if \<forall>i < unat n. mems i \<noteq> None
           then Some \<lparr>fq_queues = map (\<lambda>i. setup_queue (the (mems i))) [0..<unat n], num_queues = n\<rparr> else None)"

section \<open>Operations\<close>

text \<open>The queue of a connection: \<open>crc\<close> is \<^verbatim>\<open>rte_hash_crc_4byte\<close>. The inner \<open>None\<close> is the result \<open>-1\<close> for a packet that is not IPv4.\<close>

definition get_enqueue_qid :: "(u32 \<Rightarrow> u32 \<Rightarrow> u32) \<Rightarrow> fairqueue_t \<Rightarrow> mbuf \<Rightarrow> nat option option" where
  "get_enqueue_qid crc fq pkt = do {
     r \<leftarrow> onvm_ft_fill_key pkt;
     case r of
       Inl e \<Rightarrow> Some None
     | Inr key \<Rightarrow>
         let v0 = ucast (num_queues fq);
             v1 = crc (ucast (proto key)) v0;
             v2 = crc (src_addr key) v1;
             v3 = crc (dst_addr key) v2;
             v4 = crc (ucast (src_port key)) v3;
             v5 = crc (ucast (dst_port key)) v4
         in if num_queues fq = 0 then None else Some (Some (unat (v5 mod ucast (num_queues fq)))) }"

definition put_pkt :: "nat \<Rightarrow> fairqueue_queue \<Rightarrow> fq_fail + (int \<times> fairqueue_queue)" where
  "put_pkt p q =
     (if fq_lock q then Inl Fq_Deadlock
      else if unat (fq_head q) \<ge> length (fq_pkts q) then Inl Fq_Undefined
      else if fq_head q = fq_tail q \<and> fq_pkts q ! unat (fq_head q) \<noteq> None
           then Inr (- 1, q\<lparr>fq_lock := True, fq_rx_drop := fq_rx_drop q + 1\<rparr>)
      else if unat (fq_tail q) \<ge> length (fq_pkts q) then Inl Fq_Undefined
      else Inr (0, q\<lparr>fq_pkts := (fq_pkts q)[unat (fq_tail q) := Some p], fq_tail := (fq_tail q + 1) mod of_nat QUEUE_SIZE, fq_rx := fq_rx q + 1\<rparr>))"

definition fairqueue_enqueue :: "(u32 \<Rightarrow> u32 \<Rightarrow> u32) \<Rightarrow> nat \<Rightarrow> mbuf \<Rightarrow> fairqueue_t \<Rightarrow> fq_fail + (int \<times> fairqueue_t)" where
  "fairqueue_enqueue crc p m fq =
     (case get_enqueue_qid crc fq m of
        None \<Rightarrow> Inl Fq_Undefined
      | Some None \<Rightarrow> Inr (- 1, fq)
      | Some (Some i) \<Rightarrow>
          if i \<ge> length (fq_queues fq) then Inl Fq_Undefined
          else case put_pkt p (fq_queues fq ! i) of
            Inl e \<Rightarrow> Inl e
          | Inr (r, q) \<Rightarrow> Inr (r, fq\<lparr>fq_queues := (fq_queues fq)[i := q]\<rparr>))"

text \<open>The search for a queue that is not empty, from \<open>qid\<close> on and back to \<open>start\<close>; it also gives the queue to begin with next time.\<close>

partial_function (option) scan_queues :: "fairqueue_t \<Rightarrow> u16 \<Rightarrow> u16 \<Rightarrow> (u16 option \<times> u16) option" where
  "scan_queues fq start qid =
     (if unat qid \<ge> length (fq_queues fq) then None
      else let q = fq_queues fq ! unat qid; next = of_nat ((unat qid + 1) mod unat (num_queues fq)) in
        if unat (fq_head q) \<ge> length (fq_pkts q) then None
        else if fq_pkts q ! unat (fq_head q) \<noteq> None then Some (Some qid, next)
        else if next = start then Some (None, next)
        else scan_queues fq start next)"

definition get_dequeue_qid :: "fairqueue_t \<Rightarrow> u16 \<Rightarrow> (u16 option \<times> u16) option" where
  "get_dequeue_qid fq qid = scan_queues fq qid qid"

definition take_pkt :: "fairqueue_queue \<Rightarrow> fq_fail + (nat option \<times> fairqueue_queue)" where
  "take_pkt q =
     (if fq_lock q then Inl Fq_Deadlock
      else if unat (fq_head q) \<ge> length (fq_pkts q) then Inl Fq_Undefined
      else Inr (fq_pkts q ! unat (fq_head q),
             q\<lparr>fq_pkts := (fq_pkts q)[unat (fq_head q) := None], fq_head := (fq_head q + 1) mod of_nat QUEUE_SIZE, fq_tx := fq_tx q + 1\<rparr>))"

text \<open>The packet, the queues and the queue to begin with; no packet is the result \<open>-1\<close>.\<close>

definition fairqueue_dequeue :: "fairqueue_t \<times> u16 \<Rightarrow> fq_fail + (nat option \<times> fairqueue_t \<times> u16)" where
  "fairqueue_dequeue = (\<lambda>(fq, qid).
     case get_dequeue_qid fq qid of
       None \<Rightarrow> Inl Fq_Undefined
     | Some (None, qid1) \<Rightarrow> Inr (None, fq, qid1)
     | Some (Some i, qid1) \<Rightarrow>
         (case take_pkt (fq_queues fq ! unat i) of
            Inl e \<Rightarrow> Inl e
          | Inr (p, q) \<Rightarrow> Inr (p, fq\<lparr>fq_queues := (fq_queues fq)[unat i := q]\<rparr>, qid1)))"

section \<open>A ring as a bounded queue\<close>

text \<open>The packets from the head on, in order; the other places are empty.\<close>

definition ring_holds :: "fairqueue_queue \<Rightarrow> nat list \<Rightarrow> bool" where
  "ring_holds q xs \<longleftrightarrow> \<not> fq_lock q \<and> length (fq_pkts q) = QUEUE_SIZE \<and> unat (fq_head q) < QUEUE_SIZE \<and> length xs \<le> QUEUE_SIZE
     \<and> unat (fq_tail q) = (unat (fq_head q) + length xs) mod QUEUE_SIZE
     \<and> (\<forall>i < QUEUE_SIZE. fq_pkts q ! ((unat (fq_head q) + i) mod QUEUE_SIZE) = (if i < length xs then Some (xs ! i) else None))"

text \<open>Several packets in a row.\<close>

primrec put_all :: "('p \<Rightarrow> 'q \<Rightarrow> 'e + (int \<times> 'q)) \<Rightarrow> 'p list \<Rightarrow> 'q \<Rightarrow> 'e + 'q" where
  "put_all put [] q = Inr q"
| "put_all put (p # ps) q = (case put p q of Inl e \<Rightarrow> Inl e | Inr (r, q1) \<Rightarrow> put_all put ps q1)"

text \<open>The contract of a bounded queue with two failures: a queue that refuses a packet is of no use afterwards.\<close>

locale ring_queue =
  fixes put :: "'p \<Rightarrow> 'q \<Rightarrow> 'e + (int \<times> 'q)" and take :: "'q \<Rightarrow> 'e + ('p option \<times> 'q)"
    and holds :: "'q \<Rightarrow> 'p list \<Rightarrow> bool" and room :: nat and dead :: 'e
  assumes put_room: "holds q xs \<Longrightarrow> length xs < room \<Longrightarrow> \<exists>q'. put p q = Inr (0, q') \<and> holds q' (xs @ [p])"
    and put_full: "holds q xs \<Longrightarrow> length xs = room \<Longrightarrow> \<exists>q'. put p q = Inr (- 1, q') \<and> (\<forall>p'. put p' q' = Inl dead) \<and> take q' = Inl dead"
    and take_first: "holds q (x # xs) \<Longrightarrow> \<exists>q'. take q = Inr (Some x, q') \<and> holds q' xs"
    and holds_bound: "holds q xs \<Longrightarrow> length xs \<le> room"
begin

text \<open>One packet too many, and the next access waits for ever.\<close>

lemma put_all_spec: "holds q xs \<Longrightarrow> length (xs @ ps) \<le> room \<Longrightarrow> \<exists>q'. put_all put ps q = Inr q' \<and> holds q' (xs @ ps)"
proof (induction ps arbitrary: q xs)
  case (Cons p ps)
  then obtain q1 where q1: "put p q = Inr (0, q1)" "holds q1 (xs @ [p])" using put_room [OF Cons.prems(1), of p] by auto
  then show ?case using Cons.IH [OF q1(2)] Cons.prems(2) by simp
qed simp

lemma overfull_dead:
  assumes "holds q xs" "length xs + length ps = room"
  shows "\<exists>q'. put_all put (ps @ [p]) q = Inr q' \<and> put p' q' = Inl dead \<and> take q' = Inl dead"
proof -
  obtain q1 where q1: "put_all put ps q = Inr q1" "holds q1 (xs @ ps)" using put_all_spec [OF assms(1), of ps] assms(2) by auto
  obtain q2 where "put p q1 = Inr (- 1, q2)" "put p' q2 = Inl dead" "take q2 = Inl dead" using put_full [OF q1(2), of p] assms(2) by auto
  moreover have "put_all put (as @ bs) q0 = (case put_all put as q0 of Inl e \<Rightarrow> Inl e | Inr q \<Rightarrow> put_all put bs q)" for as bs q0
    by (induction as arbitrary: q0) (auto split: sum.splits)
  ultimately show ?thesis using q1 by simp
qed

end

lemma mod_shift_inj: "i < N \<Longrightarrow> j < N \<Longrightarrow> (h + i) mod N = (h + j) mod N \<longleftrightarrow> i = j" for h i j N :: nat
proof
  assume l: "i < N" "j < N" and e: "(h + i) mod N = (h + j) mod N"
  have "(i + (N - h mod N) + h) mod N = i" if "i < N" for i
  proof -
    have "(i + (N - h mod N) + h) mod N = (i + ((N - h mod N) + h mod N)) mod N" by (metis add.assoc mod_add_right_eq)
    also have "\<dots> = i" using that by simp
    finally show ?thesis .
  qed
  then show "i = j" using l e by (metis add.assoc add.commute mod_add_left_eq)
qed simp

lemma unat_step: "unat x < QUEUE_SIZE \<Longrightarrow> unat ((x + 1) mod of_nat QUEUE_SIZE :: u32) = (unat x + 1) mod QUEUE_SIZE"
  by (simp add: NF_QUEUE_RINGSIZE_def unat_mod_distrib unat_word_ariths)

lemma ring_places:
  assumes "ring_holds q xs"
  shows "fq_pkts q ! unat (fq_head q) = (if xs = [] then None else Some (hd xs))"
    "fq_head q = fq_tail q \<longleftrightarrow> xs = [] \<or> length xs = QUEUE_SIZE" "unat (fq_tail q) < QUEUE_SIZE"
proof -
  let ?h = "unat (fq_head q)"
  have r: "?h < QUEUE_SIZE" "length xs \<le> QUEUE_SIZE" "unat (fq_tail q) = (?h + length xs) mod QUEUE_SIZE"
    "\<forall>i < QUEUE_SIZE. fq_pkts q ! ((?h + i) mod QUEUE_SIZE) = (if i < length xs then Some (xs ! i) else None)" and N: "0 < QUEUE_SIZE"
    using assms by (simp_all add: ring_holds_def onvm_limits)
  show "fq_pkts q ! ?h = (if xs = [] then None else Some (hd xs))" using r(4) [rule_format, OF N] r(1) by (simp add: hd_conv_nth)
  show "unat (fq_tail q) < QUEUE_SIZE" using r(3) N by simp
  have "fq_head q = fq_tail q \<longleftrightarrow> (?h + 0) mod QUEUE_SIZE = (?h + length xs) mod QUEUE_SIZE" using r(1,3) by (simp add: word_unat_eq_iff)
  also have "\<dots> \<longleftrightarrow> xs = [] \<or> length xs = QUEUE_SIZE"
    using mod_shift_inj [OF N, of "length xs" ?h] r(1,2) by (cases "length xs = QUEUE_SIZE") auto
  finally show "fq_head q = fq_tail q \<longleftrightarrow> xs = [] \<or> length xs = QUEUE_SIZE" .
qed

lemma ring_put_room:
  assumes "ring_holds q xs" "length xs < QUEUE_SIZE"
  shows "\<exists>q'. put_pkt p q = Inr (0, q') \<and> ring_holds q' (xs @ [p])"
proof -
  let ?h = "unat (fq_head q)"
  have r: "\<not> fq_lock q" "length (fq_pkts q) = QUEUE_SIZE" "?h < QUEUE_SIZE" "unat (fq_tail q) = (?h + length xs) mod QUEUE_SIZE"
    "\<And>i. i < QUEUE_SIZE \<Longrightarrow> fq_pkts q ! ((?h + i) mod QUEUE_SIZE) = (if i < length xs then Some (xs ! i) else None)"
    using assms(1) by (simp_all add: ring_holds_def)
  note pl = ring_places [OF assms(1)]
  let ?q = "q\<lparr>fq_pkts := (fq_pkts q)[unat (fq_tail q) := Some p], fq_tail := (fq_tail q + 1) mod of_nat QUEUE_SIZE, fq_rx := fq_rx q + 1\<rparr>"
  have "put_pkt p q = Inr (0, ?q)" using r(1-3) pl assms(2) by (auto simp: put_pkt_def)
  moreover have "unat (fq_tail ?q) = (?h + length (xs @ [p])) mod QUEUE_SIZE"
    using unat_step [OF pl(3)] r(4) by (simp add: mod_Suc_eq)
  moreover have "fq_pkts ?q ! ((?h + i) mod QUEUE_SIZE) = (if i < length (xs @ [p]) then Some ((xs @ [p]) ! i) else None)" if i: "i < QUEUE_SIZE" for i
    using r(2,4) r(5) [OF i] mod_shift_inj [OF i assms(2), of ?h] pl(3) by (auto simp: nth_list_update nth_append)
  ultimately show ?thesis using r(1-3) assms(2) by (auto simp: ring_holds_def)
qed

lemma ring_take_first:
  assumes "ring_holds q (x # xs)"
  shows "\<exists>q'. take_pkt q = Inr (Some x, q') \<and> ring_holds q' xs"
proof -
  let ?h = "unat (fq_head q)"
  have r: "\<not> fq_lock q" "length (fq_pkts q) = QUEUE_SIZE" "?h < QUEUE_SIZE" "length xs < QUEUE_SIZE" "unat (fq_tail q) = (?h + Suc (length xs)) mod QUEUE_SIZE"
    "\<And>i. i < QUEUE_SIZE \<Longrightarrow> fq_pkts q ! ((?h + i) mod QUEUE_SIZE) = (if i < Suc (length xs) then Some ((x # xs) ! i) else None)" and N: "0 < QUEUE_SIZE"
    using assms by (simp_all add: ring_holds_def onvm_limits)
  note pl = ring_places [OF assms]
  let ?q = "q\<lparr>fq_pkts := (fq_pkts q)[?h := None], fq_head := (fq_head q + 1) mod of_nat QUEUE_SIZE, fq_tx := fq_tx q + 1\<rparr>"
  have t: "take_pkt q = Inr (Some x, ?q)" using r(1-3) pl(1) by (simp add: take_pkt_def)
  have h: "unat (fq_head ?q) = (?h + 1) mod QUEUE_SIZE" using unat_step [OF r(3)] by simp
  have "fq_pkts ?q ! ((unat (fq_head ?q) + i) mod QUEUE_SIZE) = (if i < length xs then Some (xs ! i) else None)" if i: "i < QUEUE_SIZE" for i
  proof -
    have e: "(unat (fq_head ?q) + i) mod QUEUE_SIZE = (?h + Suc i) mod QUEUE_SIZE" unfolding h by (simp add: mod_add_left_eq)
    show ?thesis
    proof (cases "Suc i = QUEUE_SIZE")
      case True
      then have "(?h + Suc i) mod QUEUE_SIZE = ?h" using r(3) by simp
      then show ?thesis unfolding e using True r(2-4) by simp
    next
      case False
      then have s: "Suc i < QUEUE_SIZE" using i by simp
      have "(?h + Suc i) mod QUEUE_SIZE \<noteq> ?h" using mod_shift_inj [OF s N, of ?h] r(3) by simp
      then show ?thesis unfolding e using r(6) [OF s] by simp
    qed
  qed
  moreover have "unat (fq_tail ?q) = (unat (fq_head ?q) + length xs) mod QUEUE_SIZE" unfolding h using r(5) by (simp add: mod_add_left_eq)
  ultimately have "ring_holds ?q xs" using r(1,2,4) N h by (simp add: ring_holds_def)
  then show ?thesis using t by blast
qed

interpretation fq_ring: ring_queue put_pkt take_pkt ring_holds QUEUE_SIZE Fq_Deadlock
proof (unfold_locales, goal_cases)
  case (2 q xs p)
  then have "xs \<noteq> []" by (auto simp: NF_QUEUE_RINGSIZE_def)
  then have "put_pkt p q = Inr (- 1, q\<lparr>fq_lock := True, fq_rx_drop := fq_rx_drop q + 1\<rparr>)"
    using 2 ring_places(1,2) [OF 2(1)] by (auto simp: put_pkt_def ring_holds_def)
  then show ?case by (auto simp: put_pkt_def take_pkt_def)
qed (use ring_put_room ring_take_first in \<open>auto simp: ring_holds_def\<close>)

section \<open>Taking the queues in turn\<close>

text \<open>The whole: each ring holds its list, and the queue to begin with exists.\<close>

definition fq_holds :: "fairqueue_t \<times> u16 \<Rightarrow> nat list list \<Rightarrow> bool" where
  "fq_holds st xss \<longleftrightarrow> 0 < length xss \<and> length xss = unat (num_queues (fst st)) \<and> length (fq_queues (fst st)) = length xss
     \<and> (\<forall>i < length xss. ring_holds (fq_queues (fst st) ! i) (xss ! i)) \<and> unat (snd st) < length xss"

text \<open>The abstract choice: the first queue from \<open>s\<close> on, in a circle, that is not empty.\<close>

definition turn :: "nat \<Rightarrow> nat \<Rightarrow> nat list" where
  "turn n s = map (\<lambda>i. (s + i) mod n) [0..<n]"

definition next_queue :: "nat list list \<Rightarrow> nat \<Rightarrow> nat option" where
  "next_queue xss s = find (\<lambda>j. xss ! j \<noteq> []) (turn (length xss) s)"

lemma scan_queues_spec:
  assumes "fq_holds (fq, start) xss" "i < length xss" "unat qid = (unat start + i) mod length xss"
  shows "scan_queues fq start qid = Some (case find (\<lambda>j. xss ! j \<noteq> []) (map (\<lambda>i. (unat start + i) mod length xss) [i..<length xss]) of
     None \<Rightarrow> (None, start) | Some j \<Rightarrow> (Some (of_nat j), of_nat ((j + 1) mod length xss)))"
  using assms(2,3)
proof (induction "length xss - i" arbitrary: i qid rule: less_induct)
  case less
  let ?n = "length xss" and ?s = "unat start"
  have h: "?n = unat (num_queues fq)" "length (fq_queues fq) = ?n" "?s < ?n" "ring_holds (fq_queues fq ! unat qid) (xss ! unat qid)" "unat qid < ?n"
    using assms(1) less.prems by (simp_all add: fq_holds_def)
  let ?q = "fq_queues fq ! unat qid" let ?next = "of_nat ((unat qid + 1) mod unat (num_queues fq)) :: u16"
  have in_q: "unat (fq_head ?q) < length (fq_pkts ?q)" using h(4) by (simp add: ring_holds_def)
  note pl = ring_places(1) [OF h(4)]
  have un: "unat ?next = (?s + Suc i) mod ?n"
  proof -
    have "(unat qid + 1) mod ?n < 2 ^ 16" using h(1,5) unat_less_2p [of "num_queues fq"] by (intro less_trans [OF mod_less_divisor]) simp_all
    then have "unat ?next = (unat qid + 1) mod ?n" unfolding h(1) by (intro unat_of_nat_exact) simp
    then show ?thesis using less.prems(2) by (simp add: mod_Suc_eq)
  qed
  have l: "[i..<?n] = i # [Suc i..<?n]" using less.prems(1) by (simp add: upt_conv_Cons)
  show ?case
  proof (cases "xss ! unat qid = []")
    case False
    then have "scan_queues fq start qid = Some (Some qid, ?next)" using h in_q pl by (subst scan_queues.simps) (simp add: Let_def)
    moreover have "of_nat ((?s + i) mod ?n) = qid" "?next = of_nat (((?s + i) mod ?n + 1) mod ?n)" unfolding h(1) [symmetric] less.prems(2) [symmetric] by simp_all
    ultimately show ?thesis unfolding l using False less.prems(2) by simp
  next
    case empty: True
    have sc: "scan_queues fq start qid = (if ?next = start then Some (None, ?next) else scan_queues fq start ?next)"
      using h in_q pl empty by (subst scan_queues.simps) (simp add: Let_def)
    have "?next = start \<longleftrightarrow> (?s + Suc i) mod ?n = ?s" using un by (simp add: word_unat_eq_iff)
    also have "\<dots> \<longleftrightarrow> Suc i = ?n"
    proof (cases "Suc i = ?n")
      case False
      then have "Suc i < ?n" "0 < ?n" using less.prems(1) by linarith+
      then show ?thesis using mod_shift_inj [of "Suc i" ?n 0 ?s] h(3) False by simp
    qed (use h(3) in simp)
    finally have last: "?next = start \<longleftrightarrow> Suc i = ?n" .
    show ?thesis
    proof (cases "Suc i = ?n")
      case True
      then show ?thesis using sc last empty less.prems(2) by (simp add: l)
    next
      case False
      then have "Suc i < ?n" using less.prems(1) by simp
      then show ?thesis using sc last False less.hyps [OF _ _ un] less.prems empty by (simp add: l)
    qed
  qed
qed

lemma get_dequeue_qid_spec:
  assumes "fq_holds (fq, qid) xss"
  shows "get_dequeue_qid fq qid = Some (case next_queue xss (unat qid) of None \<Rightarrow> (None, qid) | Some j \<Rightarrow> (Some (of_nat j), of_nat ((j + 1) mod length xss)))"
  unfolding get_dequeue_qid_def next_queue_def turn_def using assms by (intro scan_queues_spec) (simp_all add: fq_holds_def)

lemma next_queue_Some:
  assumes "next_queue xss s = Some j"
  shows "j < length xss" "xss ! j \<noteq> []" "\<exists>d < length xss. j = (s + d) mod length xss \<and> (\<forall>e < d. xss ! ((s + e) mod length xss) = [])"
proof -
  obtain d where d: "d < length (turn (length xss) s)" "xss ! (turn (length xss) s ! d) \<noteq> []" "j = turn (length xss) s ! d"
      "\<forall>e < d. \<not> xss ! (turn (length xss) s ! e) \<noteq> []"
    using assms by (auto simp: next_queue_def find_Some_iff)
  have t: "turn (length xss) s ! e = (s + e) mod length xss" if "e < length xss" for e using that by (simp add: turn_def)
  have dl: "d < length xss" using d(1) by (simp add: turn_def)
  show "j < length xss" "xss ! j \<noteq> []" using d(2,3) t [OF dl] dl by (auto intro: mod_less_divisor)
  show "\<exists>d < length xss. j = (s + d) mod length xss \<and> (\<forall>e < d. xss ! ((s + e) mod length xss) = [])"
    using d(3,4) t dl by (intro exI [of _ d]) auto
qed

text \<open>A dequeue takes the first packet of the queue whose turn it is.\<close>

lemma dequeue_spec:
  assumes "fq_holds (fq, qid) xss"
  shows "case next_queue xss (unat qid) of
      None \<Rightarrow> fairqueue_dequeue (fq, qid) = Inr (None, fq, qid)
    | Some j \<Rightarrow> \<exists>fq'. fairqueue_dequeue (fq, qid) = Inr (Some (hd (xss ! j)), fq', of_nat ((j + 1) mod length xss))
        \<and> fq_holds (fq', of_nat ((j + 1) mod length xss)) (xss[j := tl (xss ! j)])"
proof (cases "next_queue xss (unat qid)")
  case None
  then show ?thesis using get_dequeue_qid_spec [OF assms] by (simp add: fairqueue_dequeue_def)
next
  case (Some j)
  note j = next_queue_Some(1,2) [OF Some]
  have n: "length xss = unat (num_queues fq)" "length (fq_queues fq) = length xss" "ring_holds (fq_queues fq ! j) (xss ! j)"
    using assms j(1) by (simp_all add: fq_holds_def)
  have lim: "length xss < 2 ^ 16" using n(1) unat_less_2p [of "num_queues fq"] by simp
  then have uj: "unat (of_nat j :: u16) = j" using j(1) by (intro unat_of_nat_exact) simp
  have "0 < length xss" using j(1) by linarith
  then have "(j + 1) mod length xss < 2 ^ 16" using lim by (intro less_trans [OF mod_less_divisor])
  then have un: "unat (of_nat ((j + 1) mod length xss) :: u16) = (j + 1) mod length xss" by (intro unat_of_nat_exact) simp
  obtain q where q: "take_pkt (fq_queues fq ! j) = Inr (Some (hd (xss ! j)), q)" "ring_holds q (tl (xss ! j))"
    using fq_ring.take_first [of "fq_queues fq ! j" "hd (xss ! j)" "tl (xss ! j)"] n(3) j(2) by auto
  let ?fq = "fq\<lparr>fq_queues := (fq_queues fq)[j := q]\<rparr>"
  have "fairqueue_dequeue (fq, qid) = Inr (Some (hd (xss ! j)), ?fq, of_nat ((j + 1) mod length xss))"
    using get_dequeue_qid_spec [OF assms] Some q(1) uj by (simp add: fairqueue_dequeue_def)
  moreover have "fq_holds (?fq, of_nat ((j + 1) mod length xss)) (xss[j := tl (xss ! j)])"
    using assms q(2) un j(1) unfolding fq_holds_def by (auto simp: nth_list_update intro: mod_less_divisor)
  ultimately show ?thesis using Some by auto
qed

section \<open>Fairness\<close>

datatype fq_event = Fq_Enqueue nat mbuf | Fq_Dequeue

text \<open>The packets taken out, in order.\<close>

definition fq_step :: "(u32 \<Rightarrow> u32 \<Rightarrow> u32) \<Rightarrow> fq_event \<Rightarrow> fairqueue_t \<times> u16 \<Rightarrow> fq_fail + (nat list \<times> fairqueue_t \<times> u16)" where
  "fq_step crc ev st =
     (case ev of
        Fq_Enqueue p m \<Rightarrow> (case fairqueue_enqueue crc p m (fst st) of Inl e \<Rightarrow> Inl e | Inr (r, fq) \<Rightarrow> Inr ([], fq, snd st))
      | Fq_Dequeue \<Rightarrow> (case fairqueue_dequeue st of Inl e \<Rightarrow> Inl e | Inr (p, st1) \<Rightarrow> Inr (case p of None \<Rightarrow> [] | Some x \<Rightarrow> [x], st1)))"

primrec fq_run :: "(u32 \<Rightarrow> u32 \<Rightarrow> u32) \<Rightarrow> fq_event list \<Rightarrow> fairqueue_t \<times> u16 \<Rightarrow> fq_fail + (nat list \<times> fairqueue_t \<times> u16)" where
  "fq_run crc [] st = Inr ([], st)"
| "fq_run crc (ev # evs) st =
     (case fq_step crc ev st of
        Inl e \<Rightarrow> Inl e
      | Inr (out, st1) \<Rightarrow> (case fq_run crc evs st1 of Inl e \<Rightarrow> Inl e | Inr (out2, st2) \<Rightarrow> Inr (out @ out2, st2)))"

text \<open>
  An enqueue is harmless when the headers of the packet can be read and the ring it goes to is not full by
  the code's own test; \<open>no_overflow\<close> says so of every enqueue of a run.
\<close>

definition ring_full :: "fairqueue_queue \<Rightarrow> bool" where
  "ring_full q \<longleftrightarrow> fq_head q = fq_tail q \<and> fq_pkts q ! unat (fq_head q) \<noteq> None"

definition enqueue_room :: "(u32 \<Rightarrow> u32 \<Rightarrow> u32) \<Rightarrow> mbuf \<Rightarrow> fairqueue_t \<Rightarrow> bool" where
  "enqueue_room crc m fq \<longleftrightarrow> (case get_enqueue_qid crc fq m of None \<Rightarrow> False | Some None \<Rightarrow> True | Some (Some i) \<Rightarrow> \<not> ring_full (fq_queues fq ! i))"

primrec no_overflow :: "(u32 \<Rightarrow> u32 \<Rightarrow> u32) \<Rightarrow> fq_event list \<Rightarrow> fairqueue_t \<times> u16 \<Rightarrow> bool" where
  "no_overflow crc [] st \<longleftrightarrow> True"
| "no_overflow crc (ev # evs) st \<longleftrightarrow>
     (case ev of Fq_Enqueue p m \<Rightarrow> enqueue_room crc m (fst st) | Fq_Dequeue \<Rightarrow> True)
     \<and> (case fq_step crc ev st of Inl e \<Rightarrow> True | Inr (out, st1) \<Rightarrow> no_overflow crc evs st1)"

lemma not_full_room: "ring_holds q xs \<Longrightarrow> \<not> ring_full q \<Longrightarrow> length xs < QUEUE_SIZE"
proof (rule ccontr)
  assume q: "ring_holds q xs" "\<not> ring_full q" and "\<not> length xs < QUEUE_SIZE"
  moreover have "length xs \<le> QUEUE_SIZE" using q(1) by (simp add: ring_holds_def)
  ultimately have l: "length xs = QUEUE_SIZE" by simp
  then have "xs \<noteq> []" by (auto simp: NF_QUEUE_RINGSIZE_def)
  then have "ring_full q" using ring_places(1,2) [OF q(1)] l by (simp add: ring_full_def)
  then show False using q(2) by contradiction
qed

lemma enqueue_spec:
  assumes "fq_holds (fq, qid) xss" "enqueue_room crc m fq"
  shows "\<exists>r fq' xss'. fairqueue_enqueue crc p m fq = Inr (r, fq') \<and> fq_holds (fq', qid) xss'
    \<and> (xss' = xss \<or> (\<exists>i < length xss. xss' = xss[i := xss ! i @ [p]]))"
proof -
  have n: "length xss = unat (num_queues fq)" "length (fq_queues fq) = length xss" "0 < length xss" using assms(1) by (simp_all add: fq_holds_def)
  obtain r where r: "onvm_ft_fill_key m = Some r"
    using assms(2) by (cases "onvm_ft_fill_key m") (simp_all add: enqueue_room_def get_enqueue_qid_def)
  show ?thesis
  proof (cases r)
    case (Inl e)
    then have "fairqueue_enqueue crc p m fq = Inr (- 1, fq)" using r by (simp add: fairqueue_enqueue_def get_enqueue_qid_def)
    then show ?thesis using assms(1) by blast
  next
    case (Inr key)
    have "num_queues fq \<noteq> 0" using n by (auto simp: unat_eq_0)
    then obtain v where v: "get_enqueue_qid crc fq m = Some (Some (unat (v mod ucast (num_queues fq) :: u32)))"
      using r Inr by (simp add: get_enqueue_qid_def Let_def)
    let ?i = "unat (v mod ucast (num_queues fq))"
    have i: "?i < length xss" using n by (simp add: unat_mod_distrib unat_ucast_up)
    have hi: "ring_holds (fq_queues fq ! ?i) (xss ! ?i)" using assms(1) i by (simp add: fq_holds_def)
    have "\<not> ring_full (fq_queues fq ! ?i)" using assms(2) v by (simp add: enqueue_room_def)
    then obtain q where q: "put_pkt p (fq_queues fq ! ?i) = Inr (0, q)" "ring_holds q (xss ! ?i @ [p])"
      using fq_ring.put_room [OF hi] not_full_room [OF hi] by blast
    have "fairqueue_enqueue crc p m fq = Inr (0, fq\<lparr>fq_queues := (fq_queues fq)[?i := q]\<rparr>)"
      using v q(1) i n(2) by (simp add: fairqueue_enqueue_def)
    moreover have "fq_holds (fq\<lparr>fq_queues := (fq_queues fq)[?i := q]\<rparr>, qid) (xss[?i := xss ! ?i @ [p]])"
      using assms(1) q(2) i by (auto simp: fq_holds_def nth_list_update)
    ultimately show ?thesis using i by blast
  qed
qed

text \<open>How many turns a queue is away.\<close>

definition wait_of :: "nat \<Rightarrow> nat \<Rightarrow> nat \<Rightarrow> nat" where
  "wait_of n s j = (j + (n - s)) mod n"

lemma wait_of_shift: "s < n \<Longrightarrow> d < n \<Longrightarrow> wait_of n s ((s + d) mod n) = d"
proof -
  assume l: "s < n" "d < n"
  then have "s + d + (n - s) = d + n" by simp
  then show ?thesis unfolding wait_of_def mod_add_left_eq using l by simp
qed

lemma wait_of_less: "j < n \<Longrightarrow> wait_of n s j < n"
  unfolding wait_of_def by (intro mod_less_divisor) linarith

lemma wait_of_target: "s < n \<Longrightarrow> j < n \<Longrightarrow> (s + wait_of n s j) mod n = j"
  by (simp add: wait_of_def mod_add_right_eq)

text \<open>A queue that is not empty is chosen, or comes nearer.\<close>

lemma turn_progress:
  assumes "j < length xss" "xss ! j \<noteq> []" "s < length xss"
  shows "\<exists>c. next_queue xss s = Some c \<and> (c = j \<or> wait_of (length xss) ((c + 1) mod length xss) j < wait_of (length xss) s j)"
proof -
  let ?n = "length xss"
  have "j = (s + wait_of ?n s j) mod ?n" by (rule wait_of_target [OF assms(3,1), symmetric])
  moreover have "wait_of ?n s j \<in> set [0..<?n]" using wait_of_less [OF assms(1)] by simp
  ultimately have "j \<in> set (turn ?n s)" unfolding turn_def set_map by (rule image_eqI)
  then have "\<exists>k \<in> set (turn ?n s). xss ! k \<noteq> []" using assms(2) by blast
  then have "next_queue xss s \<noteq> None" unfolding next_queue_def find_None_iff by blast
  then obtain c where c: "next_queue xss s = Some c" by blast
  obtain d where d: "d < ?n" "c = (s + d) mod ?n" "\<forall>e < d. xss ! ((s + e) mod ?n) = []" using next_queue_Some(3) [OF c] by blast
  let ?w = "wait_of ?n s j"
  have w: "?w < ?n" "(s + ?w) mod ?n = j" using assms wait_of_target wait_of_less by simp_all
  have "d \<le> ?w" using d(3) w(2) assms(2) by (metis not_less)
  show ?thesis
  proof (cases "d = ?w")
    case True
    then show ?thesis using c d(2) w(2) by blast
  next
    case False
    then have l: "Suc d \<le> ?w" using \<open>d \<le> ?w\<close> by simp
    let ?s' = "(c + 1) mod ?n"
    have s': "?s' < ?n" using assms(1) by (intro mod_less_divisor) linarith
    have "?s' = (s + Suc d) mod ?n" unfolding d(2) by (simp add: mod_Suc_eq)
    then have "(?s' + (?w - Suc d)) mod ?n = (s + Suc d + (?w - Suc d)) mod ?n" by (simp add: mod_add_left_eq)
    also have "\<dots> = j" using l w(2) by simp
    finally have "wait_of ?n ?s' j = ?w - Suc d" using wait_of_shift [OF s', of "?w - Suc d"] w(1) by simp
    then show ?thesis using c l by auto
  qed
qed

text \<open>
  The run: while no ring is full, every event returns, and a packet leaves its queue after at most as many dequeues as there are packets before it in its
  queue and queues before it in the turn.
\<close>

definition dequeues :: "fq_event list \<Rightarrow> nat" where
  "dequeues evs = length (filter (\<lambda>ev. ev = Fq_Dequeue) evs)"

lemma event_counts [simp]:
  "dequeues [] = 0" "dequeues (Fq_Dequeue # evs) = Suc (dequeues evs)" "dequeues (Fq_Enqueue p m # evs) = dequeues evs"
  by (simp_all add: dequeues_def)

lemma step_holds:
  assumes "fq_holds st xss" "no_overflow crc (ev # evs) st"
  shows "\<exists>out st1 xss1. fq_step crc ev st = Inr (out, st1) \<and> fq_holds st1 xss1 \<and> no_overflow crc evs st1 \<and> length xss1 = length xss
    \<and> (case ev of
         Fq_Enqueue p m \<Rightarrow> snd st1 = snd st \<and> (\<forall>i < length xss. \<exists>ys. xss1 ! i = xss ! i @ ys)
       | Fq_Dequeue \<Rightarrow> (case next_queue xss (unat (snd st)) of
           None \<Rightarrow> True
         | Some c \<Rightarrow> out = [hd (xss ! c)] \<and> unat (snd st1) = (c + 1) mod length xss \<and> xss1 = xss[c := tl (xss ! c)]))"
proof (cases ev)
  case (Fq_Enqueue p m)
  have h: "fq_holds (fst st, snd st) xss" "enqueue_room crc m (fst st)"
    using assms Fq_Enqueue by simp_all
  obtain r fq' xss' where e: "fairqueue_enqueue crc p m (fst st) = Inr (r, fq')" "fq_holds (fq', snd st) xss'"
      "xss' = xss \<or> (\<exists>i < length xss. xss' = xss[i := xss ! i @ [p]])"
    using enqueue_spec [OF h, of p] by blast
  have len: "length xss' = length xss" using e(3) by auto
  have "\<exists>ys. xss' ! i = xss ! i @ ys" if "i < length xss" for i using e(3) that by (auto simp: nth_list_update)
  then show ?thesis using e(1,2) len Fq_Enqueue assms(2) by (auto simp: fq_step_def)
next
  case Fq_Dequeue
  have h: "fq_holds (fst st, snd st) xss" using assms(1) by simp
  note d = dequeue_spec [OF h]
  show ?thesis
  proof (cases "next_queue xss (unat (snd st))")
    case None
    then show ?thesis using d assms Fq_Dequeue by (auto simp: fq_step_def)
  next
    case (Some c)
    note c = next_queue_Some(1,2) [OF Some]
    obtain fq' where e: "fairqueue_dequeue st = Inr (Some (hd (xss ! c)), fq', of_nat ((c + 1) mod length xss))"
        "fq_holds (fq', of_nat ((c + 1) mod length xss)) (xss[c := tl (xss ! c)])"
      using d Some by auto
    have lim: "length xss < 2 ^ 16" "0 < length xss" using assms(1) unat_less_2p [of "num_queues (fst st)"] by (simp_all add: fq_holds_def)
    have "(c + 1) mod length xss < 2 ^ 16" using lim by (intro less_trans [OF mod_less_divisor])
    then have "unat (of_nat ((c + 1) mod length xss) :: u16) = (c + 1) mod length xss" by (intro unat_of_nat_exact) simp
    then show ?thesis using e Some Fq_Dequeue assms(2) by (auto simp: fq_step_def)
  qed
qed

lemma run_total: "fq_holds st xss \<Longrightarrow> no_overflow crc evs st \<Longrightarrow> \<exists>out st'. fq_run crc evs st = Inr (out, st')"
proof (induction evs arbitrary: st xss)
  case (Cons ev evs)
  obtain out st1 xss1 where "fq_step crc ev st = Inr (out, st1)" "fq_holds st1 xss1" "no_overflow crc evs st1" using step_holds [OF Cons.prems] by blast
  then show ?case using Cons.IH by fastforce
qed simp

lemma run_serves:
  assumes "fq_holds st xss" "no_overflow crc evs st" "j < length xss" "xss ! j = pre @ x # post"
    and "length pre * length xss + wait_of (length xss) (unat (snd st)) j < dequeues evs"
  shows "\<exists>out st'. fq_run crc evs st = Inr (out, st') \<and> x \<in> set out"
  using assms
proof (induction evs arbitrary: st xss pre post)
  case (Cons ev evs)
  obtain out st1 xss1 where s: "fq_step crc ev st = Inr (out, st1)" "fq_holds st1 xss1" "no_overflow crc evs st1" "length xss1 = length xss"
    and c: "case ev of
         Fq_Enqueue p m \<Rightarrow> snd st1 = snd st \<and> (\<forall>i < length xss. \<exists>ys. xss1 ! i = xss ! i @ ys)
       | Fq_Dequeue \<Rightarrow> (case next_queue xss (unat (snd st)) of
           None \<Rightarrow> True
         | Some c \<Rightarrow> out = [hd (xss ! c)] \<and> unat (snd st1) = (c + 1) mod length xss \<and> xss1 = xss[c := tl (xss ! c)])"
    using step_holds [OF Cons.prems(1,2)] by blast
  have later: ?case if "xss1 ! j = pre' @ x # post'" "length pre' * length xss + wait_of (length xss) (unat (snd st1)) j < dequeues evs" for pre' post'
    using Cons.IH [OF s(2,3), of pre' post'] that s(1,4) Cons.prems(3) by fastforce
  show ?case
  proof (cases ev)
    case (Fq_Enqueue p m)
    then obtain ys where "xss1 ! j = pre @ x # post @ ys" using c Cons.prems(3,4) by fastforce
    then show ?thesis using later Fq_Enqueue c Cons.prems(5) by auto
  next
    case Fq_Dequeue
    let ?n = "length xss"
    have sq: "unat (snd st) < ?n" using Cons.prems(1) by (simp add: fq_holds_def)
    have ne: "xss ! j \<noteq> []" using Cons.prems(4) by simp
    obtain q where q: "next_queue xss (unat (snd st)) = Some q" "q = j \<or> wait_of ?n ((q + 1) mod ?n) j < wait_of ?n (unat (snd st)) j"
      using turn_progress [OF Cons.prems(3) ne sq] by blast
    have d: "out = [hd (xss ! q)]" "unat (snd st1) = (q + 1) mod ?n" "xss1 = xss[q := tl (xss ! q)]" using c q(1) Fq_Dequeue by simp_all
    show ?thesis
    proof (cases "q = j")
      case False
      then have "wait_of ?n ((q + 1) mod ?n) j < wait_of ?n (unat (snd st)) j" using q(2) by simp
      then show ?thesis using later [of pre post] False d Cons.prems(4,5) Fq_Dequeue by simp
    next
      case True
      show ?thesis
      proof (cases pre)
        case Nil
        then have "x \<in> set out" using d(1) True Cons.prems(4) by simp
        then show ?thesis using s(1) run_total [OF s(2,3)] by auto
      next
        case (Cons y pre')
        have "wait_of ?n (unat (snd st1)) j < ?n" by (rule wait_of_less [OF Cons.prems(3)])
        then show ?thesis using later [of pre' post] d(3) True Cons.prems(3,4,5) Fq_Dequeue Cons by simp
      qed
    qed
  qed
qed simp

section \<open>Properties\<close>


text \<open>
  C38. The size of a ring: packets are appended in the order they come until the ring is full; the next one is refused without releasing the
  lock, after which every enqueue to this ring and every dequeue from it waits for ever.
\<close>

theorem full_ring_deadlocks:
  assumes "ring_holds q xs" and "length xs + length ps = QUEUE_SIZE"
  shows "(\<exists>q1. put_all put_pkt ps q = Inr q1 \<and> ring_holds q1 (xs @ ps))
    \<and> (\<exists>q2. put_all put_pkt (ps @ [p]) q = Inr q2 \<and> put_pkt p' q2 = Inl Fq_Deadlock \<and> take_pkt q2 = Inl Fq_Deadlock)"
  using fq_ring.put_all_spec [OF assms(1), of ps] fq_ring.overfull_dead [OF assms] assms(2) by auto

section \<open>A concrete fair queue\<close>

lemma empty_ring_holds: "ring_holds (setup_queue (replicate QUEUE_SIZE None)) []"
  by (simp add: ring_holds_def setup_queue_def NF_QUEUE_RINGSIZE_def)

definition demo_fq :: fairqueue_t where
  "demo_fq = \<lparr>fq_queues = [setup_queue (replicate QUEUE_SIZE None), setup_queue (replicate QUEUE_SIZE None)], num_queues = 2\<rparr>"

theorem full_ring_deadlocks_witness:
  "\<exists>q2. put_all put_pkt (replicate QUEUE_SIZE 5 @ [6]) (setup_queue (replicate QUEUE_SIZE None)) = Inr q2 \<and> take_pkt q2 = Inl Fq_Deadlock"
  using full_ring_deadlocks [OF empty_ring_holds, of "replicate QUEUE_SIZE 5" 6] by auto


end
