(* ===== verification/Firewall.thy ===== *)
theory Firewall
  imports NfClient FlowTable
begin

text \<open>
  The firewall (\<^verbatim>\<open>src/examples/firewall/firewall.c\<close>): an NF that accepts or drops packets by their source address, with rules read from a JSON file and put into
  a longest-prefix table of DPDK that the manager creates on request. The parsed file is the list of its items with the members the code looks up; the table is
  the locale \<open>rte_lpm\<close>. \<open>None\<close> and \<open>Fw_Undefined\<close> stand for the use of a null pointer or an access outside a packet. Log output, the display, and the release
  of memory at the end are not modelled.
\<close>

section \<open>The longest-prefix table\<close>

record 'l lpm_api =
  lpm_add :: "'l \<Rightarrow> u32 \<Rightarrow> u8 \<Rightarrow> u32 \<Rightarrow> int \<times> 'l"
  lpm_lookup :: "'l \<Rightarrow> u32 \<Rightarrow> int \<times> u32"

text \<open>The leading bits of an address, and the entry with the longest prefix of it.\<close>

definition prefix_of :: "u32 \<Rightarrow> nat \<Rightarrow> u32 \<times> nat" where
  "prefix_of ip d = (drop_bit (32 - d) ip, d)"

definition lpm_match :: "(u32 \<times> nat \<Rightarrow> u32 option) \<Rightarrow> u32 \<Rightarrow> u32 option" where
  "lpm_match R ip = Option.bind (find (\<lambda>d. R (prefix_of ip d) \<noteq> None) (rev [1..<33])) (\<lambda>d. R (prefix_of ip d))"

text \<open>What is documented of \<^verbatim>\<open>rte_lpm\<close>: depths from 1 to 32; an entry for the same prefix is replaced; adding may fail for lack of space.\<close>

locale rte_lpm =
  fixes api :: "'l lpm_api" and routes :: "'l \<Rightarrow> u32 \<times> nat \<Rightarrow> u32 option" and linv :: "'l \<Rightarrow> bool"
  assumes add_depth: "linv l \<Longrightarrow> \<not> (1 \<le> unat d \<and> unat d \<le> 32) \<Longrightarrow> lpm_add api l ip d hop = (- EINVAL, l)"
    and add_entry: "linv l \<Longrightarrow> 1 \<le> unat d \<Longrightarrow> unat d \<le> 32 \<Longrightarrow> lpm_add api l ip d hop = (r, l') \<Longrightarrow> linv l'
          \<and> (r < 0 \<and> routes l' = routes l \<or> r = 0 \<and> routes l' = (routes l)(prefix_of ip (unat d) \<mapsto> hop))"
    and lookup_miss: "linv l \<Longrightarrow> lpm_match (routes l) ip = None \<Longrightarrow> fst (lpm_lookup api l ip) = - ENOENT"
    and lookup_hit: "linv l \<Longrightarrow> lpm_match (routes l) ip = Some hop \<Longrightarrow> lpm_lookup api l ip = (0, hop)"

section \<open>State\<close>

record onvm_fw_rule =
  fw_src_ip :: u32
  fw_depth :: u8
  fw_action :: u8

record firewall_pkt_stats =
  pkt_drop :: u64
  pkt_accept :: u64
  pkt_not_ipv4 :: u64
  pkt_total :: u64

record fw_args =
  fa_destination :: u16
  fa_print_delay :: u32
  fa_rule_file :: "string option"
  fa_debug :: bool
  fa_dst_flag :: bool

text \<open>An item of the rules file: the members \<^verbatim>\<open>ip\<close> (whose value may not be a string), \<^verbatim>\<open>depth\<close> and \<^verbatim>\<open>action\<close>.\<close>

record json_rule =
  jr_ip :: "string option option"
  jr_depth :: "int option"
  jr_action :: "int option"

datatype fw_stop = Fw_Exit | Fw_Undefined | Fw_Request nl_fail

text \<open>Answers of the system: the parsed file, the array of rules, what a new rule structure holds, the request structure and the table found under its name.\<close>

record 'l fw_env =
  fe_parse_file :: "string option \<Rightarrow> json_rule list option"
  fe_rules_alloc :: bool
  fe_rule_mem :: "nat \<Rightarrow> u32 option"
  fe_request :: "nat option"
  fe_find :: "'l option"

section \<open>Arguments and rules\<close>

definition fw_apply_opt :: "opt_result \<Rightarrow> fw_args \<Rightarrow> fw_args option" where
  "fw_apply_opt opt a =
     (case opt of
        (c, Some s) \<Rightarrow>
          if c = CHR ''d'' then Some (a\<lparr>fa_destination := ucast (fst (strtoul_c 10 s)), fa_dst_flag := True\<rparr>)
          else if c = CHR ''p'' then Some (a\<lparr>fa_print_delay := ucast (fst (strtoul_c 10 s))\<rparr>)
          else if c = CHR ''f'' then Some (a\<lparr>fa_rule_file := Some s\<rparr>)
          else None
      | (c, None) \<Rightarrow> if c = CHR ''b'' then Some (a\<lparr>fa_debug := True\<rparr>) else None)"

primrec fw_apply_opts :: "opt_result list \<Rightarrow> fw_args \<Rightarrow> fw_args option" where
  "fw_apply_opts [] a = Some a"
| "fw_apply_opts (opt # opts) a = Option.bind (fw_apply_opt opt a) (fw_apply_opts opts)"

text \<open>\<open>None\<close> is the result \<open>-1\<close>; the flag for the rules file is set with the file.\<close>

definition fw_parse_app_args :: "opt_result list \<Rightarrow> fw_args option" where
  "fw_parse_app_args opts =
     Option.bind (fw_apply_opts opts \<lparr>fa_destination = 0, fa_print_delay = 10000000, fa_rule_file = None, fa_debug = False, fa_dst_flag = False\<rparr>)
       (\<lambda>a. if \<not> fa_dst_flag a then None else if fa_rule_file a = None then None else Some a)"

text \<open>One item: a member that is missing ends the program; the result of parsing the address is not looked at.\<close>

definition setup_rule :: "'l fw_env \<Rightarrow> nat \<Rightarrow> json_rule \<Rightarrow> fw_stop + onvm_fw_rule" where
  "setup_rule env i item =
     (case (jr_ip item, jr_depth item, jr_action item) of
        (Some ip, Some depth, Some act) \<Rightarrow>
          (case fe_rule_mem env i of
             None \<Rightarrow> Inl Fw_Undefined
           | Some junk \<Rightarrow>
               if \<not> fe_rules_alloc env then Inl Fw_Undefined
               else Inr \<lparr>fw_src_ip = (case snd (onvm_pkt_parse_ip ip) of None \<Rightarrow> junk | Some x \<Rightarrow> x),
                         fw_depth = of_int depth, fw_action = of_int act\<rparr>)
      | _ \<Rightarrow> Inl Fw_Exit)"

primrec setup_items :: "'l fw_env \<Rightarrow> nat \<Rightarrow> json_rule list \<Rightarrow> fw_stop + onvm_fw_rule list" where
  "setup_items env i [] = Inr []"
| "setup_items env i (item # items) =
     (case setup_rule env i item of
        Inl e \<Rightarrow> Inl e
      | Inr r \<Rightarrow> (case setup_items env (Suc i) items of Inl e \<Rightarrow> Inl e | Inr rs \<Rightarrow> Inr (r # rs)))"

definition setup_rules :: "'l fw_env \<Rightarrow> string option \<Rightarrow> fw_stop + onvm_fw_rule list" where
  "setup_rules env file = (case fe_parse_file env file of None \<Rightarrow> Inl Fw_Exit | Some items \<Rightarrow> setup_items env 0 items)"

section \<open>Setting up the table\<close>

text \<open>\<^verbatim>\<open>rte_lpm_add\<close> refuses a null table.\<close>

definition tbl_add :: "'l lpm_api \<Rightarrow> onvm_fw_rule \<Rightarrow> 'l option \<Rightarrow> int \<times> 'l option" where
  "tbl_add api r tbl =
     (case tbl of
        None \<Rightarrow> (- EINVAL, None)
      | Some l \<Rightarrow> (case lpm_add api l (fw_src_ip r) (fw_depth r) (ucast (fw_action r)) of (ret, l') \<Rightarrow> (ret, Some l')))"

primrec add_rules :: "'l lpm_api \<Rightarrow> onvm_fw_rule list \<Rightarrow> 'l option \<Rightarrow> int \<times> 'l option" where
  "add_rules api [] tbl = (0, tbl)"
| "add_rules api (r # rs) tbl = (case tbl_add api r tbl of (ret, tbl') \<Rightarrow> if ret < 0 then (1, tbl') else add_rules api rs tbl')"

text \<open>The table is null when the request could not be allocated.\<close>

definition lpm_setup ::
  "'l lpm_api \<Rightarrow> 'l fw_env \<Rightarrow> ('q, 'mq) mgr_env \<Rightarrow> ('q, 'mq) turn \<Rightarrow> ('q, 'mq) turn list \<Rightarrow> onvm_fw_rule list \<Rightarrow> ('q, 'mq) shared
    \<Rightarrow> fw_stop + (int \<times> 'l option \<times> ('q, 'mq) shared)" where
  "lpm_setup api env menv early ts rules w =
     (case fe_request env of
        None \<Rightarrow> Inr (0, None, w)
      | Some r \<Rightarrow>
          (case onvm_nflib_request_lpm menv r early ts w of
             Inl e \<Rightarrow> Inl (Fw_Request e)
           | Inr (status, w') \<Rightarrow>
               if status < 0 then Inl Fw_Exit
               else (case add_rules api rules (fe_find env) of (ret, tbl) \<Rightarrow> Inr (ret, tbl, w'))))"

text \<open>\<^verbatim>\<open>main\<close> up to the main loop: the result of \<^verbatim>\<open>lpm_setup\<close> is not looked at.\<close>

definition fw_start ::
  "'l lpm_api \<Rightarrow> 'l fw_env \<Rightarrow> ('q, 'mq) mgr_env \<Rightarrow> ('q, 'mq) turn \<Rightarrow> ('q, 'mq) turn list \<Rightarrow> opt_result list \<Rightarrow> ('q, 'mq) shared
    \<Rightarrow> fw_stop + (fw_args \<times> onvm_fw_rule list \<times> 'l option \<times> ('q, 'mq) shared)" where
  "fw_start api env menv early ts opts w =
     (case fw_parse_app_args opts of
        None \<Rightarrow> Inl Fw_Exit
      | Some a \<Rightarrow>
          (case setup_rules env (fa_rule_file a) of
             Inl e \<Rightarrow> Inl e
           | Inr rules \<Rightarrow>
               (case lpm_setup api env menv early ts rules w of
                  Inl e \<Rightarrow> Inl e
                | Inr (ret, tbl, w') \<Rightarrow> Inr (a, rules, tbl, w'))))"

section \<open>The handler\<close>

text \<open>The test for IPv4 and the header that is then used are the same call.\<close>

definition fw_packet_handler ::
  "'l lpm_api \<Rightarrow> 'l option \<Rightarrow> u16 \<Rightarrow> mbuf \<Rightarrow> firewall_pkt_stats \<Rightarrow> (onvm_pkt_meta \<times> firewall_pkt_stats) option" where
  "fw_packet_handler api tbl dest m st = do {
     let st1 = st\<lparr>pkt_total := pkt_total st + 1\<rparr>;
     let dropped = (mb_meta m)\<lparr>action := ONVM_NF_ACTION_DROP\<rparr>;
     hdr \<leftarrow> onvm_pkt_ipv4_hdr m;
     case hdr of
       None \<Rightarrow> Some (dropped, st1\<lparr>pkt_not_ipv4 := pkt_not_ipv4 st1 + 1\<rparr>)
     | Some ip \<Rightarrow> do {
         src_addr \<leftarrow> word_at (mb_bytes m) (ip + 12);
         l \<leftarrow> tbl;
         let (ret, rule) = lpm_lookup api l (bswap32 src_addr);
         if ret < 0 then Some (dropped, st1\<lparr>pkt_drop := pkt_drop st1 + 1\<rparr>)
         else if rule = 0
         then Some ((mb_meta m)\<lparr>action := ONVM_NF_ACTION_TONF, destination := dest\<rparr>, st1\<lparr>pkt_accept := pkt_accept st1 + 1\<rparr>)
         else Some (dropped, st1\<lparr>pkt_drop := pkt_drop st1 + 1\<rparr>) } }"

primrec fw_run :: "'l lpm_api \<Rightarrow> 'l option \<Rightarrow> u16 \<Rightarrow> mbuf list \<Rightarrow> firewall_pkt_stats \<Rightarrow> (onvm_pkt_meta list \<times> firewall_pkt_stats) option" where
  "fw_run api tbl dest [] st = Some ([], st)"
| "fw_run api tbl dest (m # ms) st = do {
     (meta, st1) \<leftarrow> fw_packet_handler api tbl dest m st;
     (metas, st2) \<leftarrow> fw_run api tbl dest ms st1;
     Some (meta # metas, st2) }"

section \<open>What the rules say\<close>

text \<open>The rule that decides about an address: among those that cover it one with the longest prefix, and the last of these.\<close>

definition covers :: "onvm_fw_rule \<Rightarrow> u32 \<Rightarrow> bool" where
  "covers r ip \<longleftrightarrow> drop_bit (32 - unat (fw_depth r)) ip = drop_bit (32 - unat (fw_depth r)) (fw_src_ip r)"

definition decides :: "onvm_fw_rule list \<Rightarrow> onvm_fw_rule \<Rightarrow> u32 \<Rightarrow> bool" where
  "decides rs r ip \<longleftrightarrow> (\<exists>pre post. rs = pre @ r # post \<and> covers r ip
     \<and> (\<forall>q \<in> set pre. covers q ip \<longrightarrow> fw_depth q \<le> fw_depth r) \<and> (\<forall>q \<in> set post. covers q ip \<longrightarrow> fw_depth q < fw_depth r))"

abbreviation valid_depth :: "onvm_fw_rule \<Rightarrow> bool" where
  "valid_depth r \<equiv> 1 \<le> unat (fw_depth r) \<and> unat (fw_depth r) \<le> 32"

text \<open>The entries that a list of rules leaves, added in order.\<close>

definition entries :: "onvm_fw_rule list \<Rightarrow> u32 \<times> nat \<Rightarrow> u32 option" where
  "entries rs = foldl (\<lambda>R r. R(prefix_of (fw_src_ip r) (unat (fw_depth r)) \<mapsto> ucast (fw_action r))) Map.empty rs"

lemma entries_snoc: "entries (rs @ [r]) = (entries rs)(prefix_of (fw_src_ip r) (unat (fw_depth r)) \<mapsto> ucast (fw_action r))"
  by (simp add: entries_def)

lemma covers_prefix: "covers r ip \<longleftrightarrow> prefix_of (fw_src_ip r) (unat (fw_depth r)) = prefix_of ip (unat (fw_depth r))"
  by (auto simp: covers_def prefix_of_def)

lemma entries_prefix:
  "entries rs (prefix_of ip d) = map_option (\<lambda>r. ucast (fw_action r)) (find (\<lambda>r. covers r ip \<and> unat (fw_depth r) = d) (rev rs))"
proof (induction rs rule: rev_induct)
  case (snoc r rs)
  have "prefix_of ip d = prefix_of (fw_src_ip r) (unat (fw_depth r)) \<longleftrightarrow> covers r ip \<and> unat (fw_depth r) = d"
    by (auto simp: covers_prefix prefix_of_def)
  then show ?case using snoc.IH by (simp add: entries_snoc)
qed (simp add: entries_def)

lemma find_rev_split: "find P (rev xs) = Some x \<Longrightarrow> \<exists>pre post. xs = pre @ x # post \<and> P x \<and> (\<forall>y \<in> set post. \<not> P y)"
proof (induction xs rule: rev_induct)
  case (snoc a xs)
  show ?case
  proof (cases "P a")
    case True
    then show ?thesis using snoc.prems by (intro exI [of _ xs] exI [of _ "[]"]) simp
  next
    case False
    then obtain pre post where "xs = pre @ x # post" "P x" "\<forall>y \<in> set post. \<not> P y" using snoc by auto
    then show ?thesis using False by (intro exI [of _ pre] exI [of _ "post @ [a]"]) auto
  qed
qed simp

lemma find_down: "find P (rev [a..<b]) = Some d \<Longrightarrow> a \<le> d \<and> d < b \<and> P d \<and> (\<forall>e. d < e \<and> e < b \<longrightarrow> \<not> P e)"
proof (induction b)
  case (Suc b)
  then show ?case by (cases "a \<le> b"; cases "P b") (auto simp: less_Suc_eq)
qed simp

text \<open>The table finds the rule that decides.\<close>

lemma lpm_match_decides:
  assumes "\<forall>r \<in> set rs. valid_depth r"
  shows "case lpm_match (entries rs) ip of None \<Rightarrow> \<forall>r \<in> set rs. \<not> covers r ip | Some hop \<Rightarrow> \<exists>r. decides rs r ip \<and> hop = ucast (fw_action r)"
proof (cases "find (\<lambda>d. entries rs (prefix_of ip d) \<noteq> None) (rev [1..<33])")
  case None
  have "\<not> covers r ip" if "r \<in> set rs" for r
  proof
    assume "covers r ip"
    moreover have "entries rs (prefix_of ip (unat (fw_depth r))) = None" using None assms that by (fastforce simp: find_None_iff)
    ultimately show False using that by (auto simp: entries_prefix find_None_iff)
  qed
  then show ?thesis using None by (simp add: lpm_match_def)
next
  case (Some d)
  note d = find_down [OF Some]
  then obtain r where r: "find (\<lambda>r. covers r ip \<and> unat (fw_depth r) = d) (rev rs) = Some r" by (auto simp: entries_prefix)
  obtain pre post where s: "rs = pre @ r # post" "covers r ip" "unat (fw_depth r) = d" "\<forall>q \<in> set post. \<not> (covers q ip \<and> unat (fw_depth q) = d)"
    using find_rev_split [OF r] by blast
  have le: "unat (fw_depth q) \<le> d" if "q \<in> set rs" "covers q ip" for q
  proof (rule ccontr)
    assume "\<not> unat (fw_depth q) \<le> d"
    then have "entries rs (prefix_of ip (unat (fw_depth q))) = None" using d assms that(1) by fastforce
    then show False using that by (auto simp: entries_prefix find_None_iff)
  qed
  have "decides rs r ip"
    unfolding decides_def using s le by (intro exI [of _ pre] exI [of _ post]) (fastforce simp: word_le_nat_alt word_less_nat_alt le_less)
  moreover have "lpm_match (entries rs) ip = Some (ucast (fw_action r))" using Some r by (simp add: lpm_match_def entries_prefix)
  ultimately show ?thesis by auto
qed

lemma decides_unique:
  assumes "decides rs r ip" "decides rs q ip"
  shows "r = q"
proof -
  obtain pre post where r: "rs = pre @ r # post" "covers r ip" "\<forall>q \<in> set pre. covers q ip \<longrightarrow> fw_depth q \<le> fw_depth r"
      "\<forall>q \<in> set post. covers q ip \<longrightarrow> fw_depth q < fw_depth r" using assms(1) by (auto simp: decides_def)
  obtain pre' post' where q: "rs = pre' @ q # post'" "covers q ip" "\<forall>r \<in> set pre'. covers r ip \<longrightarrow> fw_depth r \<le> fw_depth q"
      "\<forall>r \<in> set post'. covers r ip \<longrightarrow> fw_depth r < fw_depth q" using assms(2) by (auto simp: decides_def)
  have "r = q \<or> q \<in> set pre \<and> r \<in> set post' \<or> r \<in> set pre' \<and> q \<in> set post"
    using r(1) q(1) by (auto simp: append_eq_append_conv2 Cons_eq_append_conv append_eq_Cons_conv)
  then show ?thesis using r(2-4) q(2-4) by (meson leD)
qed

section \<open>From the rules to the packets\<close>

text \<open>Every packet is counted once in the total and once under its fate (up to the width of the counters).\<close>

definition fw_counted :: "nat \<Rightarrow> firewall_pkt_stats \<Rightarrow> firewall_pkt_stats \<Rightarrow> bool" where
  "fw_counted n st st' \<longleftrightarrow> pkt_total st' = pkt_total st + of_nat n
     \<and> pkt_drop st' + pkt_accept st' + pkt_not_ipv4 st' = pkt_drop st + pkt_accept st + pkt_not_ipv4 st + of_nat n"

lemma handler_counted: "fw_packet_handler api tbl dest m st = Some (meta, st') \<Longrightarrow> fw_counted 1 st st'"
  by (auto simp: fw_packet_handler_def fw_counted_def Let_def bind_eq_Some_conv case_prod_beta split: option.splits if_splits)

lemma run_counted: "fw_run api tbl dest ms st = Some (metas, st') \<Longrightarrow> fw_counted (length ms) st st' \<and> length metas = length ms"
proof (induction ms arbitrary: st metas)
  case (Cons m ms)
  then obtain meta st1 metas2 where h: "fw_packet_handler api tbl dest m st = Some (meta, st1)" "fw_run api tbl dest ms st1 = Some (metas2, st')" "metas = meta # metas2"
    by (auto simp: bind_eq_Some_conv)
  then show ?case using Cons.IH [OF h(2)] handler_counted [OF h(1)] by (simp add: fw_counted_def)
qed (simp add: fw_counted_def)

lemma byte_hop: "(ucast (a :: u8) :: u32) = 0 \<longleftrightarrow> a = 0"
proof -
  have "unat (ucast a :: u32) = unat a" by (rule unat_ucast_up) simp
  then show ?thesis by (metis unat_eq_zero unat_0)
qed

context rte_lpm
begin

lemma tbl_add_entries:
  assumes "linv l" "routes l = entries rs" "tbl_add api r (Some l) = (ret, tbl)"
  shows "\<exists>l'. tbl = Some l' \<and> linv l' \<and> (ret < 0 \<and> routes l' = entries rs \<or> \<not> ret < 0 \<and> valid_depth r \<and> routes l' = entries (rs @ [r]))"
proof (cases "valid_depth r")
  case True
  obtain l' where l': "lpm_add api l (fw_src_ip r) (fw_depth r) (ucast (fw_action r)) = (ret, l')" "tbl = Some l'"
    using assms(3) by (auto simp: tbl_add_def split: prod.splits)
  then show ?thesis using add_entry [OF assms(1) _ _ l'(1)] True assms(2) by (auto simp: entries_snoc)
next
  case False
  then show ?thesis using add_depth [OF assms(1) False] assms by (auto simp: tbl_add_def)
qed

text \<open>The rules up to the first that is refused are in the table, the others are not.\<close>

lemma add_rules_entries:
  assumes "linv l" "routes l = entries old" "\<forall>r \<in> set old. valid_depth r" "add_rules api rules (Some l) = (ret, tbl)"
  shows "\<exists>rs rest l'. rules = rs @ rest \<and> tbl = Some l' \<and> linv l' \<and> routes l' = entries (old @ rs) \<and> (\<forall>r \<in> set (old @ rs). valid_depth r)
    \<and> (rest = [] \<and> ret = 0 \<or> (\<exists>r rest' l1. rest = r # rest' \<and> ret = 1 \<and> linv l1 \<and> routes l1 = entries (old @ rs) \<and> fst (tbl_add api r (Some l1)) < 0))"
  using assms
proof (induction rules arbitrary: l old)
  case (Cons r rules)
  obtain ret1 tbl1 where t: "tbl_add api r (Some l) = (ret1, tbl1)" by (cases "tbl_add api r (Some l)")
  obtain l1 where l1: "tbl1 = Some l1" "linv l1" and c: "ret1 < 0 \<and> routes l1 = entries old \<or> \<not> ret1 < 0 \<and> valid_depth r \<and> routes l1 = entries (old @ [r])"
    using tbl_add_entries [OF Cons.prems(1,2) t] by blast
  show ?case
  proof (cases "ret1 < 0")
    case True
    then show ?thesis using c l1 t Cons.prems by (intro exI [of _ "[]"] exI [of _ "r # rules"] exI [of _ l1]) auto
  next
    case False
    then have "add_rules api rules (Some l1) = (ret, tbl)" "\<forall>q \<in> set (old @ [r]). valid_depth q" "routes l1 = entries (old @ [r])"
      using Cons.prems(3,4) t l1(1) c by auto
    from Cons.IH [OF l1(2) this(3,2,1)] obtain rs rest l' where "rules = rs @ rest" "tbl = Some l'" "linv l'" "routes l' = entries ((old @ [r]) @ rs)"
        "\<forall>q \<in> set ((old @ [r]) @ rs). valid_depth q" "rest = [] \<and> ret = 0 \<or> (\<exists>q rest' l2. rest = q # rest' \<and> ret = 1 \<and> linv l2
           \<and> routes l2 = entries ((old @ [r]) @ rs) \<and> fst (tbl_add api q (Some l2)) < 0)"
      by blast
    then show ?thesis by (intro exI [of _ "r # rs"] exI [of _ rest] exI [of _ l']) simp
  qed
qed auto

text \<open>The handler does what the rule that decides says, and drops what none covers.\<close>

lemma handler_decides:
  assumes "linv l" "routes l = entries rs" "\<forall>r \<in> set rs. valid_depth r" "onvm_pkt_is_ipv4 m = Some True" "word_at (mb_bytes m) 26 = Some s"
  shows "\<exists>meta st'. fw_packet_handler api (Some l) dest m st = Some (meta, st')
    \<and> meta = (if \<exists>r. decides rs r (bswap32 s) \<and> fw_action r = 0 then (mb_meta m)\<lparr>action := ONVM_NF_ACTION_TONF, destination := dest\<rparr>
              else (mb_meta m)\<lparr>action := ONVM_NF_ACTION_DROP\<rparr>)"
proof -
  have h: "onvm_pkt_ipv4_hdr m = Some (Some 14)"
    using assms(4) by (auto simp: onvm_pkt_is_ipv4_def onvm_pkt_ipv4_hdr_def Let_def bind_eq_Some_conv split: if_splits)
  note d = lpm_match_decides [OF assms(3), of "bswap32 s"]
  show ?thesis
  proof (cases "lpm_match (entries rs) (bswap32 s)")
    case None
    then have "\<not> (\<exists>r. decides rs r (bswap32 s))" using d by (auto simp: decides_def)
    moreover have "fst (lpm_lookup api l (bswap32 s)) < 0" using lookup_miss [OF assms(1)] None assms(2) by simp
    ultimately show ?thesis using h assms(5) by (auto simp: fw_packet_handler_def Let_def split: prod.splits)
  next
    case (Some hop)
    then obtain r where r: "decides rs r (bswap32 s)" "hop = ucast (fw_action r)" using d by auto
    then have "(\<exists>q. decides rs q (bswap32 s) \<and> fw_action q = 0) \<longleftrightarrow> hop = 0" using decides_unique by (auto simp: byte_hop)
    moreover have "lpm_lookup api l (bswap32 s) = (0, hop)" using lookup_hit [OF assms(1)] Some assms(2) by simp
    ultimately show ?thesis using h assms(5) by (auto simp: fw_packet_handler_def Let_def)
  qed
qed

end

text \<open>A file that is written from rules is read back as these rules.\<close>

definition rule_item :: "onvm_fw_rule \<Rightarrow> json_rule" where
  "rule_item r = \<lparr>jr_ip = Some (Some (onvm_pkt_parse_char_ip (fw_src_ip r))), jr_depth = Some (int (unat (fw_depth r))), jr_action = Some (int (unat (fw_action r)))\<rparr>"

lemma setup_items_back:
  assumes "fe_rules_alloc env" "\<And>k. fe_rule_mem env k \<noteq> None"
  shows "setup_items env i (map rule_item rs) = Inr rs"
proof (induction rs arbitrary: i)
  case (Cons r rs)
  obtain junk where "fe_rule_mem env i = Some junk" using assms(2) [of i] by auto
  then have "setup_rule env i (rule_item r) = Inr r" using assms(1) parse_ip_roundtrip [of "fw_src_ip r"] by (simp add: setup_rule_def rule_item_def)
  then show ?case using Cons.IH [of "Suc i"] by simp
qed simp

text \<open>The structure is a byte wide, so an action of 256 accepts; and a rule whose address cannot be read covers whatever its memory held.\<close>

lemma rule_flaws:
  assumes "fe_rules_alloc env" "fe_rule_mem env i = Some junk" "jr_depth item = Some d" "jr_ip item = Some ip"
  shows "jr_action item = Some 256 \<Longrightarrow> \<exists>r. setup_rule env i item = Inr r \<and> fw_action r = 0"
    and "snd (onvm_pkt_parse_ip ip) = None \<Longrightarrow> jr_action item = Some act \<Longrightarrow> \<exists>r. setup_rule env i item = Inr r \<and> fw_src_ip r = junk"
  using assms by (simp_all add: setup_rule_def)

text \<open>Without a table, which \<^verbatim>\<open>main\<close> does not notice, the first IPv4 packet is undefined.\<close>

lemma no_table_undefined:
  assumes "fe_request env = None \<or> fe_find env = None" "fw_start api env menv early ts opts w = Inr (a, rules, tbl, w')" "onvm_pkt_is_ipv4 m = Some True"
  shows "fw_packet_handler api tbl dest m st = None"
proof -
  have "add_rules api rules None = (ret, t) \<Longrightarrow> t = None" for ret t by (cases rules) (auto simp: tbl_add_def)
  then have "tbl = None" using assms(1,2) by (auto simp: fw_start_def lpm_setup_def split: option.splits sum.splits prod.splits if_splits)
  moreover have "onvm_pkt_ipv4_hdr m = Some (Some 14)"
    using assms(3) by (auto simp: onvm_pkt_is_ipv4_def onvm_pkt_ipv4_hdr_def Let_def bind_eq_Some_conv split: if_splits)
  ultimately show ?thesis by (simp add: fw_packet_handler_def Let_def)
qed

text \<open>
  C17. The policy of the firewall: a packet is accepted exactly when, among the rules that are in force, the one with the longest prefix of its source address
  (of several the last) has the action 0; every other IPv4 packet is dropped; each is counted once. In force are the rules of the file up to
  the first that the table refuses: a refused rule takes all rules after it out of force.
\<close>

theorem firewall_policy:
  assumes "rte_lpm api routes linv" and "\<forall>l. fe_find env = Some l \<longrightarrow> linv l \<and> routes l = Map.empty"
    and "fw_start api env menv early ts opts w = Inr (a, rules, Some l, w')"
  shows "\<exists>rs rest. rules = rs @ rest \<and> (\<forall>r \<in> set rs. valid_depth r)
    \<and> (rest \<noteq> [] \<longrightarrow> (\<exists>l1. linv l1 \<and> routes l1 = entries rs \<and> fst (tbl_add api (hd rest) (Some l1)) < 0))
    \<and> (\<forall>m s st. onvm_pkt_is_ipv4 m = Some True \<and> word_at (mb_bytes m) 26 = Some s \<longrightarrow>
         (\<exists>st'. fw_packet_handler api (Some l) (fa_destination a) m st =
             Some (if \<exists>r. decides rs r (bswap32 s) \<and> fw_action r = 0 then (mb_meta m)\<lparr>action := ONVM_NF_ACTION_TONF, destination := fa_destination a\<rparr>
                   else (mb_meta m)\<lparr>action := ONVM_NF_ACTION_DROP\<rparr>, st') \<and> fw_counted 1 st st'))"
proof -
  obtain ret where add: "add_rules api rules (fe_find env) = (ret, Some l)"
    using assms(3) by (auto simp: fw_start_def lpm_setup_def split: option.splits sum.splits prod.splits if_splits)
  then obtain l0 where l0: "fe_find env = Some l0" by (cases "fe_find env"; cases rules) (auto simp: tbl_add_def)
  have "linv l0" "routes l0 = entries []" "\<forall>r \<in> set []. valid_depth r" using assms(2) l0 by (simp_all add: entries_def)
  from rte_lpm.add_rules_entries [OF assms(1) this add [unfolded l0], unfolded append_Nil] obtain rs rest where
    split: "rules = rs @ rest" and l: "linv l" "routes l = entries rs" "\<forall>r \<in> set rs. valid_depth r"
    and refused: "rest = [] \<or> (\<exists>r rest' l1. rest = r # rest' \<and> linv l1 \<and> routes l1 = entries rs \<and> fst (tbl_add api r (Some l1)) < 0)" by auto
  have "rest \<noteq> [] \<longrightarrow> (\<exists>l1. linv l1 \<and> routes l1 = entries rs \<and> fst (tbl_add api (hd rest) (Some l1)) < 0)" using refused by auto
  moreover have "\<exists>st'. fw_packet_handler api (Some l) dest m st =
      Some (if \<exists>r. decides rs r (bswap32 s) \<and> fw_action r = 0 then (mb_meta m)\<lparr>action := ONVM_NF_ACTION_TONF, destination := dest\<rparr>
            else (mb_meta m)\<lparr>action := ONVM_NF_ACTION_DROP\<rparr>, st') \<and> fw_counted 1 st st'"
    if "onvm_pkt_is_ipv4 m = Some True" "word_at (mb_bytes m) 26 = Some s" for m s st dest
  proof -
    note pkt = that
    obtain meta st' where "fw_packet_handler api (Some l) dest m st = Some (meta, st')"
      "meta = (if \<exists>r. decides rs r (bswap32 s) \<and> fw_action r = 0 then (mb_meta m)\<lparr>action := ONVM_NF_ACTION_TONF, destination := dest\<rparr>
              else (mb_meta m)\<lparr>action := ONVM_NF_ACTION_DROP\<rparr>)"
      using rte_lpm.handler_decides [OF assms(1) l pkt] by blast
    then show ?thesis using handler_counted by (intro exI [of _ st']) simp
  qed
  ultimately show ?thesis using split l(3) by blast
qed

section \<open>A concrete firewall\<close>

text \<open>A table as a list of entries, with room for \<open>cap\<close> of them.\<close>

definition list_lpm_api :: "nat \<Rightarrow> ((u32 \<times> nat) \<times> u32) list lpm_api" where
  "list_lpm_api cap = \<lparr>
     lpm_add = (\<lambda>l ip d hop. if \<not> (1 \<le> unat d \<and> unat d \<le> 32) then (- EINVAL, l)
        else if map_of l (prefix_of ip (unat d)) = None \<and> cap \<le> length l then (- ENOSPC, l)
        else (0, (prefix_of ip (unat d), hop) # l)),
     lpm_lookup = (\<lambda>l ip. case lpm_match (map_of l) ip of None \<Rightarrow> (- ENOENT, 0) | Some hop \<Rightarrow> (0, hop))\<rparr>"

interpretation list_lpm: rte_lpm "list_lpm_api cap" map_of "\<lambda>_. True" for cap
  by unfold_locales (auto simp: list_lpm_api_def split: if_splits)

text \<open>All of 10.0.0.0/8 is dropped except 10.0.0.0/16; the rule with depth 33 is refused, so the last one, against 10.0.0.1, is not in force.\<close>

definition demo_fw_rules :: "onvm_fw_rule list" where
  "demo_fw_rules = [\<lparr>fw_src_ip = 0x0a000000, fw_depth = 8, fw_action = 1\<rparr>, \<lparr>fw_src_ip = 0x0a000000, fw_depth = 16, fw_action = 0\<rparr>,
     \<lparr>fw_src_ip = 0x0a000000, fw_depth = 33, fw_action = 1\<rparr>, \<lparr>fw_src_ip = 0x0a000001, fw_depth = 32, fw_action = 1\<rparr>]"

definition demo_fw_env :: "((u32 \<times> nat) \<times> u32) list fw_env" where
  "demo_fw_env = \<lparr>fe_parse_file = (\<lambda>_. Some (map rule_item demo_fw_rules)), fe_rules_alloc = True, fe_rule_mem = (\<lambda>_. Some 0), fe_request = Some 3, fe_find = Some []\<rparr>"

definition demo_lpm :: "((u32 \<times> nat) \<times> u32) list" where
  "demo_lpm = [((0x0a00, 16), 0), ((0x0a, 8), 1)]"

definition demo_fw_opts :: "opt_result list" where
  "demo_fw_opts = [(CHR ''d'', Some ''4''), (CHR ''f'', Some ''rules.json'')]"

lemma demo_fw_start:
  "\<exists>a w'. fw_start (list_lpm_api 1024) demo_fw_env demo_mgr_env (\<lambda>v. v) [manager demo_mgr_env] demo_fw_opts demo_shared = Inr (a, demo_fw_rules, Some demo_lpm, w')
     \<and> fa_destination a = 4"
proof -
  have args: "fw_parse_app_args demo_fw_opts = Some \<lparr>fa_destination = 4, fa_print_delay = 10000000, fa_rule_file = Some ''rules.json'', fa_debug = False, fa_dst_flag = True\<rparr>"
    by code_simp
  have rules: "setup_rules demo_fw_env f = Inr demo_fw_rules" for f
    using setup_items_back [of demo_fw_env 0 demo_fw_rules] by (simp add: setup_rules_def demo_fw_env_def)
  have add: "add_rules (list_lpm_api 1024) demo_fw_rules (Some []) = (1, Some demo_lpm)" by code_simp
  obtain w' where "onvm_nflib_request_lpm demo_mgr_env 3 (\<lambda>v. v) [manager demo_mgr_env] demo_shared = Inr (if me_lpm_create demo_mgr_env 3 then 0 else - 1, w')"
    using request_lpm_answered [OF demo_shared_facts, of 3] by blast
  then have "onvm_nflib_request_lpm demo_mgr_env 3 (\<lambda>v. v) [manager demo_mgr_env] demo_shared = Inr (0, w')" by (simp add: demo_mgr_env_def)
  moreover have "fe_request demo_fw_env = Some 3" "fe_find demo_fw_env = Some []" by (simp_all add: demo_fw_env_def)
  ultimately show ?thesis using args rules add by (simp add: fw_start_def lpm_setup_def)
qed

theorem firewall_policy_witness:
  "\<exists>rs rest r a w'. fw_start (list_lpm_api 1024) demo_fw_env demo_mgr_env (\<lambda>v. v) [manager demo_mgr_env] demo_fw_opts demo_shared = Inr (a, demo_fw_rules, Some demo_lpm, w')
     \<and> demo_fw_rules = rs @ rest \<and> decides rs r 0x0a000001 \<and> fw_action r = 0"
proof -
  obtain a w' where start: "fw_start (list_lpm_api 1024) demo_fw_env demo_mgr_env (\<lambda>v. v) [manager demo_mgr_env] demo_fw_opts demo_shared
      = Inr (a, demo_fw_rules, Some demo_lpm, w')" using demo_fw_start by blast
  let ?st = "\<lparr>pkt_drop = 0, pkt_accept = 0, pkt_not_ipv4 = 0, pkt_total = 0\<rparr>"
  have empty: "\<forall>l. fe_find demo_fw_env = Some l \<longrightarrow> True \<and> map_of l = Map.empty" by (simp add: demo_fw_env_def)
  have pkt: "onvm_pkt_is_ipv4 demo_pkt = Some True" "word_at (mb_bytes demo_pkt) 26 = Some 0x0100000a" "bswap32 0x0100000a = 0x0a000001" by code_simp+
  have "lpm_lookup (list_lpm_api 1024) demo_lpm 0x0a000001 = (0, 0)" "onvm_pkt_ipv4_hdr demo_pkt = Some (Some 14)" by code_simp+
  then have h: "fw_packet_handler (list_lpm_api 1024) (Some demo_lpm) (fa_destination a) demo_pkt ?st =
      Some ((mb_meta demo_pkt)\<lparr>action := ONVM_NF_ACTION_TONF, destination := fa_destination a\<rparr>, ?st\<lparr>pkt_total := 1, pkt_accept := 1\<rparr>)"
    using pkt by (simp add: fw_packet_handler_def)
  obtain rs rest st' where "demo_fw_rules = rs @ rest" and c: "fw_packet_handler (list_lpm_api 1024) (Some demo_lpm) (fa_destination a) demo_pkt ?st =
      Some (if \<exists>r. decides rs r (bswap32 0x0100000a) \<and> fw_action r = 0 then (mb_meta demo_pkt)\<lparr>action := ONVM_NF_ACTION_TONF, destination := fa_destination a\<rparr>
            else (mb_meta demo_pkt)\<lparr>action := ONVM_NF_ACTION_DROP\<rparr>, st')"
    using firewall_policy [OF list_lpm.rte_lpm_axioms empty start] pkt(1,2) by blast
  moreover have "\<exists>r. decides rs r 0x0a000001 \<and> fw_action r = 0"
  proof (rule ccontr)
    assume n: "\<not> ?thesis"
    have "(mb_meta demo_pkt)\<lparr>action := ONVM_NF_ACTION_DROP\<rparr> = (mb_meta demo_pkt)\<lparr>action := ONVM_NF_ACTION_TONF, destination := fa_destination a\<rparr>"
      using c [unfolded h pkt(3) if_not_P [OF n]] by simp
    then have "action ((mb_meta demo_pkt)\<lparr>action := ONVM_NF_ACTION_DROP\<rparr>)
        = action ((mb_meta demo_pkt)\<lparr>action := ONVM_NF_ACTION_TONF, destination := fa_destination a\<rparr>)" by (rule arg_cong)
    then show False by simp
  qed
  ultimately show ?thesis using start by blast
qed

end
