(* ===== verification/Spec2Isabelle.thy ===== *)
theory Spec2Isabelle
  imports AfxdpThreads XdpKern MgrMain MgrArgs MgrInit NfArgs NfClient Platform LbExpiry TokenBucket FairQueue Firewall
begin

text \<open>
  openNetVM with its AF XDP datapath: a verification of the manager, the AF XDP manager, the NF library and four of its NFs.

  \<^bold>\<open>The program.\<close> openNetVM runs network functions (NFs) as processes. The manager (\<^verbatim>\<open>src/onvm/onvm_mgr\<close>) receives packets from the NICs, hands
  them to NFs through rings in shared memory, moves them from NF to NF along service chains and sends them out;
  it also gives NFs their ids and cores. The NF library (\<^verbatim>\<open>src/onvm/onvm_nflib\<close>) is the other side: it registers an NF, runs its packet
  handler and sends on what it returns. A second manager (\<^verbatim>\<open>src/onvm/onvm_mgr/afxdp\<close>) replaces the DPDK ports by one AF XDP socket: an
  XDP program in the kernel redirects packets to it, and frames of a shared memory area travel between the fill, RX, TX and completion
  rings and a free stack.

  \<^bold>\<open>Method.\<close> Functions of the code are functions of the same name on explicit states; structures are records, and integers are
  words of their width. Where the code can leave its arrays, use a null or freed pointer or hit an assertion, the result is
  \<open>None\<close> or a constructor of an error type, and \<^verbatim>\<open>rte_exit\<close> and \<^verbatim>\<open>exit\<close> are values too; so every theorem that a call has a result also says
  that none of this happens. Loops over data are structural or have a measure; loops that wait for others take the list of what the others
  do meanwhile (observations or turns), and an answer \<^emph>\<open>still waiting\<close> is a value of its own. The loops that empty a ring,
  the retry of a fill reservation, the walk over a hash table and the scan of the queues for a packet are \<open>partial_function\<close>s, proved to
  return where the laws of rings and tables make them. No fuel is used.

  \<^bold>\<open>What is assumed.\<close> DPDK, libxdp and libbpf, the NIC and the operating system are parameters. Their documented behaviour is stated in
  locales and predicates: \<open>rte_ring\<close> (a bounded FIFO), \<open>rte_hash\<close> (a bounded map), \<open>rte_hash_iter\<close> (a walk over its slots in order), \<open>rte_lpm\<close> (a longest-prefix table), \<open>xsk_rings\<close> (the four rings of a socket),
  \<open>nic_ok\<close> (\<^verbatim>\<open>rte_eth_tx_burst\<close> takes at most what it is given). Each has a concrete instance (\<open>list_ring\<close>, \<open>list_hash\<close>, \<open>slot_hash\<close>, \<open>list_lpm\<close>, \<open>ref_rings\<close>), and
  the witnesses of the theorems run on these instances. What other threads and processes do between two steps is arbitrary as
  far as it keeps the stated invariants.

  \<^bold>\<open>The AF XDP manager\<close> (\<^verbatim>\<open>afxdp/onvm_afxdp.c\<close> and its headers).
  \<^item> \<open>AfxdpTypes\<close>: configuration, statistics, UMEM, socket and manager records, with the constants of the configuration header.
  \<^item> \<open>UmemFrames\<close>: the stack of free frames; the locale \<open>frame_pool\<close> is the interface of a pool and \<open>umem_pool\<close> its interpretation on the code's allocator.
  \<^item> \<open>XskRings\<close>, \<open>AfxdpDatapath\<close>: ring access, transmission, completion, refilling and the receive batch, and what each does to frames and counters.
  \<^item> \<open>AfxdpSystem\<close>: the datapath with the kernel as a step relation; every frame has one owner in every reachable state, and a receive step
    never fails an assertion. Refilling beyond the pool is where the code would.
  \<^item> \<open>AfxdpArgs\<close>, \<open>AfxdpLifecycle\<close>, \<open>AfxdpThreads\<close>: command line and pre-flight checks, allocation and release of resources on every error path, the
    receive and manager threads and \<^verbatim>\<open>main\<close>.
  \<^item> \<open>XdpKern\<close>: the XDP program of \<^verbatim>\<open>af_xdp_kern.c\<close> on the bytes of a packet; which packets it redirects.

  \<^bold>\<open>The DPDK manager\<close> (\<^verbatim>\<open>onvm_mgr/main.c\<close>, \<^verbatim>\<open>onvm_nf.c\<close>, \<^verbatim>\<open>onvm_pkt.c\<close>, \<^verbatim>\<open>onvm_args.c\<close>) \<^bold>\<open>and code shared with the NFs\<close> (\<^verbatim>\<open>onvm_nflib\<close>).
  \<^item> \<open>OnvmTypes\<close>: \<^verbatim>\<open>onvm_common.h\<close>: limits, states, metadata, the NF record, the names of shared objects.
  \<^item> \<open>ServiceChain\<close>, \<open>FlowTable\<close>, \<open>FlowDir\<close>: chains, the hash table of flows refining a finite map, and the flow director with its reference counts.
  \<^item> \<open>CoreAlloc\<close>: \<^verbatim>\<open>onvm_threading.c\<close>, the choice of a core.
  \<^item> \<open>RteRing\<close>: the ring interface and the loops that drain a ring.
  \<^item> \<open>NfMgr\<close>, \<open>NfLifetime\<close>: instance ids, start, ready and stop of NFs and the manager's messages; in every reachable state the service table lists exactly the
    running NFs. The capacity of a service and restarts after an early stop are where the code fails.
  \<^item> \<open>PktHelper\<close>: checksums, header access and parsing of addresses (\<^verbatim>\<open>onvm_pkt_helper.c\<close>).
  \<^item> \<open>PktProc\<close>, \<open>MgrThreads\<close>: \<^verbatim>\<open>onvm_pkt_common.c\<close>, \<^verbatim>\<open>onvm_pkt.c\<close> and the RX and TX threads. The locale \<open>packet_loop\<close> proves for a loop whose pass
    keeps an account of packets that any run does, interleaved with others; it is interpreted on the RX thread, the TX thread and the
    main loop of an NF. The locale \<open>nf_frame\<close> proves once which parts of the NF table the packet paths leave alone.
  \<^item> \<open>MgrMain\<close>: the number of threads and the NFs each serves, the wakeup and master threads, allocation and release in \<^verbatim>\<open>main\<close>.
  \<^item> \<open>MgrArgs\<close>: the manager's command line.
  \<^item> \<open>MgrInit\<close>: \<^verbatim>\<open>onvm_init.c\<close>, from the EAL to the rings, semaphores and default chain, with the answers of DPDK and of the operating system as
    parameters: when a set-up that returns leaves the empty state from which the NF life cycle starts (an allocation is not checked and
    a zone not cleared), that the wait for links is bounded, and that every port has its queues. The semaphores are not all removed at the end.

  \<^bold>\<open>The NF library\<close> (\<^verbatim>\<open>onvm_nflib.c\<close>).
  \<^item> \<open>NfArgs\<close>: configuration of an NF and its command line.
  \<^item> \<open>NfLoop\<close>: the main loop, with the packet handler, messages, scaling, sleeping and the conditions that end it. A pass loses no packet, and a stop
    message ends the loop.
  \<^item> \<open>NfClient\<close>: start, ready, requests, stop, children, signals. The handshake theorem connects it with \<open>NfMgr\<close>: the library returns what
    the manager decided, and an accepted NF ends up running and registered.

  \<^bold>\<open>Four NFs\<close> (\<^verbatim>\<open>src/examples\<close>), whose state is more than counters.
  \<^item> \<open>LoadBalancer\<close>, \<open>LbExpiry\<close>: \<^verbatim>\<open>load_balancer.c\<close> on the flow table of \<open>FlowTable\<close>. The locale \<open>lb_table\<close> holds what every packet does to the table of
    connections, \<open>lb_expiry\<close> extends it by the walk that removes expired ones. A connection keeps its server, answers go back to the
    client, and expired entries go; a table that is full never takes a new connection.
  \<^item> \<open>TokenBucket\<close>: \<^verbatim>\<open>simple_fwd_tb/forward_tb.c\<close>, with the bytes it lets through in any time bounded by depth and rate.
  \<^item> \<open>FairQueue\<close>: \<^verbatim>\<open>fair_queue_helper.h\<close>, its circular buffers refining lists (locale \<open>ring_queue\<close>), the round robin over the queues, and the deadlock of its
    two threads on a full ring.
  \<^item> \<open>Firewall\<close>: \<^verbatim>\<open>firewall.c\<close>, from the rules file and the request for a table (\<open>NfClient\<close>) to the packets. The locale \<open>rte_lpm\<close> states the longest-prefix
    table; a packet gets the decision of the longest matching rule in force.

  \<^bold>\<open>The platform\<close> (\<open>Platform\<close>): the RX threads, the TX threads and the main loops of the NFs together, on one shared state and under any
  schedule: every pass returns, the structure stays well-formed, and no packet is lost or duplicated.

  \<open>Prelude\<close> and \<open>CLib\<close> hold the lemmas on words, lists and multisets and the parts of the C library (number scanning, \<^verbatim>\<open>getopt\<close>) that the
  components share.

  \<^bold>\<open>Not modelled.\<close> \<^verbatim>\<open>onvm_stats.c\<close> except the clearing of counters, and the statistics summaries (formatted output and JSON);
  the configuration file reader
  \<^verbatim>\<open>onvm_config_common.c\<close> and cJSON, which is vendored; \<^verbatim>\<open>onvm_nflib_init\<close> and the look-up of shared structures; packet capture; affinity, thread creation
  and the insides of semaphores and shared memory segments, which are operating system calls (their answers are parameters); the other example NFs, the web interface, scripts and tools. The memory model is
  sequential: an atomic access or a ring operation is one step, and data races between threads on plain fields are not
  represented.
\<close>

end
